(* ===== verification/Prelude.thy ===== *)
theory Prelude
  imports Main "HOL-Library.Word"
begin

text \<open>
  What every theory of the development shares: the machine integers of the C code, the
  values that stand for an execution that does not return normally, the sequencing of
  fallible steps, and the algebra of bit fields packed in a 64-bit word, on which the
  layout of the capabilities rests.
\<close>

unbundle bit_operations_syntax

type_synonym u8 = "8 word"
type_synonym u16 = "16 word"
type_synonym u32 = "32 word"
type_synonym u64 = "64 word"

named_theorems bit_layout \<open>literal masks and shifts as bit fields\<close>

section \<open>Executions that do not return\<close>

text \<open>
  \<open>Assert_failed\<close> is a failed \<open>kassert\<close> (the kernel prints and calls \<open>hang\<close>),
  \<open>Null_deref\<close> an access through a null pointer, \<open>Out_of_bounds\<close> an array index past
  the end, \<open>Spins\<close> a busy-waiting loop whose exit no one else can bring about, and
  \<open>Undefined\<close> other undefined behaviour (\<open>__builtin_unreachable\<close> reached, a variadic
  argument of the wrong type).
\<close>

datatype stop = Assert_failed | Null_deref | Out_of_bounds | Spins | Undefined

definition ebind :: "'e + 'a \<Rightarrow> ('a \<Rightarrow> 'e + 'b) \<Rightarrow> 'e + 'b" where
  "ebind m f = (case m of Inl e \<Rightarrow> Inl e | Inr x \<Rightarrow> f x)"

definition kassert :: "bool \<Rightarrow> stop + unit" where
  "kassert b = (if b then Inr () else Inl Assert_failed)"

lemma ebind_simps [simp]:
  "ebind (Inl e) f = Inl e"
  "ebind (Inr x) f = f x"
  by (simp_all add: ebind_def)

lemma ebind_Inr_iff: "ebind m f = Inr y \<longleftrightarrow> (\<exists>x. m = Inr x \<and> f x = Inr y)"
  by (cases m) simp_all

lemma ebind_Inl_iff: "ebind m f = Inl e \<longleftrightarrow> m = Inl e \<or> (\<exists>x. m = Inr x \<and> f x = Inl e)"
  by (cases m) simp_all

lemma ebind_InrE:
  assumes "ebind m f = Inr y"
  obtains x where "m = Inr x" and "f x = Inr y"
  using assms by (auto simp: ebind_Inr_iff)

lemma kassert_simps [simp]:
  "kassert True = Inr ()"
  "kassert False = Inl Assert_failed"
  by (simp_all add: kassert_def)

lemma kassert_Inr_iff [simp]: "kassert b = Inr u \<longleftrightarrow> b"
  by (simp add: kassert_def)

lemma kassert_Inl_iff [simp]: "kassert b = Inl e \<longleftrightarrow> \<not> b \<and> e = Assert_failed"
  by (auto simp: kassert_def)

lemma in_set_tlD: "x \<in> set (tl xs) \<Longrightarrow> x \<in> set xs"
  by (cases xs) auto

section \<open>Bit fields\<close>

text \<open>
  \<open>field_get k n w\<close> reads the field of \<open>n\<close> bits at offset \<open>k\<close> of the word \<open>w\<close>, and
  \<open>field_set k n w v\<close> clears it and ors \<open>v\<close> in without masking \<open>v\<close>, as the setters of
  \<open>s3k_cap.h\<close> do. \<open>fits n v\<close> is the width check of the generated assertions.
\<close>

definition field_get :: "nat \<Rightarrow> nat \<Rightarrow> u64 \<Rightarrow> u64" where
  "field_get k n w = drop_bit k w AND mask n"

definition field_set :: "nat \<Rightarrow> nat \<Rightarrow> u64 \<Rightarrow> u64 \<Rightarrow> u64" where
  "field_set k n w v = (w AND NOT (push_bit k (mask n))) OR push_bit k v"

definition fits :: "nat \<Rightarrow> u64 \<Rightarrow> bool" where
  "fits n v \<longleftrightarrow> v AND mask n = v"

lemma fits_bit: "fits n v \<Longrightarrow> bit v i \<Longrightarrow> i < n"
  unfolding fits_def by (metis bit_and_iff bit_mask_iff)

lemma fits_unat: "n < 64 \<Longrightarrow> fits n v \<longleftrightarrow> unat v < 2 ^ n"
proof -
  assume n: "n < 64"
  have "fits n v \<longleftrightarrow> take_bit n v = v"
    by (simp add: fits_def take_bit_eq_mask)
  also have "\<dots> \<longleftrightarrow> take_bit n (unat v) = unat v"
    by (metis unsigned_take_bit_eq unsigned_word_eqI)
  also have "\<dots> \<longleftrightarrow> unat v < 2 ^ n"
    by (simp add: take_bit_nat_eq_self_iff)
  finally show ?thesis .
qed

lemma field_get_fits [simp]: "fits n (field_get k n w)"
  by (simp add: fits_def field_get_def and.assoc)

lemma fits_0 [simp]: "fits n 0"
  by (simp add: fits_def)

lemma fits_1 [simp]: "0 < n \<Longrightarrow> fits n 1"
  unfolding fits_def by (rule bit_eqI) (auto simp: bit_simps)

lemma fits_le: "fits n v \<Longrightarrow> w \<le> v \<Longrightarrow> n < 64 \<Longrightarrow> fits n w"
  by (simp add: fits_unat word_le_nat_alt)

lemma field_get_set_same:
  assumes "k + n \<le> 64" and "fits n v"
  shows "field_get k n (field_set k n w v) = v"
proof (rule bit_eqI)
  fix i
  assume "possible_bit TYPE(u64) i"
  then show "bit (field_get k n (field_set k n w v)) i = bit v i"
    using assms(1) fits_bit [OF assms(2), of i]
    by (auto simp: field_get_def field_set_def bit_simps)
qed

lemma field_get_set_other:
  assumes "fits n v" and "k + n \<le> k' \<or> k' + n' \<le> k" and "k' + n' \<le> 64"
  shows "field_get k' n' (field_set k n w v) = field_get k' n' w"
proof (rule bit_eqI)
  fix i
  show "bit (field_get k' n' (field_set k n w v)) i = bit (field_get k' n' w) i"
    using assms(2,3) fits_bit [OF assms(1), of "k' + i - k"]
    by (auto simp: field_get_def field_set_def bit_simps)
qed

lemma field_set_set:
  assumes "fits n v" and "k + n \<le> 64"
  shows "field_set k n (field_set k n w v) v' = field_set k n w v'"
proof (rule bit_eqI)
  fix i
  show "bit (field_set k n (field_set k n w v) v') i = bit (field_set k n w v') i"
    using assms(2) fits_bit [OF assms(1), of "i - k"]
    by (auto simp: field_set_def bit_simps)
qed

lemma field_set_get: "k + n \<le> 64 \<Longrightarrow> field_set k n w (field_get k n w) = w"
  by (rule bit_eqI) (auto simp: field_get_def field_set_def bit_simps)

lemma field_get_0 [simp]: "field_get k n 0 = 0"
  by (simp add: field_get_def)

text \<open>Words built by or-ing shifted fields, as the constructors do.\<close>

lemma field_get_or: "field_get k n (v OR w) = field_get k n v OR field_get k n w"
  by (simp add: field_get_def bit.conj_disj_distrib2)

lemma field_get_push_same: "k + n \<le> 64 \<Longrightarrow> fits n v \<Longrightarrow> field_get k n (push_bit k v) = v"
  using field_get_set_same [of k n v 0] by (simp add: field_set_def)

lemma field_get_push_other:
  "fits n v \<Longrightarrow> k + n \<le> k' \<or> k' + n' \<le> k \<Longrightarrow> k' + n' \<le> 64
    \<Longrightarrow> field_get k' n' (push_bit k v) = 0"
  using field_get_set_other [of n v k k' n' 0] by (simp add: field_set_def)

lemma field_get_low: "n \<le> 64 \<Longrightarrow> fits n v \<Longrightarrow> field_get 0 n v = v"
  using field_get_push_same [of 0 n v] by simp

lemma field_get_low_other: "fits n v \<Longrightarrow> n \<le> k' \<Longrightarrow> k' + n' \<le> 64 \<Longrightarrow> field_get k' n' v = 0"
  using field_get_push_other [of n v 0 k' n'] by simp

lemma ebind_assoc: "ebind (ebind m f) g = ebind m (\<lambda>x. ebind (f x) g)"
  by (cases m) simp_all

end
