(* ===== verification/Config.thy ===== *)
theory Config
  imports Prelude
begin

text \<open>
  The build-time constants (\<open>config.h\<close> and the default platform \<open>bsp/virt.h\<close>) and the
  enumerations of \<open>inc/consts.h\<close>, with the numbers the C compiler gives them.
\<close>

section \<open>config.h and bsp/virt.h\<close>

definition N_PROC :: nat where "N_PROC = 6"

definition N_CAPS :: nat where "N_CAPS = 64"

definition N_QUANTUM :: nat where "N_QUANTUM = 128"

definition N_CHANNELS :: nat where "N_CHANNELS = N_PROC * (N_PROC - 1)"

definition MIN_HARTID :: nat where "MIN_HARTID = 1"

definition MAX_HARTID :: nat where "MAX_HARTID = 4"

definition N_HARTS :: nat where "N_HARTS = MAX_HARTID - MIN_HARTID + 1"

definition TICKS_PER_SECOND :: u64 where "TICKS_PER_SECOND = 10000000"

definition TICKS :: u64 where "TICKS = TICKS_PER_SECOND div of_nat N_QUANTUM div 100"

definition SCHEDULER_TICKS :: u64 where "SCHEDULER_TICKS = 2000"

lemmas config_defs = N_PROC_def N_CAPS_def N_QUANTUM_def N_CHANNELS_def MIN_HARTID_def
  MAX_HARTID_def N_HARTS_def

lemma TICKS_val: "TICKS = 781"
  by (simp add: TICKS_def TICKS_PER_SECOND_def config_defs)

section \<open>inc/consts.h\<close>

datatype proc_state =
    PROC_STATE_READY | PROC_STATE_RUNNING | PROC_STATE_WAITING | PROC_STATE_RECEIVING
  | PROC_STATE_SUSPENDED | PROC_STATE_RUNNING_THEN_SUSPEND | PROC_STATE_SUSPENDED_BUSY
  | PROC_STATE_RECEIVING_THEN_SUSPEND

fun pstate :: "proc_state \<Rightarrow> u64" where
  "pstate PROC_STATE_READY = 0"
| "pstate PROC_STATE_RUNNING = 1"
| "pstate PROC_STATE_WAITING = 2"
| "pstate PROC_STATE_RECEIVING = 3"
| "pstate PROC_STATE_SUSPENDED = 4"
| "pstate PROC_STATE_RUNNING_THEN_SUSPEND = 5"
| "pstate PROC_STATE_SUSPENDED_BUSY = 6"
| "pstate PROC_STATE_RECEIVING_THEN_SUSPEND = 7"

datatype s3k_error =
    ERROR_OK | ERROR_EMPTY | ERROR_FAILED | ERROR_PREEMPTED | ERROR_INTERRUPTED
  | ERROR_COLLISION | ERROR_NO_RECEIVER | ERROR_ILLEGAL_DERIVATION
  | ERROR_INVALID_SUPERVISEE | ERROR_SUPERVISEE_BUSY | ERROR_UNIMPLEMENTED

text \<open>The value a syscall handler returns; \<open>ERROR_UNIMPLEMENTED\<close> is \<open>-1\<close> as \<open>uint64_t\<close>.\<close>

fun err :: "s3k_error \<Rightarrow> u64" where
  "err ERROR_OK = 0"
| "err ERROR_EMPTY = 1"
| "err ERROR_FAILED = 2"
| "err ERROR_PREEMPTED = 3"
| "err ERROR_INTERRUPTED = 4"
| "err ERROR_COLLISION = 5"
| "err ERROR_NO_RECEIVER = 6"
| "err ERROR_ILLEGAL_DERIVATION = 7"
| "err ERROR_INVALID_SUPERVISEE = 8"
| "err ERROR_SUPERVISEE_BUSY = 9"
| "err ERROR_UNIMPLEMENTED = -1"

datatype s3k_call =
    ECALL_UNIMPLEMENTED | ECALL_READ_CAP | ECALL_MOVE_CAP | ECALL_DELETE_CAP
  | ECALL_REVOKE_CAP | ECALL_DERIVE_CAP | ECALL_INVOKE_CAP | ECALL_GET_PID
  | ECALL_READ_REG | ECALL_WRITE_REG | ECALL_YIELD

fun call_num :: "s3k_call \<Rightarrow> nat" where
  "call_num ECALL_UNIMPLEMENTED = 0"
| "call_num ECALL_READ_CAP = 1"
| "call_num ECALL_MOVE_CAP = 2"
| "call_num ECALL_DELETE_CAP = 3"
| "call_num ECALL_REVOKE_CAP = 4"
| "call_num ECALL_DERIVE_CAP = 5"
| "call_num ECALL_INVOKE_CAP = 6"
| "call_num ECALL_GET_PID = 7"
| "call_num ECALL_READ_REG = 8"
| "call_num ECALL_WRITE_REG = 9"
| "call_num ECALL_YIELD = 10"

definition NUM_OF_SYSNR :: nat where "NUM_OF_SYSNR = 11"

datatype s3k_call_sup =
    ECALL_SUP_SUSPEND | ECALL_SUP_RESUME | ECALL_SUP_GET_STATE | ECALL_SUP_READ_REG
  | ECALL_SUP_WRITE_REG | ECALL_SUP_READ_CAP | ECALL_SUP_GIVE_CAP | ECALL_SUP_TAKE_CAP

fun sup_num :: "s3k_call_sup \<Rightarrow> u64" where
  "sup_num ECALL_SUP_SUSPEND = 0"
| "sup_num ECALL_SUP_RESUME = 1"
| "sup_num ECALL_SUP_GET_STATE = 2"
| "sup_num ECALL_SUP_READ_REG = 3"
| "sup_num ECALL_SUP_WRITE_REG = 4"
| "sup_num ECALL_SUP_READ_CAP = 5"
| "sup_num ECALL_SUP_GIVE_CAP = 6"
| "sup_num ECALL_SUP_TAKE_CAP = 7"

lemma pstate_inj [simp]: "pstate x = pstate y \<longleftrightarrow> x = y"
  by (cases x; cases y) simp_all

lemma err_inj [simp]: "err x = err y \<longleftrightarrow> x = y"
  by (cases x; cases y) simp_all

lemma call_num_inj [simp]: "call_num x = call_num y \<longleftrightarrow> x = y"
  by (cases x; cases y) simp_all

text \<open>System calls are ordered by their number, as the enumeration is.\<close>

instantiation s3k_call :: linorder
begin

definition less_eq_s3k_call :: "s3k_call \<Rightarrow> s3k_call \<Rightarrow> bool" where
  "less_eq_s3k_call x y \<longleftrightarrow> call_num x \<le> call_num y"

definition less_s3k_call :: "s3k_call \<Rightarrow> s3k_call \<Rightarrow> bool" where
  "less_s3k_call x y \<longleftrightarrow> call_num x < call_num y"

instance
proof
  fix x y z :: s3k_call
  show "x < y \<longleftrightarrow> x \<le> y \<and> \<not> y \<le> x"
    by (auto simp: less_eq_s3k_call_def less_s3k_call_def)
  show "x \<le> x"
    by (simp add: less_eq_s3k_call_def)
  show "x \<le> y \<Longrightarrow> y \<le> z \<Longrightarrow> x \<le> z"
    by (simp add: less_eq_s3k_call_def)
  show "x \<le> y \<Longrightarrow> y \<le> x \<Longrightarrow> x = y"
    by (simp add: less_eq_s3k_call_def order_antisym_conv)
  show "x \<le> y \<or> y \<le> x"
    by (auto simp: less_eq_s3k_call_def)
qed

end

end
