(* ===== verification/CapFields.thy ===== *)
theory CapFields
  imports Config
begin

text \<open>
  The capability words of \<open>api/s3k_cap.h\<close> (the checked-in copy of the header that
  \<open>scripts/cap_gen.py\<close> generates from \<open>gen/cap.yml\<close>): the type tag, and for every kind of
  capability its constructor, its getters and its setters, one definition per C function,
  with the literal shifts and masks of the C text. The locale \<open>cap_field\<close> is the contract
  of one getter/setter pair; it is interpreted for each of the 25 fields. The lemma
  bundles say how every pair reads the packed words, so that the theories above never
  look at a shift or a mask.
\<close>

section \<open>The type tag\<close>

record cap_t =
  word0 :: u64
  word1 :: u64

definition NULL_CAP :: cap_t where
  "NULL_CAP = \<lparr>word0 = 0, word1 = 0\<rparr>"

datatype cap_type =
    CAP_TYPE_EMPTY | CAP_TYPE_MEMORY | CAP_TYPE_PMP | CAP_TYPE_TIME | CAP_TYPE_CHANNELS
  | CAP_TYPE_RECEIVER | CAP_TYPE_SENDER | CAP_TYPE_SERVER | CAP_TYPE_CLIENT
  | CAP_TYPE_SUPERVISOR

fun cap_type_num :: "cap_type \<Rightarrow> u64" where
  "cap_type_num CAP_TYPE_EMPTY = 0"
| "cap_type_num CAP_TYPE_MEMORY = 1"
| "cap_type_num CAP_TYPE_PMP = 2"
| "cap_type_num CAP_TYPE_TIME = 3"
| "cap_type_num CAP_TYPE_CHANNELS = 4"
| "cap_type_num CAP_TYPE_RECEIVER = 5"
| "cap_type_num CAP_TYPE_SENDER = 6"
| "cap_type_num CAP_TYPE_SERVER = 7"
| "cap_type_num CAP_TYPE_CLIENT = 8"
| "cap_type_num CAP_TYPE_SUPERVISOR = 9"

definition cap_get_type :: "cap_t \<Rightarrow> u64" where
  "cap_get_type cap = 0xff AND word0 cap"

definition cap_is_type :: "cap_t \<Rightarrow> cap_type \<Rightarrow> bool" where
  "cap_is_type cap t \<longleftrightarrow> cap_get_type cap = cap_type_num t"

definition pmp_napot_begin :: "u64 \<Rightarrow> u64" where
  "pmp_napot_begin addr = addr AND (addr + 1)"

definition pmp_napot_end :: "u64 \<Rightarrow> u64" where
  "pmp_napot_end addr = addr OR (addr + 1)"

lemma cap_type_num_inj [simp]: "cap_type_num t = cap_type_num t' \<longleftrightarrow> t = t'"
  by (cases t; cases t') simp_all

lemma cap_type_num_fits [simp]: "fits 8 (cap_type_num t)"
  by (cases t) (simp_all add: fits_def mask_eq_exp_minus_1)

lemma cap_is_type_unique: "cap_is_type cap t \<Longrightarrow> cap_is_type cap t' \<longleftrightarrow> t = t'"
  by (auto simp: cap_is_type_def)

lemma cap_is_type_NULL [simp]: "cap_is_type NULL_CAP t \<longleftrightarrow> t = CAP_TYPE_EMPTY"
  by (cases t) (simp_all add: cap_is_type_def cap_get_type_def NULL_CAP_def)

section \<open>Constructors, getters and setters\<close>

subsection \<open>Memory\<close>

definition cap_mk_memory :: "u64 \<Rightarrow> u64 \<Rightarrow> u64 \<Rightarrow> u64 \<Rightarrow> u64 \<Rightarrow> cap_t" where
  "cap_mk_memory b e rwx fr pm =
     \<lparr>word0 = ((cap_type_num CAP_TYPE_MEMORY OR push_bit 8 pm) OR push_bit 16 rwx) OR push_bit 24 b,
      word1 = (0 OR fr) OR push_bit 32 e\<rparr>"

definition cap_memory_get_begin :: "cap_t \<Rightarrow> u64" where
  "cap_memory_get_begin cap = drop_bit 24 (word0 cap) AND 0xffffffff"

definition cap_memory_set_begin :: "cap_t \<Rightarrow> u64 \<Rightarrow> cap_t" where
  "cap_memory_set_begin cap v = cap\<lparr>word0 := (word0 cap AND NOT 0xffffffff000000) OR push_bit 24 v\<rparr>"

definition cap_memory_get_end :: "cap_t \<Rightarrow> u64" where
  "cap_memory_get_end cap = drop_bit 32 (word1 cap) AND 0xffffffff"

definition cap_memory_set_end :: "cap_t \<Rightarrow> u64 \<Rightarrow> cap_t" where
  "cap_memory_set_end cap v = cap\<lparr>word1 := (word1 cap AND NOT 0xffffffff00000000) OR push_bit 32 v\<rparr>"

definition cap_memory_get_rwx :: "cap_t \<Rightarrow> u64" where
  "cap_memory_get_rwx cap = drop_bit 16 (word0 cap) AND 0xff"

definition cap_memory_set_rwx :: "cap_t \<Rightarrow> u64 \<Rightarrow> cap_t" where
  "cap_memory_set_rwx cap v = cap\<lparr>word0 := (word0 cap AND NOT 0xff0000) OR push_bit 16 v\<rparr>"

definition cap_memory_get_free :: "cap_t \<Rightarrow> u64" where
  "cap_memory_get_free cap = word1 cap AND 0xffffffff"

definition cap_memory_set_free :: "cap_t \<Rightarrow> u64 \<Rightarrow> cap_t" where
  "cap_memory_set_free cap v = cap\<lparr>word1 := (word1 cap AND NOT 0xffffffff) OR v\<rparr>"

definition cap_memory_get_pmp :: "cap_t \<Rightarrow> u64" where
  "cap_memory_get_pmp cap = drop_bit 8 (word0 cap) AND 0xff"

definition cap_memory_set_pmp :: "cap_t \<Rightarrow> u64 \<Rightarrow> cap_t" where
  "cap_memory_set_pmp cap v = cap\<lparr>word0 := (word0 cap AND NOT 0xff00) OR push_bit 8 v\<rparr>"

subsection \<open>Pmp\<close>

definition cap_mk_pmp :: "u64 \<Rightarrow> u64 \<Rightarrow> cap_t" where
  "cap_mk_pmp addr rwx =
     \<lparr>word0 = (cap_type_num CAP_TYPE_PMP OR push_bit 8 rwx) OR push_bit 16 addr,
      word1 = 0\<rparr>"

definition cap_pmp_get_addr :: "cap_t \<Rightarrow> u64" where
  "cap_pmp_get_addr cap = drop_bit 16 (word0 cap) AND 0xffffffff"

definition cap_pmp_set_addr :: "cap_t \<Rightarrow> u64 \<Rightarrow> cap_t" where
  "cap_pmp_set_addr cap v = cap\<lparr>word0 := (word0 cap AND NOT 0xffffffff0000) OR push_bit 16 v\<rparr>"

definition cap_pmp_get_rwx :: "cap_t \<Rightarrow> u64" where
  "cap_pmp_get_rwx cap = drop_bit 8 (word0 cap) AND 0xff"

definition cap_pmp_set_rwx :: "cap_t \<Rightarrow> u64 \<Rightarrow> cap_t" where
  "cap_pmp_set_rwx cap v = cap\<lparr>word0 := (word0 cap AND NOT 0xff00) OR push_bit 8 v\<rparr>"

subsection \<open>Time\<close>

definition cap_mk_time :: "u64 \<Rightarrow> u64 \<Rightarrow> u64 \<Rightarrow> u64 \<Rightarrow> cap_t" where
  "cap_mk_time h b e fr =
     \<lparr>word0 = (((cap_type_num CAP_TYPE_TIME OR push_bit 8 fr) OR push_bit 24 e) OR push_bit 40 b) OR push_bit 56 h,
      word1 = 0\<rparr>"

definition cap_time_get_hartid :: "cap_t \<Rightarrow> u64" where
  "cap_time_get_hartid cap = drop_bit 56 (word0 cap) AND 0xff"

definition cap_time_set_hartid :: "cap_t \<Rightarrow> u64 \<Rightarrow> cap_t" where
  "cap_time_set_hartid cap v = cap\<lparr>word0 := (word0 cap AND NOT 0xff00000000000000) OR push_bit 56 v\<rparr>"

definition cap_time_get_begin :: "cap_t \<Rightarrow> u64" where
  "cap_time_get_begin cap = drop_bit 40 (word0 cap) AND 0xffff"

definition cap_time_set_begin :: "cap_t \<Rightarrow> u64 \<Rightarrow> cap_t" where
  "cap_time_set_begin cap v = cap\<lparr>word0 := (word0 cap AND NOT 0xffff0000000000) OR push_bit 40 v\<rparr>"

definition cap_time_get_end :: "cap_t \<Rightarrow> u64" where
  "cap_time_get_end cap = drop_bit 24 (word0 cap) AND 0xffff"

definition cap_time_set_end :: "cap_t \<Rightarrow> u64 \<Rightarrow> cap_t" where
  "cap_time_set_end cap v = cap\<lparr>word0 := (word0 cap AND NOT 0xffff000000) OR push_bit 24 v\<rparr>"

definition cap_time_get_free :: "cap_t \<Rightarrow> u64" where
  "cap_time_get_free cap = drop_bit 8 (word0 cap) AND 0xffff"

definition cap_time_set_free :: "cap_t \<Rightarrow> u64 \<Rightarrow> cap_t" where
  "cap_time_set_free cap v = cap\<lparr>word0 := (word0 cap AND NOT 0xffff00) OR push_bit 8 v\<rparr>"

subsection \<open>Channels\<close>

definition cap_mk_channels :: "u64 \<Rightarrow> u64 \<Rightarrow> u64 \<Rightarrow> cap_t" where
  "cap_mk_channels b e fr =
     \<lparr>word0 = ((cap_type_num CAP_TYPE_CHANNELS OR push_bit 8 fr) OR push_bit 24 e) OR push_bit 40 b,
      word1 = 0\<rparr>"

definition cap_channels_get_begin :: "cap_t \<Rightarrow> u64" where
  "cap_channels_get_begin cap = drop_bit 40 (word0 cap) AND 0xffff"

definition cap_channels_set_begin :: "cap_t \<Rightarrow> u64 \<Rightarrow> cap_t" where
  "cap_channels_set_begin cap v = cap\<lparr>word0 := (word0 cap AND NOT 0xffff0000000000) OR push_bit 40 v\<rparr>"

definition cap_channels_get_end :: "cap_t \<Rightarrow> u64" where
  "cap_channels_get_end cap = drop_bit 24 (word0 cap) AND 0xffff"

definition cap_channels_set_end :: "cap_t \<Rightarrow> u64 \<Rightarrow> cap_t" where
  "cap_channels_set_end cap v = cap\<lparr>word0 := (word0 cap AND NOT 0xffff000000) OR push_bit 24 v\<rparr>"

definition cap_channels_get_free :: "cap_t \<Rightarrow> u64" where
  "cap_channels_get_free cap = drop_bit 8 (word0 cap) AND 0xffff"

definition cap_channels_set_free :: "cap_t \<Rightarrow> u64 \<Rightarrow> cap_t" where
  "cap_channels_set_free cap v = cap\<lparr>word0 := (word0 cap AND NOT 0xffff00) OR push_bit 8 v\<rparr>"

subsection \<open>Receiver\<close>

definition cap_mk_receiver :: "u64 \<Rightarrow> u64 \<Rightarrow> cap_t" where
  "cap_mk_receiver ch gr =
     \<lparr>word0 = (cap_type_num CAP_TYPE_RECEIVER OR push_bit 8 gr) OR push_bit 16 ch,
      word1 = 0\<rparr>"

definition cap_receiver_get_channel :: "cap_t \<Rightarrow> u64" where
  "cap_receiver_get_channel cap = drop_bit 16 (word0 cap) AND 0xffff"

definition cap_receiver_set_channel :: "cap_t \<Rightarrow> u64 \<Rightarrow> cap_t" where
  "cap_receiver_set_channel cap v = cap\<lparr>word0 := (word0 cap AND NOT 0xffff0000) OR push_bit 16 v\<rparr>"

definition cap_receiver_get_grant :: "cap_t \<Rightarrow> u64" where
  "cap_receiver_get_grant cap = drop_bit 8 (word0 cap) AND 0xff"

definition cap_receiver_set_grant :: "cap_t \<Rightarrow> u64 \<Rightarrow> cap_t" where
  "cap_receiver_set_grant cap v = cap\<lparr>word0 := (word0 cap AND NOT 0xff00) OR push_bit 8 v\<rparr>"

subsection \<open>Sender\<close>

definition cap_mk_sender :: "u64 \<Rightarrow> u64 \<Rightarrow> cap_t" where
  "cap_mk_sender ch gr =
     \<lparr>word0 = (cap_type_num CAP_TYPE_SENDER OR push_bit 8 gr) OR push_bit 16 ch,
      word1 = 0\<rparr>"

definition cap_sender_get_channel :: "cap_t \<Rightarrow> u64" where
  "cap_sender_get_channel cap = drop_bit 16 (word0 cap) AND 0xffff"

definition cap_sender_set_channel :: "cap_t \<Rightarrow> u64 \<Rightarrow> cap_t" where
  "cap_sender_set_channel cap v = cap\<lparr>word0 := (word0 cap AND NOT 0xffff0000) OR push_bit 16 v\<rparr>"

definition cap_sender_get_grant :: "cap_t \<Rightarrow> u64" where
  "cap_sender_get_grant cap = drop_bit 8 (word0 cap) AND 0xff"

definition cap_sender_set_grant :: "cap_t \<Rightarrow> u64 \<Rightarrow> cap_t" where
  "cap_sender_set_grant cap v = cap\<lparr>word0 := (word0 cap AND NOT 0xff00) OR push_bit 8 v\<rparr>"

subsection \<open>Server\<close>

definition cap_mk_server :: "u64 \<Rightarrow> u64 \<Rightarrow> cap_t" where
  "cap_mk_server ch gr =
     \<lparr>word0 = (cap_type_num CAP_TYPE_SERVER OR push_bit 8 gr) OR push_bit 16 ch,
      word1 = 0\<rparr>"

definition cap_server_get_channel :: "cap_t \<Rightarrow> u64" where
  "cap_server_get_channel cap = drop_bit 16 (word0 cap) AND 0xffff"

definition cap_server_set_channel :: "cap_t \<Rightarrow> u64 \<Rightarrow> cap_t" where
  "cap_server_set_channel cap v = cap\<lparr>word0 := (word0 cap AND NOT 0xffff0000) OR push_bit 16 v\<rparr>"

definition cap_server_get_grant :: "cap_t \<Rightarrow> u64" where
  "cap_server_get_grant cap = drop_bit 8 (word0 cap) AND 0xff"

definition cap_server_set_grant :: "cap_t \<Rightarrow> u64 \<Rightarrow> cap_t" where
  "cap_server_set_grant cap v = cap\<lparr>word0 := (word0 cap AND NOT 0xff00) OR push_bit 8 v\<rparr>"

subsection \<open>Client\<close>

definition cap_mk_client :: "u64 \<Rightarrow> u64 \<Rightarrow> cap_t" where
  "cap_mk_client ch gr =
     \<lparr>word0 = (cap_type_num CAP_TYPE_CLIENT OR push_bit 8 gr) OR push_bit 16 ch,
      word1 = 0\<rparr>"

definition cap_client_get_channel :: "cap_t \<Rightarrow> u64" where
  "cap_client_get_channel cap = drop_bit 16 (word0 cap) AND 0xffff"

definition cap_client_set_channel :: "cap_t \<Rightarrow> u64 \<Rightarrow> cap_t" where
  "cap_client_set_channel cap v = cap\<lparr>word0 := (word0 cap AND NOT 0xffff0000) OR push_bit 16 v\<rparr>"

definition cap_client_get_grant :: "cap_t \<Rightarrow> u64" where
  "cap_client_get_grant cap = drop_bit 8 (word0 cap) AND 0xff"

definition cap_client_set_grant :: "cap_t \<Rightarrow> u64 \<Rightarrow> cap_t" where
  "cap_client_set_grant cap v = cap\<lparr>word0 := (word0 cap AND NOT 0xff00) OR push_bit 8 v\<rparr>"

subsection \<open>Supervisor\<close>

definition cap_mk_supervisor :: "u64 \<Rightarrow> u64 \<Rightarrow> u64 \<Rightarrow> cap_t" where
  "cap_mk_supervisor b e fr =
     \<lparr>word0 = ((cap_type_num CAP_TYPE_SUPERVISOR OR push_bit 8 fr) OR push_bit 16 e) OR push_bit 24 b,
      word1 = 0\<rparr>"

definition cap_supervisor_get_begin :: "cap_t \<Rightarrow> u64" where
  "cap_supervisor_get_begin cap = drop_bit 24 (word0 cap) AND 0xff"

definition cap_supervisor_set_begin :: "cap_t \<Rightarrow> u64 \<Rightarrow> cap_t" where
  "cap_supervisor_set_begin cap v = cap\<lparr>word0 := (word0 cap AND NOT 0xff000000) OR push_bit 24 v\<rparr>"

definition cap_supervisor_get_end :: "cap_t \<Rightarrow> u64" where
  "cap_supervisor_get_end cap = drop_bit 16 (word0 cap) AND 0xff"

definition cap_supervisor_set_end :: "cap_t \<Rightarrow> u64 \<Rightarrow> cap_t" where
  "cap_supervisor_set_end cap v = cap\<lparr>word0 := (word0 cap AND NOT 0xff0000) OR push_bit 16 v\<rparr>"

definition cap_supervisor_get_free :: "cap_t \<Rightarrow> u64" where
  "cap_supervisor_get_free cap = drop_bit 8 (word0 cap) AND 0xff"

definition cap_supervisor_set_free :: "cap_t \<Rightarrow> u64 \<Rightarrow> cap_t" where
  "cap_supervisor_set_free cap v = cap\<lparr>word0 := (word0 cap AND NOT 0xff00) OR push_bit 8 v\<rparr>"

section \<open>The layout of the words\<close>

text \<open>
  Every getter is a \<open>field_get\<close> and every setter a \<open>field_set\<close> of one word.
\<close>

lemma type_layout [bit_layout]: "cap_get_type c = field_get 0 8 (word0 c)"
  by (simp add: cap_get_type_def field_get_def mask_eq_exp_minus_1 and.commute)

lemma memory_layout [bit_layout]:
  "cap_memory_get_begin c = field_get 24 32 (word0 c)"
  "cap_memory_set_begin c v = c\<lparr>word0 := field_set 24 32 (word0 c) v\<rparr>"
  "cap_memory_get_end c = field_get 32 32 (word1 c)"
  "cap_memory_set_end c v = c\<lparr>word1 := field_set 32 32 (word1 c) v\<rparr>"
  "cap_memory_get_rwx c = field_get 16 8 (word0 c)"
  "cap_memory_set_rwx c v = c\<lparr>word0 := field_set 16 8 (word0 c) v\<rparr>"
  "cap_memory_get_free c = field_get 0 32 (word1 c)"
  "cap_memory_set_free c v = c\<lparr>word1 := field_set 0 32 (word1 c) v\<rparr>"
  "cap_memory_get_pmp c = field_get 8 8 (word0 c)"
  "cap_memory_set_pmp c v = c\<lparr>word0 := field_set 8 8 (word0 c) v\<rparr>"
  by (simp_all add: cap_memory_get_begin_def cap_memory_set_begin_def cap_memory_get_end_def cap_memory_set_end_def cap_memory_get_rwx_def cap_memory_set_rwx_def cap_memory_get_free_def cap_memory_set_free_def cap_memory_get_pmp_def cap_memory_set_pmp_def
    field_get_def field_set_def mask_eq_exp_minus_1 push_bit_eq_mult)

lemma pmp_layout [bit_layout]:
  "cap_pmp_get_addr c = field_get 16 32 (word0 c)"
  "cap_pmp_set_addr c v = c\<lparr>word0 := field_set 16 32 (word0 c) v\<rparr>"
  "cap_pmp_get_rwx c = field_get 8 8 (word0 c)"
  "cap_pmp_set_rwx c v = c\<lparr>word0 := field_set 8 8 (word0 c) v\<rparr>"
  by (simp_all add: cap_pmp_get_addr_def cap_pmp_set_addr_def cap_pmp_get_rwx_def cap_pmp_set_rwx_def
    field_get_def field_set_def mask_eq_exp_minus_1 push_bit_eq_mult)

lemma time_layout [bit_layout]:
  "cap_time_get_hartid c = field_get 56 8 (word0 c)"
  "cap_time_set_hartid c v = c\<lparr>word0 := field_set 56 8 (word0 c) v\<rparr>"
  "cap_time_get_begin c = field_get 40 16 (word0 c)"
  "cap_time_set_begin c v = c\<lparr>word0 := field_set 40 16 (word0 c) v\<rparr>"
  "cap_time_get_end c = field_get 24 16 (word0 c)"
  "cap_time_set_end c v = c\<lparr>word0 := field_set 24 16 (word0 c) v\<rparr>"
  "cap_time_get_free c = field_get 8 16 (word0 c)"
  "cap_time_set_free c v = c\<lparr>word0 := field_set 8 16 (word0 c) v\<rparr>"
  by (simp_all add: cap_time_get_hartid_def cap_time_set_hartid_def cap_time_get_begin_def cap_time_set_begin_def cap_time_get_end_def cap_time_set_end_def cap_time_get_free_def cap_time_set_free_def
    field_get_def field_set_def mask_eq_exp_minus_1 push_bit_eq_mult)

lemma channels_layout [bit_layout]:
  "cap_channels_get_begin c = field_get 40 16 (word0 c)"
  "cap_channels_set_begin c v = c\<lparr>word0 := field_set 40 16 (word0 c) v\<rparr>"
  "cap_channels_get_end c = field_get 24 16 (word0 c)"
  "cap_channels_set_end c v = c\<lparr>word0 := field_set 24 16 (word0 c) v\<rparr>"
  "cap_channels_get_free c = field_get 8 16 (word0 c)"
  "cap_channels_set_free c v = c\<lparr>word0 := field_set 8 16 (word0 c) v\<rparr>"
  by (simp_all add: cap_channels_get_begin_def cap_channels_set_begin_def cap_channels_get_end_def cap_channels_set_end_def cap_channels_get_free_def cap_channels_set_free_def
    field_get_def field_set_def mask_eq_exp_minus_1 push_bit_eq_mult)

lemma receiver_layout [bit_layout]:
  "cap_receiver_get_channel c = field_get 16 16 (word0 c)"
  "cap_receiver_set_channel c v = c\<lparr>word0 := field_set 16 16 (word0 c) v\<rparr>"
  "cap_receiver_get_grant c = field_get 8 8 (word0 c)"
  "cap_receiver_set_grant c v = c\<lparr>word0 := field_set 8 8 (word0 c) v\<rparr>"
  by (simp_all add: cap_receiver_get_channel_def cap_receiver_set_channel_def cap_receiver_get_grant_def cap_receiver_set_grant_def
    field_get_def field_set_def mask_eq_exp_minus_1 push_bit_eq_mult)

lemma sender_layout [bit_layout]:
  "cap_sender_get_channel c = field_get 16 16 (word0 c)"
  "cap_sender_set_channel c v = c\<lparr>word0 := field_set 16 16 (word0 c) v\<rparr>"
  "cap_sender_get_grant c = field_get 8 8 (word0 c)"
  "cap_sender_set_grant c v = c\<lparr>word0 := field_set 8 8 (word0 c) v\<rparr>"
  by (simp_all add: cap_sender_get_channel_def cap_sender_set_channel_def cap_sender_get_grant_def cap_sender_set_grant_def
    field_get_def field_set_def mask_eq_exp_minus_1 push_bit_eq_mult)

lemma server_layout [bit_layout]:
  "cap_server_get_channel c = field_get 16 16 (word0 c)"
  "cap_server_set_channel c v = c\<lparr>word0 := field_set 16 16 (word0 c) v\<rparr>"
  "cap_server_get_grant c = field_get 8 8 (word0 c)"
  "cap_server_set_grant c v = c\<lparr>word0 := field_set 8 8 (word0 c) v\<rparr>"
  by (simp_all add: cap_server_get_channel_def cap_server_set_channel_def cap_server_get_grant_def cap_server_set_grant_def
    field_get_def field_set_def mask_eq_exp_minus_1 push_bit_eq_mult)

lemma client_layout [bit_layout]:
  "cap_client_get_channel c = field_get 16 16 (word0 c)"
  "cap_client_set_channel c v = c\<lparr>word0 := field_set 16 16 (word0 c) v\<rparr>"
  "cap_client_get_grant c = field_get 8 8 (word0 c)"
  "cap_client_set_grant c v = c\<lparr>word0 := field_set 8 8 (word0 c) v\<rparr>"
  by (simp_all add: cap_client_get_channel_def cap_client_set_channel_def cap_client_get_grant_def cap_client_set_grant_def
    field_get_def field_set_def mask_eq_exp_minus_1 push_bit_eq_mult)

lemma supervisor_layout [bit_layout]:
  "cap_supervisor_get_begin c = field_get 24 8 (word0 c)"
  "cap_supervisor_set_begin c v = c\<lparr>word0 := field_set 24 8 (word0 c) v\<rparr>"
  "cap_supervisor_get_end c = field_get 16 8 (word0 c)"
  "cap_supervisor_set_end c v = c\<lparr>word0 := field_set 16 8 (word0 c) v\<rparr>"
  "cap_supervisor_get_free c = field_get 8 8 (word0 c)"
  "cap_supervisor_set_free c v = c\<lparr>word0 := field_set 8 8 (word0 c) v\<rparr>"
  by (simp_all add: cap_supervisor_get_begin_def cap_supervisor_set_begin_def cap_supervisor_get_end_def cap_supervisor_set_end_def cap_supervisor_get_free_def cap_supervisor_set_free_def
    field_get_def field_set_def mask_eq_exp_minus_1 push_bit_eq_mult)

section \<open>The contract of a field\<close>

locale cap_field =
  fixes get :: "cap_t \<Rightarrow> u64" and set :: "cap_t \<Rightarrow> u64 \<Rightarrow> cap_t" and width :: nat
  assumes width_small: "width < 64"
    and get_fits: "fits width (get c)"
    and get_set: "fits width v \<Longrightarrow> get (set c v) = v"
    and set_get: "set c (get c) = c"
    and set_set: "fits width v \<Longrightarrow> set (set c v) w = set c w"
    and type_set: "fits width v \<Longrightarrow> cap_get_type (set c v) = cap_get_type c"
begin

lemma get_less: "unat (get c) < 2 ^ width"
  using get_fits [of c] by (simp add: fits_unat width_small)

lemma is_type_set: "fits width v \<Longrightarrow> cap_is_type (set c v) t \<longleftrightarrow> cap_is_type c t"
  by (simp add: cap_is_type_def type_set)

lemma set_inject: "fits width v \<Longrightarrow> fits width w \<Longrightarrow> set c v = set c w \<longleftrightarrow> v = w"
  by (metis get_set)

lemma set_id: "set c v = c \<Longrightarrow> fits width v \<Longrightarrow> v = get c"
  by (metis get_set)

end

lemmas field_laws = field_get_set_same field_get_set_other field_set_set field_set_get

interpretation memory_begin: cap_field cap_memory_get_begin cap_memory_set_begin 32
  by unfold_locales (simp_all add: bit_layout field_laws)

interpretation memory_end: cap_field cap_memory_get_end cap_memory_set_end 32
  by unfold_locales (simp_all add: bit_layout field_laws)

interpretation memory_rwx: cap_field cap_memory_get_rwx cap_memory_set_rwx 8
  by unfold_locales (simp_all add: bit_layout field_laws)

interpretation memory_free: cap_field cap_memory_get_free cap_memory_set_free 32
  by unfold_locales (simp_all add: bit_layout field_laws)

interpretation memory_pmp: cap_field cap_memory_get_pmp cap_memory_set_pmp 8
  by unfold_locales (simp_all add: bit_layout field_laws)

interpretation pmp_addr: cap_field cap_pmp_get_addr cap_pmp_set_addr 32
  by unfold_locales (simp_all add: bit_layout field_laws)

interpretation pmp_rwx: cap_field cap_pmp_get_rwx cap_pmp_set_rwx 8
  by unfold_locales (simp_all add: bit_layout field_laws)

interpretation time_hartid: cap_field cap_time_get_hartid cap_time_set_hartid 8
  by unfold_locales (simp_all add: bit_layout field_laws)

interpretation time_begin: cap_field cap_time_get_begin cap_time_set_begin 16
  by unfold_locales (simp_all add: bit_layout field_laws)

interpretation time_end: cap_field cap_time_get_end cap_time_set_end 16
  by unfold_locales (simp_all add: bit_layout field_laws)

interpretation time_free: cap_field cap_time_get_free cap_time_set_free 16
  by unfold_locales (simp_all add: bit_layout field_laws)

interpretation channels_begin: cap_field cap_channels_get_begin cap_channels_set_begin 16
  by unfold_locales (simp_all add: bit_layout field_laws)

interpretation channels_end: cap_field cap_channels_get_end cap_channels_set_end 16
  by unfold_locales (simp_all add: bit_layout field_laws)

interpretation channels_free: cap_field cap_channels_get_free cap_channels_set_free 16
  by unfold_locales (simp_all add: bit_layout field_laws)

interpretation receiver_channel: cap_field cap_receiver_get_channel cap_receiver_set_channel 16
  by unfold_locales (simp_all add: bit_layout field_laws)

interpretation receiver_grant: cap_field cap_receiver_get_grant cap_receiver_set_grant 8
  by unfold_locales (simp_all add: bit_layout field_laws)

interpretation sender_channel: cap_field cap_sender_get_channel cap_sender_set_channel 16
  by unfold_locales (simp_all add: bit_layout field_laws)

interpretation sender_grant: cap_field cap_sender_get_grant cap_sender_set_grant 8
  by unfold_locales (simp_all add: bit_layout field_laws)

interpretation server_channel: cap_field cap_server_get_channel cap_server_set_channel 16
  by unfold_locales (simp_all add: bit_layout field_laws)

interpretation server_grant: cap_field cap_server_get_grant cap_server_set_grant 8
  by unfold_locales (simp_all add: bit_layout field_laws)

interpretation client_channel: cap_field cap_client_get_channel cap_client_set_channel 16
  by unfold_locales (simp_all add: bit_layout field_laws)

interpretation client_grant: cap_field cap_client_get_grant cap_client_set_grant 8
  by unfold_locales (simp_all add: bit_layout field_laws)

interpretation supervisor_begin: cap_field cap_supervisor_get_begin cap_supervisor_set_begin 8
  by unfold_locales (simp_all add: bit_layout field_laws)

interpretation supervisor_end: cap_field cap_supervisor_get_end cap_supervisor_set_end 8
  by unfold_locales (simp_all add: bit_layout field_laws)

interpretation supervisor_free: cap_field cap_supervisor_get_free cap_supervisor_set_free 8
  by unfold_locales (simp_all add: bit_layout field_laws)

lemma memory_get_set_other [simp]:
  "fits 32 v \<Longrightarrow> cap_memory_get_end (cap_memory_set_begin c v) = cap_memory_get_end c"
  "fits 32 v \<Longrightarrow> cap_memory_get_rwx (cap_memory_set_begin c v) = cap_memory_get_rwx c"
  "fits 32 v \<Longrightarrow> cap_memory_get_free (cap_memory_set_begin c v) = cap_memory_get_free c"
  "fits 32 v \<Longrightarrow> cap_memory_get_pmp (cap_memory_set_begin c v) = cap_memory_get_pmp c"
  "fits 32 v \<Longrightarrow> cap_memory_get_begin (cap_memory_set_end c v) = cap_memory_get_begin c"
  "fits 32 v \<Longrightarrow> cap_memory_get_rwx (cap_memory_set_end c v) = cap_memory_get_rwx c"
  "fits 32 v \<Longrightarrow> cap_memory_get_free (cap_memory_set_end c v) = cap_memory_get_free c"
  "fits 32 v \<Longrightarrow> cap_memory_get_pmp (cap_memory_set_end c v) = cap_memory_get_pmp c"
  "fits 8 v \<Longrightarrow> cap_memory_get_begin (cap_memory_set_rwx c v) = cap_memory_get_begin c"
  "fits 8 v \<Longrightarrow> cap_memory_get_end (cap_memory_set_rwx c v) = cap_memory_get_end c"
  "fits 8 v \<Longrightarrow> cap_memory_get_free (cap_memory_set_rwx c v) = cap_memory_get_free c"
  "fits 8 v \<Longrightarrow> cap_memory_get_pmp (cap_memory_set_rwx c v) = cap_memory_get_pmp c"
  "fits 32 v \<Longrightarrow> cap_memory_get_begin (cap_memory_set_free c v) = cap_memory_get_begin c"
  "fits 32 v \<Longrightarrow> cap_memory_get_end (cap_memory_set_free c v) = cap_memory_get_end c"
  "fits 32 v \<Longrightarrow> cap_memory_get_rwx (cap_memory_set_free c v) = cap_memory_get_rwx c"
  "fits 32 v \<Longrightarrow> cap_memory_get_pmp (cap_memory_set_free c v) = cap_memory_get_pmp c"
  "fits 8 v \<Longrightarrow> cap_memory_get_begin (cap_memory_set_pmp c v) = cap_memory_get_begin c"
  "fits 8 v \<Longrightarrow> cap_memory_get_end (cap_memory_set_pmp c v) = cap_memory_get_end c"
  "fits 8 v \<Longrightarrow> cap_memory_get_rwx (cap_memory_set_pmp c v) = cap_memory_get_rwx c"
  "fits 8 v \<Longrightarrow> cap_memory_get_free (cap_memory_set_pmp c v) = cap_memory_get_free c"
  by (simp_all add: bit_layout field_laws)

lemma pmp_get_set_other [simp]:
  "fits 32 v \<Longrightarrow> cap_pmp_get_rwx (cap_pmp_set_addr c v) = cap_pmp_get_rwx c"
  "fits 8 v \<Longrightarrow> cap_pmp_get_addr (cap_pmp_set_rwx c v) = cap_pmp_get_addr c"
  by (simp_all add: bit_layout field_laws)

lemma time_get_set_other [simp]:
  "fits 8 v \<Longrightarrow> cap_time_get_begin (cap_time_set_hartid c v) = cap_time_get_begin c"
  "fits 8 v \<Longrightarrow> cap_time_get_end (cap_time_set_hartid c v) = cap_time_get_end c"
  "fits 8 v \<Longrightarrow> cap_time_get_free (cap_time_set_hartid c v) = cap_time_get_free c"
  "fits 16 v \<Longrightarrow> cap_time_get_hartid (cap_time_set_begin c v) = cap_time_get_hartid c"
  "fits 16 v \<Longrightarrow> cap_time_get_end (cap_time_set_begin c v) = cap_time_get_end c"
  "fits 16 v \<Longrightarrow> cap_time_get_free (cap_time_set_begin c v) = cap_time_get_free c"
  "fits 16 v \<Longrightarrow> cap_time_get_hartid (cap_time_set_end c v) = cap_time_get_hartid c"
  "fits 16 v \<Longrightarrow> cap_time_get_begin (cap_time_set_end c v) = cap_time_get_begin c"
  "fits 16 v \<Longrightarrow> cap_time_get_free (cap_time_set_end c v) = cap_time_get_free c"
  "fits 16 v \<Longrightarrow> cap_time_get_hartid (cap_time_set_free c v) = cap_time_get_hartid c"
  "fits 16 v \<Longrightarrow> cap_time_get_begin (cap_time_set_free c v) = cap_time_get_begin c"
  "fits 16 v \<Longrightarrow> cap_time_get_end (cap_time_set_free c v) = cap_time_get_end c"
  by (simp_all add: bit_layout field_laws)

lemma channels_get_set_other [simp]:
  "fits 16 v \<Longrightarrow> cap_channels_get_end (cap_channels_set_begin c v) = cap_channels_get_end c"
  "fits 16 v \<Longrightarrow> cap_channels_get_free (cap_channels_set_begin c v) = cap_channels_get_free c"
  "fits 16 v \<Longrightarrow> cap_channels_get_begin (cap_channels_set_end c v) = cap_channels_get_begin c"
  "fits 16 v \<Longrightarrow> cap_channels_get_free (cap_channels_set_end c v) = cap_channels_get_free c"
  "fits 16 v \<Longrightarrow> cap_channels_get_begin (cap_channels_set_free c v) = cap_channels_get_begin c"
  "fits 16 v \<Longrightarrow> cap_channels_get_end (cap_channels_set_free c v) = cap_channels_get_end c"
  by (simp_all add: bit_layout field_laws)

lemma receiver_get_set_other [simp]:
  "fits 16 v \<Longrightarrow> cap_receiver_get_grant (cap_receiver_set_channel c v) = cap_receiver_get_grant c"
  "fits 8 v \<Longrightarrow> cap_receiver_get_channel (cap_receiver_set_grant c v) = cap_receiver_get_channel c"
  by (simp_all add: bit_layout field_laws)

lemma sender_get_set_other [simp]:
  "fits 16 v \<Longrightarrow> cap_sender_get_grant (cap_sender_set_channel c v) = cap_sender_get_grant c"
  "fits 8 v \<Longrightarrow> cap_sender_get_channel (cap_sender_set_grant c v) = cap_sender_get_channel c"
  by (simp_all add: bit_layout field_laws)

lemma server_get_set_other [simp]:
  "fits 16 v \<Longrightarrow> cap_server_get_grant (cap_server_set_channel c v) = cap_server_get_grant c"
  "fits 8 v \<Longrightarrow> cap_server_get_channel (cap_server_set_grant c v) = cap_server_get_channel c"
  by (simp_all add: bit_layout field_laws)

lemma client_get_set_other [simp]:
  "fits 16 v \<Longrightarrow> cap_client_get_grant (cap_client_set_channel c v) = cap_client_get_grant c"
  "fits 8 v \<Longrightarrow> cap_client_get_channel (cap_client_set_grant c v) = cap_client_get_channel c"
  by (simp_all add: bit_layout field_laws)

lemma supervisor_get_set_other [simp]:
  "fits 8 v \<Longrightarrow> cap_supervisor_get_end (cap_supervisor_set_begin c v) = cap_supervisor_get_end c"
  "fits 8 v \<Longrightarrow> cap_supervisor_get_free (cap_supervisor_set_begin c v) = cap_supervisor_get_free c"
  "fits 8 v \<Longrightarrow> cap_supervisor_get_begin (cap_supervisor_set_end c v) = cap_supervisor_get_begin c"
  "fits 8 v \<Longrightarrow> cap_supervisor_get_free (cap_supervisor_set_end c v) = cap_supervisor_get_free c"
  "fits 8 v \<Longrightarrow> cap_supervisor_get_begin (cap_supervisor_set_free c v) = cap_supervisor_get_begin c"
  "fits 8 v \<Longrightarrow> cap_supervisor_get_end (cap_supervisor_set_free c v) = cap_supervisor_get_end c"
  by (simp_all add: bit_layout field_laws)

text \<open>What the constructors build, and the round trip through the getters.\<close>

lemmas mk_laws = field_get_or field_get_push_same field_get_push_other field_get_low
  field_get_low_other field_get_low_other [OF cap_type_num_fits]

lemma mk_memory_get:
  assumes "fits 32 b" and "fits 32 e" and "fits 8 rwx" and "fits 32 fr" and "fits 8 pm"
  shows
    "cap_get_type (cap_mk_memory b e rwx fr pm) = cap_type_num CAP_TYPE_MEMORY"
    and "cap_memory_get_begin (cap_mk_memory b e rwx fr pm) = b"
    and "cap_memory_get_end (cap_mk_memory b e rwx fr pm) = e"
    and "cap_memory_get_rwx (cap_mk_memory b e rwx fr pm) = rwx"
    and "cap_memory_get_free (cap_mk_memory b e rwx fr pm) = fr"
    and "cap_memory_get_pmp (cap_mk_memory b e rwx fr pm) = pm"
  using assms
  by (simp_all add: bit_layout mk_laws cap_mk_memory_def del: cap_type_num.simps)

lemma mk_pmp_get:
  assumes "fits 32 addr" and "fits 8 rwx"
  shows
    "cap_get_type (cap_mk_pmp addr rwx) = cap_type_num CAP_TYPE_PMP"
    and "cap_pmp_get_addr (cap_mk_pmp addr rwx) = addr"
    and "cap_pmp_get_rwx (cap_mk_pmp addr rwx) = rwx"
  using assms
  by (simp_all add: bit_layout mk_laws cap_mk_pmp_def del: cap_type_num.simps)

lemma mk_time_get:
  assumes "fits 8 h" and "fits 16 b" and "fits 16 e" and "fits 16 fr"
  shows
    "cap_get_type (cap_mk_time h b e fr) = cap_type_num CAP_TYPE_TIME"
    and "cap_time_get_hartid (cap_mk_time h b e fr) = h"
    and "cap_time_get_begin (cap_mk_time h b e fr) = b"
    and "cap_time_get_end (cap_mk_time h b e fr) = e"
    and "cap_time_get_free (cap_mk_time h b e fr) = fr"
  using assms
  by (simp_all add: bit_layout mk_laws cap_mk_time_def del: cap_type_num.simps)

lemma mk_channels_get:
  assumes "fits 16 b" and "fits 16 e" and "fits 16 fr"
  shows
    "cap_get_type (cap_mk_channels b e fr) = cap_type_num CAP_TYPE_CHANNELS"
    and "cap_channels_get_begin (cap_mk_channels b e fr) = b"
    and "cap_channels_get_end (cap_mk_channels b e fr) = e"
    and "cap_channels_get_free (cap_mk_channels b e fr) = fr"
  using assms
  by (simp_all add: bit_layout mk_laws cap_mk_channels_def del: cap_type_num.simps)

lemma mk_receiver_get:
  assumes "fits 16 ch" and "fits 8 gr"
  shows
    "cap_get_type (cap_mk_receiver ch gr) = cap_type_num CAP_TYPE_RECEIVER"
    and "cap_receiver_get_channel (cap_mk_receiver ch gr) = ch"
    and "cap_receiver_get_grant (cap_mk_receiver ch gr) = gr"
  using assms
  by (simp_all add: bit_layout mk_laws cap_mk_receiver_def del: cap_type_num.simps)

lemma mk_sender_get:
  assumes "fits 16 ch" and "fits 8 gr"
  shows
    "cap_get_type (cap_mk_sender ch gr) = cap_type_num CAP_TYPE_SENDER"
    and "cap_sender_get_channel (cap_mk_sender ch gr) = ch"
    and "cap_sender_get_grant (cap_mk_sender ch gr) = gr"
  using assms
  by (simp_all add: bit_layout mk_laws cap_mk_sender_def del: cap_type_num.simps)

lemma mk_server_get:
  assumes "fits 16 ch" and "fits 8 gr"
  shows
    "cap_get_type (cap_mk_server ch gr) = cap_type_num CAP_TYPE_SERVER"
    and "cap_server_get_channel (cap_mk_server ch gr) = ch"
    and "cap_server_get_grant (cap_mk_server ch gr) = gr"
  using assms
  by (simp_all add: bit_layout mk_laws cap_mk_server_def del: cap_type_num.simps)

lemma mk_client_get:
  assumes "fits 16 ch" and "fits 8 gr"
  shows
    "cap_get_type (cap_mk_client ch gr) = cap_type_num CAP_TYPE_CLIENT"
    and "cap_client_get_channel (cap_mk_client ch gr) = ch"
    and "cap_client_get_grant (cap_mk_client ch gr) = gr"
  using assms
  by (simp_all add: bit_layout mk_laws cap_mk_client_def del: cap_type_num.simps)

lemma mk_supervisor_get:
  assumes "fits 8 b" and "fits 8 e" and "fits 8 fr"
  shows
    "cap_get_type (cap_mk_supervisor b e fr) = cap_type_num CAP_TYPE_SUPERVISOR"
    and "cap_supervisor_get_begin (cap_mk_supervisor b e fr) = b"
    and "cap_supervisor_get_end (cap_mk_supervisor b e fr) = e"
    and "cap_supervisor_get_free (cap_mk_supervisor b e fr) = fr"
  using assms
  by (simp_all add: bit_layout mk_laws cap_mk_supervisor_def del: cap_type_num.simps)

end
