(* ===== verification/CapDerive.thy ===== *)
theory CapDerive
  imports CapFields
begin

text \<open>
  How capabilities are derived from one another: the generated predicates
  \<open>cap_is_revokable\<close>, \<open>cap_is_child\<close> and \<open>cap_can_derive\<close> of \<open>s3k_cap.h\<close>, and the updates
  \<open>derive_update_cap\<close> and \<open>revoke_update_cap\<close> of \<open>syscall.c\<close>. The locale \<open>range_cap\<close> is the
  discipline the four range-shaped kinds (memory, time, channels, supervisor) share: a
  child is carved from the front of the parent's free range.
\<close>

section \<open>The predicates of s3k_cap.h\<close>

definition cap_is_revokable :: "cap_t \<Rightarrow> bool" where
  "cap_is_revokable cap \<longleftrightarrow>
     cap_is_type cap CAP_TYPE_MEMORY \<and> cap_is_type cap CAP_TYPE_TIME \<and>
     cap_is_type cap CAP_TYPE_CHANNELS \<and> cap_is_type cap CAP_TYPE_RECEIVER \<and>
     cap_is_type cap CAP_TYPE_SENDER \<and> cap_is_type cap CAP_TYPE_SERVER \<and>
     cap_is_type cap CAP_TYPE_CLIENT \<and> cap_is_type cap CAP_TYPE_SUPERVISOR"

definition cap_is_child :: "cap_t \<Rightarrow> cap_t \<Rightarrow> bool" where
  "cap_is_child p c \<longleftrightarrow>
    (if cap_is_type p CAP_TYPE_MEMORY \<and> cap_is_type c CAP_TYPE_MEMORY then
       cap_memory_get_begin p \<le> cap_memory_get_begin c \<and>
       cap_memory_get_end c \<le> cap_memory_get_free p \<and>
       (cap_memory_get_rwx c AND cap_memory_get_rwx p) = cap_memory_get_rwx c
     else if cap_is_type p CAP_TYPE_MEMORY \<and> cap_is_type c CAP_TYPE_PMP then
       cap_memory_get_free p \<le> pmp_napot_begin (cap_pmp_get_addr c) \<and>
       pmp_napot_end (cap_pmp_get_addr c) \<le> cap_memory_get_end p \<and>
       cap_memory_get_pmp p = 1 \<and>
       (cap_pmp_get_rwx c AND cap_memory_get_rwx p) = cap_pmp_get_rwx c
     else if cap_is_type p CAP_TYPE_TIME \<and> cap_is_type c CAP_TYPE_TIME then
       cap_time_get_begin p \<le> cap_time_get_begin c \<and>
       cap_time_get_end c \<le> cap_time_get_free p \<and>
       cap_time_get_hartid p = cap_time_get_hartid c
     else if cap_is_type p CAP_TYPE_CHANNELS \<and> cap_is_type c CAP_TYPE_CHANNELS then
       cap_channels_get_begin p \<le> cap_channels_get_begin c \<and>
       cap_channels_get_end c \<le> cap_channels_get_free p
     else if cap_is_type p CAP_TYPE_CHANNELS \<and> cap_is_type c CAP_TYPE_RECEIVER then
       cap_channels_get_begin p \<le> cap_receiver_get_channel c \<and>
       cap_receiver_get_channel c < cap_channels_get_free p
     else if cap_is_type p CAP_TYPE_CHANNELS \<and> cap_is_type c CAP_TYPE_SENDER then
       cap_channels_get_begin p \<le> cap_sender_get_channel c \<and>
       cap_sender_get_channel c < cap_channels_get_free p
     else if cap_is_type p CAP_TYPE_CHANNELS \<and> cap_is_type c CAP_TYPE_SERVER then
       cap_channels_get_begin p \<le> cap_server_get_channel c \<and>
       cap_server_get_channel c < cap_channels_get_free p
     else if cap_is_type p CAP_TYPE_CHANNELS \<and> cap_is_type c CAP_TYPE_CLIENT then
       cap_channels_get_begin p \<le> cap_client_get_channel c \<and>
       cap_client_get_channel c < cap_channels_get_free p
     else if cap_is_type p CAP_TYPE_RECEIVER \<and> cap_is_type c CAP_TYPE_SENDER then
       cap_receiver_get_channel p = cap_sender_get_channel c
     else if cap_is_type p CAP_TYPE_SERVER \<and> cap_is_type c CAP_TYPE_CLIENT then
       cap_server_get_channel p = cap_client_get_channel c
     else if cap_is_type p CAP_TYPE_SUPERVISOR \<and> cap_is_type c CAP_TYPE_SUPERVISOR then
       cap_supervisor_get_begin p \<le> cap_supervisor_get_begin c \<and>
       cap_supervisor_get_end c \<le> cap_supervisor_get_free p
     else False)"

definition cap_can_derive :: "cap_t \<Rightarrow> cap_t \<Rightarrow> bool" where
  "cap_can_derive p c \<longleftrightarrow>
    (if cap_is_type p CAP_TYPE_MEMORY \<and> cap_is_type c CAP_TYPE_MEMORY then
       cap_memory_get_pmp p = 0 \<and> cap_memory_get_pmp c = 0 \<and>
       cap_memory_get_free p = cap_memory_get_begin c \<and>
       cap_memory_get_end c \<le> cap_memory_get_end p \<and>
       (cap_memory_get_rwx c AND cap_memory_get_rwx p) = cap_memory_get_rwx c \<and>
       cap_memory_get_free c = cap_memory_get_begin c \<and>
       cap_memory_get_begin c < cap_memory_get_end c
     else if cap_is_type p CAP_TYPE_MEMORY \<and> cap_is_type c CAP_TYPE_PMP then
       cap_memory_get_free p \<le> pmp_napot_begin (cap_pmp_get_addr c) \<and>
       pmp_napot_end (cap_pmp_get_addr c) \<le> cap_memory_get_end p \<and>
       (cap_pmp_get_rwx c AND cap_memory_get_rwx p) = cap_pmp_get_rwx c
     else if cap_is_type p CAP_TYPE_TIME \<and> cap_is_type c CAP_TYPE_TIME then
       cap_time_get_free p = cap_time_get_begin c \<and>
       cap_time_get_end c \<le> cap_time_get_end p \<and>
       cap_time_get_hartid p = cap_time_get_hartid c \<and>
       cap_time_get_free c = cap_time_get_begin c \<and>
       cap_time_get_begin c < cap_time_get_end c
     else if cap_is_type p CAP_TYPE_CHANNELS \<and> cap_is_type c CAP_TYPE_CHANNELS then
       cap_channels_get_free p = cap_channels_get_begin c \<and>
       cap_channels_get_end c \<le> cap_channels_get_end p \<and>
       cap_channels_get_free c = cap_channels_get_begin c \<and>
       cap_channels_get_begin c < cap_channels_get_end c
     else if cap_is_type p CAP_TYPE_CHANNELS \<and> cap_is_type c CAP_TYPE_RECEIVER then
       cap_channels_get_free p = cap_receiver_get_channel c \<and>
       cap_receiver_get_channel c < cap_channels_get_end p \<and>
       (cap_receiver_get_grant c = 0 \<or> cap_receiver_get_grant c = 1)
     else if cap_is_type p CAP_TYPE_RECEIVER \<and> cap_is_type c CAP_TYPE_SENDER then
       cap_receiver_get_channel p = cap_sender_get_channel c \<and>
       cap_receiver_get_grant p = cap_sender_get_grant c
     else if cap_is_type p CAP_TYPE_CHANNELS \<and> cap_is_type c CAP_TYPE_SERVER then
       cap_channels_get_free p = cap_server_get_channel c \<and>
       cap_server_get_channel c < cap_channels_get_end p \<and>
       (cap_server_get_grant c = 0 \<or> cap_server_get_grant c = 1)
     else if cap_is_type p CAP_TYPE_SERVER \<and> cap_is_type c CAP_TYPE_CLIENT then
       cap_server_get_channel p = cap_client_get_channel c \<and>
       cap_server_get_grant p = cap_client_get_grant c
     else if cap_is_type p CAP_TYPE_SUPERVISOR \<and> cap_is_type c CAP_TYPE_SUPERVISOR then
       cap_supervisor_get_free p \<le> cap_supervisor_get_begin c \<and>
       cap_supervisor_get_end c \<le> cap_supervisor_get_end p \<and>
       cap_supervisor_get_free c = cap_supervisor_get_begin c \<and>
       cap_supervisor_get_begin c < cap_supervisor_get_end c
     else False)"

section \<open>The updates of syscall.c\<close>

text \<open>
  The kernel is built with the header generated by \<open>scripts/cap_gen.py\<close>, where
  \<open>make_getter\<close> puts a \<open>kassert\<close> on the type of the capability in front of every read and
  \<open>make_setter\<close> one on the type and one on the width of the value in front of every write
  (\<open>header_is_generated\<close> derives both from the generator). The two updates therefore go
  through the accessors with their assertions.
\<close>

definition asserted_get :: "cap_type \<Rightarrow> (cap_t \<Rightarrow> u64) \<Rightarrow> cap_t \<Rightarrow> stop + u64" where
  "asserted_get ty get cap = ebind (kassert (cap_is_type cap ty)) (\<lambda>_. Inr (get cap))"

definition asserted_set ::
    "cap_type \<Rightarrow> nat \<Rightarrow> (cap_t \<Rightarrow> u64 \<Rightarrow> cap_t) \<Rightarrow> cap_t \<Rightarrow> u64 \<Rightarrow> stop + cap_t" where
  "asserted_set ty width put cap v =
     ebind (kassert (cap_is_type cap ty)) (\<lambda>_. ebind (kassert (fits width v)) (\<lambda>_. Inr (put cap v)))"

definition revoke_update_cap :: "cap_t \<Rightarrow> stop + cap_t" where
  "revoke_update_cap cap =
    (if cap_is_type cap CAP_TYPE_MEMORY then
       ebind (asserted_get CAP_TYPE_MEMORY cap_memory_get_begin cap) (\<lambda>b.
       ebind (asserted_set CAP_TYPE_MEMORY 32 cap_memory_set_free cap b) (\<lambda>cap.
       asserted_set CAP_TYPE_MEMORY 8 cap_memory_set_pmp cap 0))
     else if cap_is_type cap CAP_TYPE_TIME then
       ebind (asserted_get CAP_TYPE_TIME cap_time_get_begin cap)
         (asserted_set CAP_TYPE_TIME 16 cap_time_set_free cap)
     else if cap_is_type cap CAP_TYPE_CHANNELS then
       ebind (asserted_get CAP_TYPE_TIME cap_time_get_begin cap)
         (asserted_set CAP_TYPE_TIME 16 cap_time_set_free cap)
     else if cap_is_type cap CAP_TYPE_SUPERVISOR then
       ebind (asserted_get CAP_TYPE_SUPERVISOR cap_supervisor_get_begin cap)
         (asserted_set CAP_TYPE_SUPERVISOR 8 cap_supervisor_set_free cap)
     else Inr cap)"

definition derive_update_cap :: "cap_t \<Rightarrow> cap_t \<Rightarrow> stop + cap_t" where
  "derive_update_cap src_cap new_cap =
    (if cap_is_type src_cap CAP_TYPE_MEMORY then
       if cap_is_type new_cap CAP_TYPE_MEMORY then
         ebind (asserted_get CAP_TYPE_MEMORY cap_memory_get_end new_cap)
           (asserted_set CAP_TYPE_MEMORY 32 cap_memory_set_free src_cap)
       else asserted_set CAP_TYPE_MEMORY 8 cap_memory_set_pmp src_cap 1
     else if cap_is_type src_cap CAP_TYPE_TIME then
       ebind (asserted_get CAP_TYPE_TIME cap_time_get_end new_cap)
         (asserted_set CAP_TYPE_TIME 16 cap_time_set_free src_cap)
     else if cap_is_type src_cap CAP_TYPE_CHANNELS then
       if cap_is_type new_cap CAP_TYPE_CHANNELS then
         ebind (asserted_get CAP_TYPE_CHANNELS cap_channels_get_end new_cap)
           (asserted_set CAP_TYPE_CHANNELS 16 cap_channels_set_free src_cap)
       else if cap_is_type new_cap CAP_TYPE_RECEIVER then
         ebind (asserted_get CAP_TYPE_RECEIVER cap_receiver_get_channel new_cap) (\<lambda>channel.
         asserted_set CAP_TYPE_CHANNELS 16 cap_channels_set_free src_cap (channel + 1))
       else if cap_is_type new_cap CAP_TYPE_SERVER then
         ebind (asserted_get CAP_TYPE_SERVER cap_server_get_channel new_cap) (\<lambda>channel.
         asserted_set CAP_TYPE_CHANNELS 16 cap_channels_set_free src_cap (channel + 1))
       else Inl Assert_failed
     else if cap_is_type src_cap CAP_TYPE_RECEIVER then Inr src_cap
     else if cap_is_type src_cap CAP_TYPE_SERVER then Inr src_cap
     else if cap_is_type src_cap CAP_TYPE_SUPERVISOR then
       ebind (asserted_get CAP_TYPE_SUPERVISOR cap_supervisor_get_end new_cap)
         (asserted_set CAP_TYPE_SUPERVISOR 8 cap_supervisor_set_free src_cap)
     else Inl Assert_failed)"

lemma asserted_simps [simp]:
  "cap_is_type cap ty \<Longrightarrow> asserted_get ty get cap = Inr (get cap)"
  "cap_is_type cap ty \<Longrightarrow> fits width v \<Longrightarrow> asserted_set ty width put cap v = Inr (put cap v)"
  "\<not> cap_is_type cap ty \<Longrightarrow> asserted_get ty get cap = Inl Assert_failed"
  by (simp_all add: asserted_get_def asserted_set_def)

text \<open>A channel below the end of a range has a successor that fits the field.\<close>

lemma channel_succ:
  assumes "ch < e" "fits 16 e"
  shows "fits 16 (ch + 1)" and "unat (ch + 1) = Suc (unat ch)"
proof -
  from assms have lt: "unat ch < 2 ^ 16 - 1"
    by (auto simp: fits_unat word_less_nat_alt)
  then show eq: "unat (ch + 1) = Suc (unat ch)"
    by (simp add: unat_word_ariths)
  from lt show "fits 16 (ch + 1)" by (simp add: fits_unat eq)
qed

text \<open>
  Which pairs of kinds a derivation relates, with the facts the predicate then gives: the
  elimination rule every proof about a derivation starts with.
\<close>

lemma cap_can_derive_cases:
  assumes "cap_can_derive p c"
  obtains
    (memory) "cap_is_type p CAP_TYPE_MEMORY" "cap_is_type c CAP_TYPE_MEMORY"
  | (pmp) "cap_is_type p CAP_TYPE_MEMORY" "cap_is_type c CAP_TYPE_PMP"
  | (time) "cap_is_type p CAP_TYPE_TIME" "cap_is_type c CAP_TYPE_TIME"
  | (channels) "cap_is_type p CAP_TYPE_CHANNELS" "cap_is_type c CAP_TYPE_CHANNELS"
  | (receiver) "cap_is_type p CAP_TYPE_CHANNELS" "cap_is_type c CAP_TYPE_RECEIVER"
  | (sender) "cap_is_type p CAP_TYPE_RECEIVER" "cap_is_type c CAP_TYPE_SENDER"
  | (server) "cap_is_type p CAP_TYPE_CHANNELS" "cap_is_type c CAP_TYPE_SERVER"
  | (client) "cap_is_type p CAP_TYPE_SERVER" "cap_is_type c CAP_TYPE_CLIENT"
  | (supervisor) "cap_is_type p CAP_TYPE_SUPERVISOR" "cap_is_type c CAP_TYPE_SUPERVISOR"
  using assms unfolding cap_can_derive_def by (auto split: if_splits)


lemmas type_eqs = cap_is_type_unique

text \<open>The predicates, specialised to one pair of kinds.\<close>

lemma can_derive_simps:
  "cap_is_type p CAP_TYPE_MEMORY \<Longrightarrow> cap_is_type c CAP_TYPE_MEMORY \<Longrightarrow> cap_can_derive p c \<longleftrightarrow>
     cap_memory_get_pmp p = 0 \<and> cap_memory_get_pmp c = 0 \<and>
     cap_memory_get_free p = cap_memory_get_begin c \<and>
     cap_memory_get_end c \<le> cap_memory_get_end p \<and>
     (cap_memory_get_rwx c AND cap_memory_get_rwx p) = cap_memory_get_rwx c \<and>
     cap_memory_get_free c = cap_memory_get_begin c \<and>
     cap_memory_get_begin c < cap_memory_get_end c"
  "cap_is_type p CAP_TYPE_MEMORY \<Longrightarrow> cap_is_type c CAP_TYPE_PMP \<Longrightarrow> cap_can_derive p c \<longleftrightarrow>
     cap_memory_get_free p \<le> pmp_napot_begin (cap_pmp_get_addr c) \<and>
     pmp_napot_end (cap_pmp_get_addr c) \<le> cap_memory_get_end p \<and>
     (cap_pmp_get_rwx c AND cap_memory_get_rwx p) = cap_pmp_get_rwx c"
  "cap_is_type p CAP_TYPE_TIME \<Longrightarrow> cap_is_type c CAP_TYPE_TIME \<Longrightarrow> cap_can_derive p c \<longleftrightarrow>
     cap_time_get_free p = cap_time_get_begin c \<and>
     cap_time_get_end c \<le> cap_time_get_end p \<and>
     cap_time_get_hartid p = cap_time_get_hartid c \<and>
     cap_time_get_free c = cap_time_get_begin c \<and>
     cap_time_get_begin c < cap_time_get_end c"
  "cap_is_type p CAP_TYPE_CHANNELS \<Longrightarrow> cap_is_type c CAP_TYPE_CHANNELS \<Longrightarrow> cap_can_derive p c \<longleftrightarrow>
     cap_channels_get_free p = cap_channels_get_begin c \<and>
     cap_channels_get_end c \<le> cap_channels_get_end p \<and>
     cap_channels_get_free c = cap_channels_get_begin c \<and>
     cap_channels_get_begin c < cap_channels_get_end c"
  "cap_is_type p CAP_TYPE_CHANNELS \<Longrightarrow> cap_is_type c CAP_TYPE_RECEIVER \<Longrightarrow> cap_can_derive p c \<longleftrightarrow>
     cap_channels_get_free p = cap_receiver_get_channel c \<and>
     cap_receiver_get_channel c < cap_channels_get_end p \<and>
     (cap_receiver_get_grant c = 0 \<or> cap_receiver_get_grant c = 1)"
  "cap_is_type p CAP_TYPE_RECEIVER \<Longrightarrow> cap_is_type c CAP_TYPE_SENDER \<Longrightarrow> cap_can_derive p c \<longleftrightarrow>
     cap_receiver_get_channel p = cap_sender_get_channel c \<and>
     cap_receiver_get_grant p = cap_sender_get_grant c"
  "cap_is_type p CAP_TYPE_CHANNELS \<Longrightarrow> cap_is_type c CAP_TYPE_SERVER \<Longrightarrow> cap_can_derive p c \<longleftrightarrow>
     cap_channels_get_free p = cap_server_get_channel c \<and>
     cap_server_get_channel c < cap_channels_get_end p \<and>
     (cap_server_get_grant c = 0 \<or> cap_server_get_grant c = 1)"
  "cap_is_type p CAP_TYPE_SERVER \<Longrightarrow> cap_is_type c CAP_TYPE_CLIENT \<Longrightarrow> cap_can_derive p c \<longleftrightarrow>
     cap_server_get_channel p = cap_client_get_channel c \<and>
     cap_server_get_grant p = cap_client_get_grant c"
  "cap_is_type p CAP_TYPE_SUPERVISOR \<Longrightarrow> cap_is_type c CAP_TYPE_SUPERVISOR \<Longrightarrow>
     cap_can_derive p c \<longleftrightarrow>
     cap_supervisor_get_free p \<le> cap_supervisor_get_begin c \<and>
     cap_supervisor_get_end c \<le> cap_supervisor_get_end p \<and>
     cap_supervisor_get_free c = cap_supervisor_get_begin c \<and>
     cap_supervisor_get_begin c < cap_supervisor_get_end c"
  by (simp_all add: cap_can_derive_def type_eqs)

lemma is_child_simps:
  "cap_is_type p CAP_TYPE_MEMORY \<Longrightarrow> cap_is_type c CAP_TYPE_MEMORY \<Longrightarrow> cap_is_child p c \<longleftrightarrow>
     cap_memory_get_begin p \<le> cap_memory_get_begin c \<and>
     cap_memory_get_end c \<le> cap_memory_get_free p \<and>
     (cap_memory_get_rwx c AND cap_memory_get_rwx p) = cap_memory_get_rwx c"
  "cap_is_type p CAP_TYPE_MEMORY \<Longrightarrow> cap_is_type c CAP_TYPE_PMP \<Longrightarrow> cap_is_child p c \<longleftrightarrow>
     cap_memory_get_free p \<le> pmp_napot_begin (cap_pmp_get_addr c) \<and>
     pmp_napot_end (cap_pmp_get_addr c) \<le> cap_memory_get_end p \<and>
     cap_memory_get_pmp p = 1 \<and>
     (cap_pmp_get_rwx c AND cap_memory_get_rwx p) = cap_pmp_get_rwx c"
  "cap_is_type p CAP_TYPE_TIME \<Longrightarrow> cap_is_type c CAP_TYPE_TIME \<Longrightarrow> cap_is_child p c \<longleftrightarrow>
     cap_time_get_begin p \<le> cap_time_get_begin c \<and>
     cap_time_get_end c \<le> cap_time_get_free p \<and>
     cap_time_get_hartid p = cap_time_get_hartid c"
  "cap_is_type p CAP_TYPE_CHANNELS \<Longrightarrow> cap_is_type c CAP_TYPE_CHANNELS \<Longrightarrow> cap_is_child p c \<longleftrightarrow>
     cap_channels_get_begin p \<le> cap_channels_get_begin c \<and>
     cap_channels_get_end c \<le> cap_channels_get_free p"
  "cap_is_type p CAP_TYPE_CHANNELS \<Longrightarrow> cap_is_type c CAP_TYPE_RECEIVER \<Longrightarrow> cap_is_child p c \<longleftrightarrow>
     cap_channels_get_begin p \<le> cap_receiver_get_channel c \<and>
     cap_receiver_get_channel c < cap_channels_get_free p"
  "cap_is_type p CAP_TYPE_RECEIVER \<Longrightarrow> cap_is_type c CAP_TYPE_SENDER \<Longrightarrow> cap_is_child p c \<longleftrightarrow>
     cap_receiver_get_channel p = cap_sender_get_channel c"
  "cap_is_type p CAP_TYPE_CHANNELS \<Longrightarrow> cap_is_type c CAP_TYPE_SERVER \<Longrightarrow> cap_is_child p c \<longleftrightarrow>
     cap_channels_get_begin p \<le> cap_server_get_channel c \<and>
     cap_server_get_channel c < cap_channels_get_free p"
  "cap_is_type p CAP_TYPE_SERVER \<Longrightarrow> cap_is_type c CAP_TYPE_CLIENT \<Longrightarrow> cap_is_child p c \<longleftrightarrow>
     cap_server_get_channel p = cap_client_get_channel c"
  "cap_is_type p CAP_TYPE_SUPERVISOR \<Longrightarrow> cap_is_type c CAP_TYPE_SUPERVISOR \<Longrightarrow>
     cap_is_child p c \<longleftrightarrow>
     cap_supervisor_get_begin p \<le> cap_supervisor_get_begin c \<and>
     cap_supervisor_get_end c \<le> cap_supervisor_get_free p"
  by (simp_all add: cap_is_child_def type_eqs)

lemma derive_update_simps:
  "cap_is_type p CAP_TYPE_MEMORY \<Longrightarrow> cap_is_type c CAP_TYPE_MEMORY \<Longrightarrow>
     derive_update_cap p c = Inr (cap_memory_set_free p (cap_memory_get_end c))"
  "cap_is_type p CAP_TYPE_MEMORY \<Longrightarrow> cap_is_type c CAP_TYPE_PMP \<Longrightarrow>
     derive_update_cap p c = Inr (cap_memory_set_pmp p 1)"
  "cap_is_type p CAP_TYPE_TIME \<Longrightarrow> cap_is_type c CAP_TYPE_TIME \<Longrightarrow>
     derive_update_cap p c = Inr (cap_time_set_free p (cap_time_get_end c))"
  "cap_is_type p CAP_TYPE_CHANNELS \<Longrightarrow> cap_is_type c CAP_TYPE_CHANNELS \<Longrightarrow>
     derive_update_cap p c = Inr (cap_channels_set_free p (cap_channels_get_end c))"
  "cap_is_type p CAP_TYPE_CHANNELS \<Longrightarrow> cap_is_type c CAP_TYPE_RECEIVER \<Longrightarrow>
     cap_receiver_get_channel c < cap_channels_get_end p \<Longrightarrow>
     derive_update_cap p c = Inr (cap_channels_set_free p (cap_receiver_get_channel c + 1))"
  "cap_is_type p CAP_TYPE_CHANNELS \<Longrightarrow> cap_is_type c CAP_TYPE_SERVER \<Longrightarrow>
     cap_server_get_channel c < cap_channels_get_end p \<Longrightarrow>
     derive_update_cap p c = Inr (cap_channels_set_free p (cap_server_get_channel c + 1))"
  "cap_is_type p CAP_TYPE_RECEIVER \<Longrightarrow> derive_update_cap p c = Inr p"
  "cap_is_type p CAP_TYPE_SERVER \<Longrightarrow> derive_update_cap p c = Inr p"
  "cap_is_type p CAP_TYPE_SUPERVISOR \<Longrightarrow> cap_is_type c CAP_TYPE_SUPERVISOR \<Longrightarrow>
     derive_update_cap p c = Inr (cap_supervisor_set_free p (cap_supervisor_get_end c))"
  by (simp_all add: derive_update_cap_def type_eqs memory_end.get_fits time_end.get_fits channels_end.get_fits
      supervisor_end.get_fits channel_succ(1) [OF _ channels_end.get_fits])

section \<open>Range-shaped capabilities\<close>

text \<open>
  \<open>gb\<close>, \<open>ge\<close> and \<open>gf\<close> read the begin, end and free fields, \<open>sf\<close> writes the free field and
  \<open>side\<close> is what \<open>cap_is_child\<close> asks beyond the ranges.
\<close>

locale range_cap =
  fixes ty :: cap_type and gb ge gf :: "cap_t \<Rightarrow> u64" and sf :: "cap_t \<Rightarrow> u64 \<Rightarrow> cap_t"
    and width :: nat and side :: "cap_t \<Rightarrow> cap_t \<Rightarrow> bool"
  assumes end_fits: "fits width (ge c)"
    and free_set: "fits width v \<Longrightarrow> gf (sf c v) = v"
    and begin_set: "fits width v \<Longrightarrow> gb (sf c v) = gb c"
    and end_set: "fits width v \<Longrightarrow> ge (sf c v) = ge c"
    and type_set: "fits width v \<Longrightarrow> cap_is_type (sf c v) t \<longleftrightarrow> cap_is_type c t"
    and side_set: "fits width v \<Longrightarrow> side (sf p v) c = side p c"
    and derive: "cap_is_type p ty \<Longrightarrow> cap_is_type c ty \<Longrightarrow> cap_can_derive p c \<Longrightarrow>
      gf p \<le> gb c \<and> gb c < ge c \<and> gf c = gb c \<and> ge c \<le> ge p \<and> side p c"
    and update: "cap_is_type p ty \<Longrightarrow> cap_is_type c ty \<Longrightarrow>
      derive_update_cap p c = Inr (sf p (ge c))"
    and child: "cap_is_type p ty \<Longrightarrow> cap_is_type c ty \<Longrightarrow>
      cap_is_child p c \<longleftrightarrow> gb p \<le> gb c \<and> ge c \<le> gf p \<and> side p c"
begin

lemma derived_parent:
  assumes "cap_is_type p ty" "cap_is_type c ty" "derive_update_cap p c = Inr p'"
  shows "cap_is_type p' ty" "gb p' = gb p" "ge p' = ge p" "gf p' = ge c"
  using assms update [OF assms(1,2)] end_fits [of c]
  by (auto simp: type_set begin_set end_set free_set)

lemma derived_child:
  assumes "cap_is_type p ty" "cap_is_type c ty" "cap_can_derive p c"
    and "derive_update_cap p c = Inr p'" and "gb p \<le> gf p"
  shows "cap_is_child p' c"
proof -
  have p': "p' = sf p (ge c)"
    using update [OF assms(1,2)] assms(4) by simp
  have "side p' c"
    using derive [OF assms(1-3)] by (simp add: p' side_set end_fits)
  then show ?thesis
    using derive [OF assms(1-3)] derived_parent [OF assms(1,2,4)] assms(2,5)
    by (auto simp: child)
qed

lemma older_child:
  assumes "cap_is_type p ty" "cap_is_type c ty" "cap_can_derive p c"
    and "derive_update_cap p c = Inr p'" and "cap_is_type d ty" "cap_is_child p d"
  shows "cap_is_child p' d"
proof -
  have p': "p' = sf p (ge c)"
    using update [OF assms(1,2)] assms(4) by simp
  have "gf p \<le> ge c" using derive [OF assms(1-3)] by auto
  moreover have "side p' d"
    using assms(1,5,6) by (simp add: child p' side_set end_fits)
  ultimately show ?thesis
    using derived_parent [OF assms(1,2,4)] assms(1,5,6) by (auto simp: child)
qed

lemma derived_split:
  assumes "cap_is_type p ty" "cap_is_type c ty" "cap_can_derive p c"
    and "derive_update_cap p c = Inr p'"
  shows "{unat (gf c)..<unat (ge c)} \<union> {unat (gf p')..<unat (ge p')}
           \<subseteq> {unat (gf p)..<unat (ge p)}"
    and "{unat (gf c)..<unat (ge c)} \<inter> {unat (gf p')..<unat (ge p')} = {}"
  using derive [OF assms(1-3)] derived_parent [OF assms(1,2,4)]
  by (auto simp: word_le_nat_alt word_less_nat_alt)

lemma derived_order:
  assumes "cap_is_type p ty" "cap_is_type c ty" "cap_can_derive p c"
    and "derive_update_cap p c = Inr p'" and "gb p \<le> gf p" and "gf p \<le> ge p"
  shows "gb p' \<le> gf p' \<and> gf p' \<le> ge p' \<and> gb c \<le> gf c \<and> gf c \<le> ge c"
  using derive [OF assms(1-3)] derived_parent [OF assms(1,2,4)] assms(5,6)
  by auto

lemma siblings_disjoint:
  assumes "cap_is_type p ty" "cap_is_type c ty" "cap_can_derive p c"
    and "derive_update_cap p c = Inr p'" and "cap_is_type d ty" "cap_can_derive p' d"
  shows "ge c \<le> gb d"
  using derived_parent [OF assms(1,2,4)] derive [OF _ assms(5,6)] by simp

end

interpretation rmem: range_cap CAP_TYPE_MEMORY cap_memory_get_begin cap_memory_get_end
  cap_memory_get_free cap_memory_set_free 32
  "\<lambda>p c. (cap_memory_get_rwx c AND cap_memory_get_rwx p) = cap_memory_get_rwx c"
  by unfold_locales
    (auto simp: memory_end.get_fits memory_free.get_set memory_free.is_type_set
      can_derive_simps derive_update_simps is_child_simps)

interpretation rtime: range_cap CAP_TYPE_TIME cap_time_get_begin cap_time_get_end
  cap_time_get_free cap_time_set_free 16
  "\<lambda>p c. cap_time_get_hartid p = cap_time_get_hartid c"
  by unfold_locales
    (auto simp: time_end.get_fits time_free.get_set time_free.is_type_set
      can_derive_simps derive_update_simps is_child_simps)

interpretation rchan: range_cap CAP_TYPE_CHANNELS cap_channels_get_begin cap_channels_get_end
  cap_channels_get_free cap_channels_set_free 16 "\<lambda>p c. True"
  by unfold_locales
    (auto simp: channels_end.get_fits channels_free.get_set channels_free.is_type_set
      can_derive_simps derive_update_simps is_child_simps)

interpretation rsup: range_cap CAP_TYPE_SUPERVISOR cap_supervisor_get_begin
  cap_supervisor_get_end cap_supervisor_get_free cap_supervisor_set_free 8 "\<lambda>p c. True"
  by unfold_locales
    (auto simp: supervisor_end.get_fits supervisor_free.get_set supervisor_free.is_type_set
      can_derive_simps derive_update_simps is_child_simps)

end
