(* ===== verification/CapAuthority.thy ===== *)
theory CapAuthority
  imports CapDerive
begin

text \<open>
  What capabilities mean. \<open>cap_ok\<close> is the well-formedness every capability in a table keeps:
  its fields stay inside the configured system, with the bounds \<open>gen/cap.yml\<close> asserts when
  the kernel makes one. \<open>authority\<close> is the set of resources a capability commands; deriving
  never creates authority and, for the kinds that partition a resource, splits it. The
  section on NAPOT frames says what \<open>pmp_napot_begin\<close> and \<open>pmp_napot_end\<close> compute.
\<close>

section \<open>NAPOT frames\<close>

lemma napot_nat:
  "\<exists>k q. (n :: nat) AND Suc n = q * 2 ^ Suc k \<and> n OR Suc n = q * 2 ^ Suc k + (2 ^ Suc k - 1)"
proof (induction n rule: less_induct)
  case (less n)
  show ?case
  proof (cases "even n")
    case True
    then obtain m where m: "n = 2 * m" by (elim evenE)
    have "n AND Suc n = 2 * m \<and> n OR Suc n = 2 * m + 1"
      by (simp add: m and_nat_rec [of "2 * m"] or_nat_rec [of "2 * m"])
    then show ?thesis by (intro exI [of _ 0] exI [of _ m]) simp
  next
    case False
    then obtain m where m: "n = 2 * m + 1" by (elim oddE)
    have eqs: "n AND Suc n = 2 * (m AND Suc m)" "n OR Suc n = 2 * (m OR Suc m) + 1"
      by (simp_all add: m and_nat_rec [of "Suc (2 * m)"] or_nat_rec [of "Suc (2 * m)"])
    have "m < n" by (simp add: m)
    from less.IH [OF this] obtain k q
      where "m AND Suc m = q * 2 ^ Suc k" "m OR Suc m = q * 2 ^ Suc k + (2 ^ Suc k - 1)"
      by blast
    moreover have "2 * (2 ^ Suc k - 1) + 1 = (2 ^ Suc (Suc k) - 1 :: nat)"
      by (induction k) simp_all
    ultimately have "n AND Suc n = q * 2 ^ Suc (Suc k)"
      "n OR Suc n = q * 2 ^ Suc (Suc k) + (2 ^ Suc (Suc k) - 1)"
      by (simp_all add: eqs algebra_simps)
    then show ?thesis by blast
  qed
qed

lemma unat_napot:
  assumes "a \<noteq> - 1"
  shows "unat (pmp_napot_begin a) = unat a AND Suc (unat a)"
    and "unat (pmp_napot_end a) = unat a OR Suc (unat a)"
proof -
  have "a + 1 \<noteq> 0" using assms by (metis add.commute add_eq_0_iff)
  then have "unat (a + 1) = Suc (unat a)" by (metis add.commute unatSuc)
  then show "unat (pmp_napot_begin a) = unat a AND Suc (unat a)"
    and "unat (pmp_napot_end a) = unat a OR Suc (unat a)"
    by (simp_all add: pmp_napot_begin_def pmp_napot_end_def unsigned_and_eq unsigned_or_eq)
qed

lemma napot_region:
  assumes "a \<noteq> - 1"
  shows "\<exists>k q. unat (pmp_napot_begin a) = q * 2 ^ Suc k \<and>
    unat (pmp_napot_end a) = unat (pmp_napot_begin a) + (2 ^ Suc k - 1) \<and>
    unat (pmp_napot_begin a) \<le> unat a \<and> unat a \<le> unat (pmp_napot_end a)"
proof -
  obtain k q where kq: "unat a AND Suc (unat a) = q * 2 ^ Suc k"
    "unat a OR Suc (unat a) = q * 2 ^ Suc k + (2 ^ Suc k - 1)"
    using napot_nat by blast
  have "pmp_napot_begin a \<le> a" "a \<le> pmp_napot_end a"
    by (simp_all add: pmp_napot_begin_def pmp_napot_end_def word_and_le2 le_word_or2)
  then have "unat (pmp_napot_begin a) \<le> unat a" "unat a \<le> unat (pmp_napot_end a)"
    by (simp_all add: word_le_nat_alt)
  with kq show ?thesis by (auto simp: unat_napot [OF assms])
qed


section \<open>Well-formed capabilities\<close>

definition cap_ok :: "cap_t \<Rightarrow> bool" where
  "cap_ok c \<longleftrightarrow>
    (cap_is_type c CAP_TYPE_MEMORY \<longrightarrow>
       cap_memory_get_begin c \<le> cap_memory_get_free c \<and>
       cap_memory_get_free c \<le> cap_memory_get_end c) \<and>
    (cap_is_type c CAP_TYPE_TIME \<longrightarrow>
       MIN_HARTID \<le> unat (cap_time_get_hartid c) \<and> unat (cap_time_get_hartid c) \<le> MAX_HARTID \<and>
       cap_time_get_begin c \<le> cap_time_get_free c \<and>
       cap_time_get_free c \<le> cap_time_get_end c \<and> unat (cap_time_get_end c) \<le> N_QUANTUM) \<and>
    (cap_is_type c CAP_TYPE_CHANNELS \<longrightarrow>
       cap_channels_get_begin c \<le> cap_channels_get_free c \<and>
       cap_channels_get_free c \<le> cap_channels_get_end c \<and>
       unat (cap_channels_get_end c) \<le> N_CHANNELS) \<and>
    (cap_is_type c CAP_TYPE_RECEIVER \<longrightarrow> unat (cap_receiver_get_channel c) < N_CHANNELS) \<and>
    (cap_is_type c CAP_TYPE_SENDER \<longrightarrow> unat (cap_sender_get_channel c) < N_CHANNELS) \<and>
    (cap_is_type c CAP_TYPE_SERVER \<longrightarrow> unat (cap_server_get_channel c) < N_CHANNELS) \<and>
    (cap_is_type c CAP_TYPE_CLIENT \<longrightarrow> unat (cap_client_get_channel c) < N_CHANNELS) \<and>
    (cap_is_type c CAP_TYPE_SUPERVISOR \<longrightarrow>
       cap_supervisor_get_begin c \<le> cap_supervisor_get_free c \<and>
       cap_supervisor_get_free c \<le> cap_supervisor_get_end c \<and>
       unat (cap_supervisor_get_end c) \<le> N_PROC)"

lemma cap_ok_NULL [simp]: "cap_ok NULL_CAP"
  by (simp add: cap_ok_def)

lemma cap_okD:
  "cap_ok c \<Longrightarrow> cap_is_type c CAP_TYPE_TIME \<Longrightarrow>
     MIN_HARTID \<le> unat (cap_time_get_hartid c) \<and> unat (cap_time_get_hartid c) \<le> MAX_HARTID \<and>
     cap_time_get_begin c \<le> cap_time_get_free c \<and>
     cap_time_get_free c \<le> cap_time_get_end c \<and> unat (cap_time_get_end c) \<le> N_QUANTUM"
  "cap_ok c \<Longrightarrow> cap_is_type c CAP_TYPE_RECEIVER \<Longrightarrow> unat (cap_receiver_get_channel c) < N_CHANNELS"
  "cap_ok c \<Longrightarrow> cap_is_type c CAP_TYPE_SENDER \<Longrightarrow> unat (cap_sender_get_channel c) < N_CHANNELS"
  "cap_ok c \<Longrightarrow> cap_is_type c CAP_TYPE_SERVER \<Longrightarrow> unat (cap_server_get_channel c) < N_CHANNELS"
  "cap_ok c \<Longrightarrow> cap_is_type c CAP_TYPE_CLIENT \<Longrightarrow> unat (cap_client_get_channel c) < N_CHANNELS"
  "cap_ok c \<Longrightarrow> cap_is_type c CAP_TYPE_SUPERVISOR \<Longrightarrow> unat (cap_supervisor_get_end c) \<le> N_PROC"
  by (simp_all add: cap_ok_def)

text \<open>The same predicate, for a capability of a known kind.\<close>

lemma cap_ok_simps:
  "cap_is_type c CAP_TYPE_MEMORY \<Longrightarrow> cap_ok c \<longleftrightarrow>
     cap_memory_get_begin c \<le> cap_memory_get_free c \<and>
     cap_memory_get_free c \<le> cap_memory_get_end c"
  "cap_is_type c CAP_TYPE_PMP \<Longrightarrow> cap_ok c"
  "cap_is_type c CAP_TYPE_TIME \<Longrightarrow> cap_ok c \<longleftrightarrow>
     MIN_HARTID \<le> unat (cap_time_get_hartid c) \<and> unat (cap_time_get_hartid c) \<le> MAX_HARTID \<and>
     cap_time_get_begin c \<le> cap_time_get_free c \<and>
     cap_time_get_free c \<le> cap_time_get_end c \<and> unat (cap_time_get_end c) \<le> N_QUANTUM"
  "cap_is_type c CAP_TYPE_CHANNELS \<Longrightarrow> cap_ok c \<longleftrightarrow>
     cap_channels_get_begin c \<le> cap_channels_get_free c \<and>
     cap_channels_get_free c \<le> cap_channels_get_end c \<and>
     unat (cap_channels_get_end c) \<le> N_CHANNELS"
  "cap_is_type c CAP_TYPE_RECEIVER \<Longrightarrow> cap_ok c \<longleftrightarrow> unat (cap_receiver_get_channel c) < N_CHANNELS"
  "cap_is_type c CAP_TYPE_SENDER \<Longrightarrow> cap_ok c \<longleftrightarrow> unat (cap_sender_get_channel c) < N_CHANNELS"
  "cap_is_type c CAP_TYPE_SERVER \<Longrightarrow> cap_ok c \<longleftrightarrow> unat (cap_server_get_channel c) < N_CHANNELS"
  "cap_is_type c CAP_TYPE_CLIENT \<Longrightarrow> cap_ok c \<longleftrightarrow> unat (cap_client_get_channel c) < N_CHANNELS"
  "cap_is_type c CAP_TYPE_SUPERVISOR \<Longrightarrow> cap_ok c \<longleftrightarrow>
     cap_supervisor_get_begin c \<le> cap_supervisor_get_free c \<and>
     cap_supervisor_get_free c \<le> cap_supervisor_get_end c \<and>
     unat (cap_supervisor_get_end c) \<le> N_PROC"
  by (simp_all add: cap_ok_def type_eqs)

text \<open>The whole effect of \<open>derive_update_cap\<close> on a capability that may be derived from.\<close>

lemma derive_update_total:
  assumes "cap_can_derive p c"
  shows "\<exists>p'. derive_update_cap p c = Inr p' \<and> cap_get_type p' = cap_get_type p"
  using assms
proof (cases rule: cap_can_derive_cases)
  case receiver
  with assms have lt: "cap_receiver_get_channel c < cap_channels_get_end p"
    by (simp add: can_derive_simps)
  from channel_succ(1) [OF lt channels_end.get_fits] lt receiver show ?thesis
    by (simp add: derive_update_simps channels_free.type_set)
next
  case server
  with assms have lt: "cap_server_get_channel c < cap_channels_get_end p"
    by (simp add: can_derive_simps)
  from channel_succ(1) [OF lt channels_end.get_fits] lt server show ?thesis
    by (simp add: derive_update_simps channels_free.type_set)
qed (simp_all add: derive_update_simps memory_free.type_set memory_end.get_fits
    memory_pmp.type_set time_free.type_set time_end.get_fits channels_free.type_set
    channels_end.get_fits supervisor_free.type_set supervisor_end.get_fits fits_unat)


lemma derived_receiver:
  assumes "cap_is_type p CAP_TYPE_CHANNELS" "cap_is_type c CAP_TYPE_RECEIVER"
    "cap_can_derive p c" "derive_update_cap p c = Inr p'"
  shows "cap_is_type p' CAP_TYPE_CHANNELS" "cap_channels_get_begin p' = cap_channels_get_begin p"
    "cap_channels_get_end p' = cap_channels_get_end p"
    "unat (cap_channels_get_free p') = Suc (unat (cap_receiver_get_channel c))"
proof -
  have lt: "cap_receiver_get_channel c < cap_channels_get_end p"
    using assms(1-3) by (simp add: can_derive_simps)
  note f = channel_succ [OF lt channels_end.get_fits]
  have "p' = cap_channels_set_free p (cap_receiver_get_channel c + 1)"
    using assms(1,2,4) lt by (simp add: derive_update_simps)
  then show "cap_is_type p' CAP_TYPE_CHANNELS"
    "cap_channels_get_begin p' = cap_channels_get_begin p"
    "cap_channels_get_end p' = cap_channels_get_end p"
    "unat (cap_channels_get_free p') = Suc (unat (cap_receiver_get_channel c))"
    using assms(1) f by (simp_all add: channels_free.get_set channels_free.is_type_set)
qed

lemma derived_server:
  assumes "cap_is_type p CAP_TYPE_CHANNELS" "cap_is_type c CAP_TYPE_SERVER"
    "cap_can_derive p c" "derive_update_cap p c = Inr p'"
  shows "cap_is_type p' CAP_TYPE_CHANNELS" "cap_channels_get_begin p' = cap_channels_get_begin p"
    "cap_channels_get_end p' = cap_channels_get_end p"
    "unat (cap_channels_get_free p') = Suc (unat (cap_server_get_channel c))"
proof -
  have lt: "cap_server_get_channel c < cap_channels_get_end p"
    using assms(1-3) by (simp add: can_derive_simps)
  note f = channel_succ [OF lt channels_end.get_fits]
  have "p' = cap_channels_set_free p (cap_server_get_channel c + 1)"
    using assms(1,2,4) lt by (simp add: derive_update_simps)
  then show "cap_is_type p' CAP_TYPE_CHANNELS"
    "cap_channels_get_begin p' = cap_channels_get_begin p"
    "cap_channels_get_end p' = cap_channels_get_end p"
    "unat (cap_channels_get_free p') = Suc (unat (cap_server_get_channel c))"
    using assms(1) f by (simp_all add: channels_free.get_set channels_free.is_type_set)
qed

lemma derive_ok:
  assumes "cap_ok p" "cap_can_derive p c" "derive_update_cap p c = Inr p'"
  shows "cap_ok c \<and> cap_ok p'"
  using assms(2)
proof (cases rule: cap_can_derive_cases)
  case memory
  with rmem.derived_order [OF memory assms(2,3)] rmem.derived_parent [OF memory assms(3)] assms(1)
  show ?thesis by (simp add: cap_ok_simps)
next
  case pmp
  then have "p' = cap_memory_set_pmp p 1" using assms(3) by (simp add: derive_update_simps)
  with pmp assms(1) show ?thesis
    by (simp add: cap_ok_simps memory_pmp.is_type_set)
next
  case time
  have "p' = cap_time_set_free p (cap_time_get_end c)"
    using assms(3) time by (simp add: derive_update_simps)
  then have "cap_time_get_hartid p' = cap_time_get_hartid p"
    by (simp add: time_end.get_fits)
  moreover note rtime.derived_order [OF time assms(2,3)] rtime.derived_parent [OF time assms(3)]
    rtime.derive [OF time assms(2)]
  ultimately show ?thesis
    using time assms(1) by (auto simp: cap_ok_simps word_le_nat_alt)
next
  case channels
  with rchan.derived_order [OF channels assms(2,3)] rchan.derived_parent [OF channels assms(3)]
    rchan.derive [OF channels assms(2)] assms(1)
  show ?thesis by (auto simp: cap_ok_simps word_le_nat_alt)
next
  case receiver
  with derived_receiver [OF receiver assms(2,3)] assms(1,2)
  show ?thesis
    by (auto simp: cap_ok_simps can_derive_simps word_le_nat_alt word_less_nat_alt)
next
  case server
  with derived_server [OF server assms(2,3)] assms(1,2)
  show ?thesis
    by (auto simp: cap_ok_simps can_derive_simps word_le_nat_alt word_less_nat_alt)
next
  case sender
  with assms show ?thesis
    by (simp add: derive_update_simps cap_ok_simps can_derive_simps)
next
  case client
  with assms show ?thesis
    by (simp add: derive_update_simps cap_ok_simps can_derive_simps)
next
  case supervisor
  with rsup.derived_order [OF supervisor assms(2,3)] rsup.derived_parent [OF supervisor assms(3)]
    rsup.derive [OF supervisor assms(2)] assms(1)
  show ?thesis by (auto simp: cap_ok_simps word_le_nat_alt)
qed

lemma derive_child:
  assumes "cap_ok p" "cap_can_derive p c" "derive_update_cap p c = Inr p'"
  shows "cap_is_child p' c"
  using assms(2)
proof (cases rule: cap_can_derive_cases)
  case memory
  with assms show ?thesis by (simp add: rmem.derived_child cap_ok_simps)
next
  case pmp
  then have "p' = cap_memory_set_pmp p 1" using assms(3) by (simp add: derive_update_simps)
  with pmp assms(2) show ?thesis
    by (simp add: can_derive_simps is_child_simps memory_pmp.is_type_set memory_pmp.get_set)
next
  case time
  with assms show ?thesis by (simp add: rtime.derived_child cap_ok_simps)
next
  case channels
  with assms show ?thesis by (simp add: rchan.derived_child cap_ok_simps)
next
  case receiver
  with derived_receiver [OF receiver assms(2,3)] assms(1,2) show ?thesis
    by (auto simp: is_child_simps can_derive_simps cap_ok_simps word_less_nat_alt)
next
  case server
  with derived_server [OF server assms(2,3)] assms(1,2) show ?thesis
    by (auto simp: is_child_simps can_derive_simps cap_ok_simps word_less_nat_alt)
next
  case sender
  with assms show ?thesis by (simp add: derive_update_simps is_child_simps can_derive_simps)
next
  case client
  with assms show ?thesis by (simp add: derive_update_simps is_child_simps can_derive_simps)
next
  case supervisor
  with assms show ?thesis by (simp add: rsup.derived_child cap_ok_simps)
qed

lemma revoke_update_cases:
  assumes "revoke_update_cap c = Inr c'"
  shows "cap_is_type c CAP_TYPE_MEMORY \<Longrightarrow>
      c' = cap_memory_set_pmp (cap_memory_set_free c (cap_memory_get_begin c)) 0"
    and "cap_is_type c CAP_TYPE_TIME \<Longrightarrow> c' = cap_time_set_free c (cap_time_get_begin c)"
    and "cap_is_type c CAP_TYPE_SUPERVISOR \<Longrightarrow>
      c' = cap_supervisor_set_free c (cap_supervisor_get_begin c)"
    and "\<not> cap_is_type c CAP_TYPE_MEMORY \<Longrightarrow> \<not> cap_is_type c CAP_TYPE_TIME \<Longrightarrow>
      \<not> cap_is_type c CAP_TYPE_SUPERVISOR \<Longrightarrow> c' = c"
  using assms by (auto simp: revoke_update_cap_def type_eqs memory_begin.get_fits time_begin.get_fits
      supervisor_begin.get_fits memory_free.is_type_set split: if_splits)

lemma revoke_update_ok:
  assumes "cap_ok c" "revoke_update_cap c = Inr c'"
  shows "cap_ok c'"
proof -
  note r = revoke_update_cases [OF assms(2)]
  consider "cap_is_type c CAP_TYPE_MEMORY" | "cap_is_type c CAP_TYPE_TIME"
    | "cap_is_type c CAP_TYPE_SUPERVISOR" | "c' = c"
    using r(4) by blast
  then show ?thesis
  proof cases
    case 1
    with assms(1) show ?thesis
      by (auto simp add: r(1) cap_ok_simps memory_free.is_type_set memory_pmp.is_type_set
          memory_begin.get_fits memory_free.get_set)
  next
    case 2
    with assms(1) show ?thesis
      by (auto simp add: r(2) cap_ok_simps time_free.is_type_set time_begin.get_fits time_free.get_set)
  next
    case 3
    with assms(1) show ?thesis
      by (auto simp add: r(3) cap_ok_simps supervisor_free.is_type_set supervisor_begin.get_fits
          supervisor_free.get_set)
  next
    case 4
    with assms(1) show ?thesis by simp
  qed
qed

lemma revoke_update_stops:
  "revoke_update_cap c = Inl e \<longleftrightarrow> cap_is_type c CAP_TYPE_CHANNELS \<and> e = Assert_failed"
  by (auto simp: revoke_update_cap_def type_eqs memory_begin.get_fits time_begin.get_fits
      supervisor_begin.get_fits memory_free.is_type_set)

section \<open>Authority\<close>

text \<open>
  A page and one of its access rights, a quantum of a hart, receiving or sending on a
  channel, and supervising a process.
\<close>

datatype resource =
    Page nat nat | Slice nat nat | Receive nat | Send nat | Supervise nat

definition authority :: "cap_t \<Rightarrow> resource set" where
  "authority c =
    (if cap_is_type c CAP_TYPE_MEMORY then
       {Page i r |i r. i \<in> {unat (cap_memory_get_free c)..<unat (cap_memory_get_end c)} \<and>
                       bit (cap_memory_get_rwx c) r}
     else if cap_is_type c CAP_TYPE_PMP then
       {Page i r |i r. i \<in> {unat (pmp_napot_begin (cap_pmp_get_addr c))
                           ..unat (pmp_napot_end (cap_pmp_get_addr c))} \<and>
                       bit (cap_pmp_get_rwx c) r}
     else if cap_is_type c CAP_TYPE_TIME then
       {Slice (unat (cap_time_get_hartid c)) q |q.
          q \<in> {unat (cap_time_get_free c)..<unat (cap_time_get_end c)}}
     else if cap_is_type c CAP_TYPE_CHANNELS then
       (\<Union>ch \<in> {unat (cap_channels_get_free c)..<unat (cap_channels_get_end c)}.
          {Receive ch, Send ch})
     else if cap_is_type c CAP_TYPE_RECEIVER then
       {Receive (unat (cap_receiver_get_channel c)), Send (unat (cap_receiver_get_channel c))}
     else if cap_is_type c CAP_TYPE_SERVER then
       {Receive (unat (cap_server_get_channel c)), Send (unat (cap_server_get_channel c))}
     else if cap_is_type c CAP_TYPE_SENDER then {Send (unat (cap_sender_get_channel c))}
     else if cap_is_type c CAP_TYPE_CLIENT then {Send (unat (cap_client_get_channel c))}
     else if cap_is_type c CAP_TYPE_SUPERVISOR then
       {Supervise p |p.
          p \<in> {unat (cap_supervisor_get_free c)..<unat (cap_supervisor_get_end c)}}
     else {})"

lemma authority_simps:
  "cap_is_type c CAP_TYPE_MEMORY \<Longrightarrow> authority c =
     {Page i r |i r. i \<in> {unat (cap_memory_get_free c)..<unat (cap_memory_get_end c)} \<and>
                     bit (cap_memory_get_rwx c) r}"
  "cap_is_type c CAP_TYPE_PMP \<Longrightarrow> authority c =
     {Page i r |i r. i \<in> {unat (pmp_napot_begin (cap_pmp_get_addr c))
                         ..unat (pmp_napot_end (cap_pmp_get_addr c))} \<and>
                     bit (cap_pmp_get_rwx c) r}"
  "cap_is_type c CAP_TYPE_TIME \<Longrightarrow> authority c =
     {Slice (unat (cap_time_get_hartid c)) q |q.
        q \<in> {unat (cap_time_get_free c)..<unat (cap_time_get_end c)}}"
  "cap_is_type c CAP_TYPE_CHANNELS \<Longrightarrow> authority c =
     (\<Union>ch \<in> {unat (cap_channels_get_free c)..<unat (cap_channels_get_end c)}.
        {Receive ch, Send ch})"
  "cap_is_type c CAP_TYPE_RECEIVER \<Longrightarrow> authority c =
     {Receive (unat (cap_receiver_get_channel c)), Send (unat (cap_receiver_get_channel c))}"
  "cap_is_type c CAP_TYPE_SERVER \<Longrightarrow> authority c =
     {Receive (unat (cap_server_get_channel c)), Send (unat (cap_server_get_channel c))}"
  "cap_is_type c CAP_TYPE_SENDER \<Longrightarrow> authority c = {Send (unat (cap_sender_get_channel c))}"
  "cap_is_type c CAP_TYPE_CLIENT \<Longrightarrow> authority c = {Send (unat (cap_client_get_channel c))}"
  "cap_is_type c CAP_TYPE_SUPERVISOR \<Longrightarrow> authority c =
     {Supervise p |p.
        p \<in> {unat (cap_supervisor_get_free c)..<unat (cap_supervisor_get_end c)}}"
  by (simp_all add: authority_def type_eqs)


text \<open>Rights only shrink along a derivation.\<close>

lemma rights_sub: "(r AND r') = (r :: u64) \<Longrightarrow> bit r i \<Longrightarrow> bit r' i"
  by (metis bit_and_iff)

lemma authority_memory:
  assumes "cap_is_type p CAP_TYPE_MEMORY" "cap_is_type c CAP_TYPE_MEMORY"
    "cap_can_derive p c" "derive_update_cap p c = Inr p'"
  shows "authority c \<union> authority p' \<subseteq> authority p" "authority c \<inter> authority p' = {}"
proof -
  have p': "p' = cap_memory_set_free p (cap_memory_get_end c)"
    using assms by (simp add: derive_update_simps)
  note s = rmem.derived_split [OF assms] and d = rmem.derived_parent [OF assms(1,2,4)]
  have sub: "bit (cap_memory_get_rwx p) r" if "bit (cap_memory_get_rwx c) r" for r
    using assms(1-3) that by (auto simp: can_derive_simps dest: rights_sub)
  have rwx: "cap_memory_get_rwx p' = cap_memory_get_rwx p"
    by (simp add: p' memory_end.get_fits)
  show "authority c \<union> authority p' \<subseteq> authority p"
    using s(1) sub by (auto simp: authority_simps assms(1,2) d(1) rwx)
  show "authority c \<inter> authority p' = {}"
    using s(2) by (auto simp: authority_simps assms(1,2) d(1))
qed

lemma authority_time:
  assumes "cap_is_type p CAP_TYPE_TIME" "cap_is_type c CAP_TYPE_TIME"
    "cap_can_derive p c" "derive_update_cap p c = Inr p'"
  shows "authority c \<union> authority p' \<subseteq> authority p" "authority c \<inter> authority p' = {}"
proof -
  have p': "p' = cap_time_set_free p (cap_time_get_end c)"
    using assms by (simp add: derive_update_simps)
  note s = rtime.derived_split [OF assms] and d = rtime.derived_parent [OF assms(1,2,4)]
  have h: "cap_time_get_hartid p = cap_time_get_hartid c"
    "cap_time_get_hartid p' = cap_time_get_hartid p"
    using rtime.derive [OF assms(1-3)] by (simp_all add: p' time_end.get_fits)
  show "authority c \<union> authority p' \<subseteq> authority p"
    using s(1) by (auto simp: authority_simps assms(1,2) d(1) h)
  show "authority c \<inter> authority p' = {}"
    using s(2) by (auto simp: authority_simps assms(1,2) d(1))
qed

lemma authority_channels:
  assumes "cap_is_type p CAP_TYPE_CHANNELS" "cap_is_type c CAP_TYPE_CHANNELS"
    "cap_can_derive p c" "derive_update_cap p c = Inr p'"
  shows "authority c \<union> authority p' \<subseteq> authority p" "authority c \<inter> authority p' = {}"
  using rchan.derived_split [OF assms] rchan.derived_parent(1) [OF assms(1,2,4)]
  by (fastforce simp: authority_simps assms(1,2))+

lemma authority_supervisor:
  assumes "cap_is_type p CAP_TYPE_SUPERVISOR" "cap_is_type c CAP_TYPE_SUPERVISOR"
    "cap_can_derive p c" "derive_update_cap p c = Inr p'"
  shows "authority c \<union> authority p' \<subseteq> authority p" "authority c \<inter> authority p' = {}"
  using rsup.derived_split [OF assms] rsup.derived_parent(1) [OF assms(1,2,4)]
  by (auto simp: authority_simps assms(1,2))

lemma authority_receiver:
  assumes "cap_is_type p CAP_TYPE_CHANNELS" "cap_is_type c CAP_TYPE_RECEIVER"
    "cap_can_derive p c" "derive_update_cap p c = Inr p'"
  shows "authority c \<union> authority p' \<subseteq> authority p" "authority c \<inter> authority p' = {}"
  using derived_receiver [OF assms] assms(3)
  by (auto simp: authority_simps assms(1,2) can_derive_simps word_less_nat_alt)

lemma authority_server:
  assumes "cap_is_type p CAP_TYPE_CHANNELS" "cap_is_type c CAP_TYPE_SERVER"
    "cap_can_derive p c" "derive_update_cap p c = Inr p'"
  shows "authority c \<union> authority p' \<subseteq> authority p" "authority c \<inter> authority p' = {}"
  using derived_server [OF assms] assms(3)
  by (auto simp: authority_simps assms(1,2) can_derive_simps word_less_nat_alt)

text \<open>A frame that stays strictly below the end of the memory it is derived from.\<close>

definition frame_inside :: "cap_t \<Rightarrow> cap_t \<Rightarrow> bool" where
  "frame_inside p c \<longleftrightarrow>
    (cap_is_type c CAP_TYPE_PMP \<longrightarrow> pmp_napot_end (cap_pmp_get_addr c) < cap_memory_get_end p)"

lemma authority_pmp:
  assumes "cap_is_type p CAP_TYPE_MEMORY" "cap_is_type c CAP_TYPE_PMP"
    "cap_can_derive p c" "derive_update_cap p c = Inr p'"
  shows "frame_inside p c \<Longrightarrow> authority c \<subseteq> authority p" "authority p' = authority p"
proof -
  have p': "p' = cap_memory_set_pmp p 1"
    using assms by (simp add: derive_update_simps)
  then show "authority p' = authority p"
    using assms(1) by (simp add: authority_simps memory_pmp.is_type_set)
  have sub: "bit (cap_memory_get_rwx p) r" if "bit (cap_pmp_get_rwx c) r" for r
    using assms(1-3) that by (auto simp: can_derive_simps dest: rights_sub)
  show "authority c \<subseteq> authority p" if "frame_inside p c"
    using that sub assms(3)
    by (auto simp: authority_simps assms(1,2) can_derive_simps frame_inside_def
        word_le_nat_alt word_less_nat_alt)
qed

text \<open>What a frame gets beyond its memory capability: the page at the end, if its last page is that
  one.\<close>

definition overhang :: "cap_t \<Rightarrow> cap_t \<Rightarrow> resource set" where
  "overhang p c =
    (if cap_is_type c CAP_TYPE_PMP \<and> pmp_napot_end (cap_pmp_get_addr c) = cap_memory_get_end p
     then {Page (unat (cap_memory_get_end p)) r |r. bit (cap_pmp_get_rwx c) r} else {})"

lemma authority_overhang:
  assumes "cap_is_type p CAP_TYPE_MEMORY" "cap_is_type c CAP_TYPE_PMP" "cap_can_derive p c"
  shows "authority c - authority p = overhang p c"
proof -
  let ?b = "pmp_napot_begin (cap_pmp_get_addr c)" and ?e = "pmp_napot_end (cap_pmp_get_addr c)"
  have "?b \<le> ?e"
    unfolding pmp_napot_begin_def pmp_napot_end_def by (rule order_trans [OF word_and_le2 le_word_or2])
  moreover have "bit (cap_memory_get_rwx p) r" if "bit (cap_pmp_get_rwx c) r" for r
    using assms that by (auto simp: can_derive_simps dest: rights_sub)
  moreover have "cap_memory_get_free p \<le> ?b" "?e \<le> cap_memory_get_end p"
    using assms by (simp_all add: can_derive_simps)
  ultimately show ?thesis
    using assms(1,2) by (auto simp: authority_simps overhang_def word_le_nat_alt word_unat_eq_iff)
qed

text \<open>The kinds whose derivation takes the child's resources away from the parent.\<close>

definition splits_parent :: "cap_t \<Rightarrow> bool" where
  "splits_parent c \<longleftrightarrow>
    (\<exists>t \<in> {CAP_TYPE_MEMORY, CAP_TYPE_TIME, CAP_TYPE_CHANNELS, CAP_TYPE_RECEIVER,
            CAP_TYPE_SERVER, CAP_TYPE_SUPERVISOR}. cap_is_type c t)"

lemma derive_authority:
  assumes "cap_can_derive p c" "derive_update_cap p c = Inr p'" "frame_inside p c"
  shows "authority c \<union> authority p' \<subseteq> authority p"
    and "splits_parent c \<Longrightarrow> authority c \<inter> authority p' = {}"
proof -
  have "authority c \<union> authority p' \<subseteq> authority p \<and>
    (splits_parent c \<longrightarrow> authority c \<inter> authority p' = {})"
    using assms(1)
  proof (cases rule: cap_can_derive_cases)
    case memory then show ?thesis using authority_memory [OF memory assms(1,2)] by simp
  next
    case pmp then show ?thesis
      using authority_pmp [OF pmp assms(1,2)] assms(3) by (simp add: splits_parent_def type_eqs)
  next
    case time then show ?thesis using authority_time [OF time assms(1,2)] by simp
  next
    case channels then show ?thesis using authority_channels [OF channels assms(1,2)] by simp
  next
    case receiver then show ?thesis using authority_receiver [OF receiver assms(1,2)] by simp
  next
    case server then show ?thesis using authority_server [OF server assms(1,2)] by simp
  next
    case sender
    with assms show ?thesis
      by (simp add: derive_update_simps can_derive_simps authority_simps splits_parent_def type_eqs)
  next
    case client
    with assms show ?thesis
      by (simp add: derive_update_simps can_derive_simps authority_simps splits_parent_def type_eqs)
  next
    case supervisor
    then show ?thesis using authority_supervisor [OF supervisor assms(1,2)] by simp
  qed
  then show "authority c \<union> authority p' \<subseteq> authority p"
    and "splits_parent c \<Longrightarrow> authority c \<inter> authority p' = {}"
    by blast+
qed

section \<open>Older children\<close>

text \<open>Two kinds a child relation can hold between.\<close>

lemma cap_is_child_cases:
  assumes "cap_is_child p c"
  obtains
    (memory) "cap_is_type p CAP_TYPE_MEMORY" "cap_is_type c CAP_TYPE_MEMORY"
  | (pmp) "cap_is_type p CAP_TYPE_MEMORY" "cap_is_type c CAP_TYPE_PMP"
  | (time) "cap_is_type p CAP_TYPE_TIME" "cap_is_type c CAP_TYPE_TIME"
  | (channels) "cap_is_type p CAP_TYPE_CHANNELS" "cap_is_type c CAP_TYPE_CHANNELS"
  | (receiver) "cap_is_type p CAP_TYPE_CHANNELS" "cap_is_type c CAP_TYPE_RECEIVER"
  | (channels_sender) "cap_is_type p CAP_TYPE_CHANNELS" "cap_is_type c CAP_TYPE_SENDER"
      "cap_channels_get_begin p \<le> cap_sender_get_channel c" "cap_sender_get_channel c < cap_channels_get_free p"
  | (sender) "cap_is_type p CAP_TYPE_RECEIVER" "cap_is_type c CAP_TYPE_SENDER"
  | (server) "cap_is_type p CAP_TYPE_CHANNELS" "cap_is_type c CAP_TYPE_SERVER"
  | (channels_client) "cap_is_type p CAP_TYPE_CHANNELS" "cap_is_type c CAP_TYPE_CLIENT"
      "cap_channels_get_begin p \<le> cap_client_get_channel c" "cap_client_get_channel c < cap_channels_get_free p"
  | (client) "cap_is_type p CAP_TYPE_SERVER" "cap_is_type c CAP_TYPE_CLIENT"
  | (supervisor) "cap_is_type p CAP_TYPE_SUPERVISOR" "cap_is_type c CAP_TYPE_SUPERVISOR"
  using assms that unfolding cap_is_child_def by (auto split: if_splits)

lemma channels_child_mono:
  assumes "cap_is_type p CAP_TYPE_CHANNELS" "cap_is_child p d" "cap_is_type p' CAP_TYPE_CHANNELS"
    "cap_channels_get_begin p' = cap_channels_get_begin p"
    "cap_channels_get_free p \<le> cap_channels_get_free p'"
  shows "cap_is_child p' d"
  using assms(2)
proof (cases rule: cap_is_child_cases)
  case channels
  with assms show ?thesis by (auto simp: is_child_simps)
next
  case receiver
  with assms show ?thesis by (auto simp: is_child_simps)
next
  case server
  with assms show ?thesis by (auto simp: is_child_simps)
next
  case channels_sender
  with assms show ?thesis by (simp add: cap_is_child_def type_eqs)
next
  case channels_client
  with assms show ?thesis by (simp add: cap_is_child_def type_eqs)
qed (use assms in \<open>auto simp: type_eqs\<close>)

lemma derive_older_child:
  assumes "cap_can_derive p c" "derive_update_cap p c = Inr p'" "cap_is_child p d"
  shows "cap_is_child p' d"
  using assms(1)
proof (cases rule: cap_can_derive_cases)
  case memory
  have p': "p' = cap_memory_set_free p (cap_memory_get_end c)"
    using assms(2) memory by (simp add: derive_update_simps)
  show ?thesis
    using assms(3)
  proof (cases rule: cap_is_child_cases)
    case pmp
    then show ?thesis using assms(1,3) memory by (simp add: is_child_simps can_derive_simps)
  qed (use memory assms rmem.older_child in \<open>auto simp: type_eqs\<close>)
next
  case pmp
  have p': "p' = cap_memory_set_pmp p 1" using assms(2) pmp by (simp add: derive_update_simps)
  show ?thesis
    using assms(3)
    by (cases rule: cap_is_child_cases)
      (use assms(3) pmp in \<open>auto simp: p' type_eqs is_child_simps memory_pmp.is_type_set memory_pmp.get_set\<close>)
next
  case time
  have "cap_is_type d CAP_TYPE_TIME"
    using assms(3) time(1) by (cases rule: cap_is_child_cases) (auto simp: type_eqs)
  then show ?thesis using rtime.older_child [OF time assms(1,2)] assms(3) by blast
next
  case channels
  have le: "cap_channels_get_free p \<le> cap_channels_get_end c"
    using rchan.derive [OF channels assms(1)] by auto
  note d = rchan.derived_parent [OF channels assms(2)]
  show ?thesis by (rule channels_child_mono [OF channels(1) assms(3) d(1,2)]) (simp only: d(4) le)
next
  case receiver
  note d = derived_receiver [OF receiver assms(1,2)]
  have "cap_channels_get_free p = cap_receiver_get_channel c"
    using assms(1) receiver by (simp add: can_derive_simps)
  then have "cap_channels_get_free p \<le> cap_channels_get_free p'"
    unfolding word_le_nat_alt d(4) by simp
  then show ?thesis by (rule channels_child_mono [OF receiver(1) assms(3) d(1,2)])
next
  case server
  note d = derived_server [OF server assms(1,2)]
  have "cap_channels_get_free p = cap_server_get_channel c"
    using assms(1) server by (simp add: can_derive_simps)
  then have "cap_channels_get_free p \<le> cap_channels_get_free p'"
    unfolding word_le_nat_alt d(4) by simp
  then show ?thesis by (rule channels_child_mono [OF server(1) assms(3) d(1,2)])
next
  case supervisor
  have "cap_is_type d CAP_TYPE_SUPERVISOR"
    using assms(3) supervisor(1) by (cases rule: cap_is_child_cases) (auto simp: type_eqs)
  then show ?thesis using rsup.older_child [OF supervisor assms(1,2)] assms(3) by blast
qed (use assms in \<open>simp_all add: derive_update_simps\<close>)

section \<open>Properties\<close>

text \<open>The capabilities the witnesses use: all the time of hart 1, and its first half; a
  memory capability of seven pages, and the frame of eight pages behind PMP address 3.\<close>

definition hour :: cap_t where "hour = cap_mk_time 1 0 128 0"

definition half_hour :: cap_t where "half_hour = cap_mk_time 1 0 64 0"

definition seven_pages :: cap_t where "seven_pages = cap_mk_memory 0 7 7 0 0"

definition eight_pages :: cap_t where "eight_pages = cap_mk_pmp 3 7"

lemma hour_simps:
  "cap_is_type hour CAP_TYPE_TIME" "cap_is_type half_hour CAP_TYPE_TIME"
  "cap_can_derive hour half_hour" "cap_ok hour"
  "derive_update_cap hour half_hour = Inr (cap_mk_time 1 0 128 64)"
  "\<not> cap_is_type half_hour CAP_TYPE_PMP"
proof -
  note g = mk_time_get [of 1 0 128 0] mk_time_get [of 1 0 64 0]
  show t: "cap_is_type hour CAP_TYPE_TIME" "cap_is_type half_hour CAP_TYPE_TIME"
    using g(1,6) by (simp_all add: cap_is_type_def hour_def half_hour_def fits_unat)
  show "\<not> cap_is_type half_hour CAP_TYPE_PMP" using t(2) by (simp add: type_eqs)
  show "cap_can_derive hour half_hour"
    using g t by (simp add: can_derive_simps hour_def half_hour_def fits_unat)
  show "cap_ok hour"
    using g cap_ok_simps(3) [OF t(1)] by (simp add: hour_def fits_unat config_defs)
  show "derive_update_cap hour half_hour = Inr (cap_mk_time 1 0 128 64)"
    using g(10) t by (simp add: derive_update_simps hour_def half_hour_def fits_unat) code_simp
qed

text \<open>C8: what deriving a capability does to authority. Parent and child together command
  nothing the parent did not command before, with one exception: the child commands one page
  more, the one at the end of the memory capability, exactly if it is a PMP frame whose last
  page is that one. For the kinds that partition a resource the child takes from the parent
  what it gets: nothing is held twice.\<close>

theorem derive_splits_authority:
  assumes "cap_can_derive p c" "derive_update_cap p c = Inr p'"
  shows "authority c - authority p = overhang p c \<and> authority p' \<subseteq> authority p \<and>
    (splits_parent c \<longrightarrow> authority c \<inter> authority p' = {})"
proof (cases "cap_is_type c CAP_TYPE_PMP")
  case True
  with assms(1) have "cap_is_type p CAP_TYPE_MEMORY"
    by (cases rule: cap_can_derive_cases) (auto simp: type_eqs)
  then show ?thesis
    using authority_overhang [OF _ True assms(1)] authority_pmp(2) [OF _ True assms] True
    by (simp add: splits_parent_def type_eqs)
next
  case False
  then show ?thesis
    using derive_authority [OF assms] by (auto simp: frame_inside_def overhang_def)
qed

theorem derive_splits_authority_witness:
  "authority half_hour \<union> authority (cap_mk_time 1 0 128 64) \<subseteq> authority hour \<and>
   authority half_hour \<inter> authority (cap_mk_time 1 0 128 64) = {}"
  using derive_splits_authority [of hour half_hour "cap_mk_time 1 0 128 64"]
  by (auto simp: hour_simps overhang_def splits_parent_def)

text \<open>C37: what \<open>cap_can_derive\<close> accepts, \<open>derive_update_cap\<close> handles: none of its assertions
  fails, neither its own nor those of the generated accessors on the types of the two
  capabilities and on the width of what it stores; parent and child are well formed, and the
  new child is one \<open>cap_is_child\<close> will find when the parent is revoked.\<close>

theorem derive_well_formed:
  assumes "cap_ok p" "cap_can_derive p c"
  shows "\<exists>p'. derive_update_cap p c = Inr p' \<and> cap_get_type p' = cap_get_type p \<and>
    cap_ok c \<and> cap_ok p' \<and> cap_is_child p' c"
  using derive_update_total [OF assms(2)] derive_ok [OF assms] derive_child [OF assms] by blast

theorem derive_well_formed_witness:
  "\<exists>p'. derive_update_cap hour half_hour = Inr p' \<and> cap_get_type p' = cap_get_type hour \<and>
    cap_ok half_hour \<and> cap_ok p' \<and> cap_is_child p' half_hour"
  by (rule derive_well_formed) (simp_all add: hour_simps)

text \<open>A later derivation from the same parent never orphans an earlier child.\<close>

lemma derive_keeps_children:
  assumes "cap_can_derive p c" "derive_update_cap p c = Inr p'" "cap_is_child p d"
  shows "cap_is_child p' d"
  by (rule derive_older_child [OF assms])

lemma derive_keeps_children_example:
  "cap_is_child (cap_mk_time 1 0 128 128) half_hour"
proof -
  let ?p = "cap_mk_time 1 0 128 64" and ?c = "cap_mk_time 1 64 128 64"
  note g = mk_time_get [of 1 0 128 64] mk_time_get [of 1 64 128 64]
  have t: "cap_is_type ?p CAP_TYPE_TIME" "cap_is_type ?c CAP_TYPE_TIME"
    using g(1,6) by (simp_all add: cap_is_type_def fits_unat)
  have d: "cap_can_derive ?p ?c" using g t by (simp add: can_derive_simps fits_unat)
  have u: "derive_update_cap ?p ?c = Inr (cap_mk_time 1 0 128 128)"
    using g(9) t by (simp add: derive_update_simps fits_unat) code_simp
  show ?thesis
    by (rule derive_keeps_children [OF d u]) (rule derive_child [OF hour_simps(4,3,5)])
qed

text \<open>C40: the check of a PMP derivation compares the last page of the frame, inclusive,
  with the end of the memory, exclusive. A derived frame stays inside the memory capability
  exactly when that slack is not used; when it is, the child commands one page more.\<close>

theorem pmp_escapes_memory:
  assumes "cap_is_type p CAP_TYPE_MEMORY" "cap_is_type c CAP_TYPE_PMP" "cap_can_derive p c"
    "bit (cap_pmp_get_rwx c) r" "cap_pmp_get_addr c \<noteq> - 1"
  shows "authority c \<subseteq> authority p \<longleftrightarrow> frame_inside p c"
proof
  assume "authority c \<subseteq> authority p"
  moreover have "pmp_napot_begin (cap_pmp_get_addr c) \<le> pmp_napot_end (cap_pmp_get_addr c)"
    using napot_region [OF assms(5)] by (auto simp: word_le_nat_alt)
  then have "Page (unat (pmp_napot_end (cap_pmp_get_addr c))) r \<in> authority c"
    using assms(2,4) by (auto simp: authority_simps word_le_nat_alt)
  ultimately show "frame_inside p c"
    using assms(1) by (auto simp: authority_simps frame_inside_def word_less_nat_alt)
next
  obtain p' where "derive_update_cap p c = Inr p'" using derive_update_total [OF assms(3)] by blast
  then show "frame_inside p c \<Longrightarrow> authority c \<subseteq> authority p"
    using authority_pmp(1) [OF assms(1-3)] by blast
qed

theorem pmp_escapes_memory_witness:
  "cap_can_derive seven_pages eight_pages \<and> \<not> authority eight_pages \<subseteq> authority seven_pages"
proof -
  note g = mk_memory_get [of 0 7 7 0 0] mk_pmp_get [of 3 7]
  have t: "cap_is_type seven_pages CAP_TYPE_MEMORY" "cap_is_type eight_pages CAP_TYPE_PMP"
    using g(1,7) by (simp_all add: cap_is_type_def seven_pages_def eight_pages_def fits_unat)
  have d: "cap_can_derive seven_pages eight_pages"
    using g t by (simp add: can_derive_simps seven_pages_def eight_pages_def fits_unat
        pmp_napot_begin_def pmp_napot_end_def)
  have "\<not> frame_inside seven_pages eight_pages"
    using g t by (simp add: frame_inside_def seven_pages_def eight_pages_def fits_unat pmp_napot_end_def)
  moreover have "bit (cap_pmp_get_rwx eight_pages) 0" "cap_pmp_get_addr eight_pages \<noteq> - 1"
    using g by (simp_all add: eight_pages_def fits_unat bit_0)
  ultimately show ?thesis using pmp_escapes_memory [OF t d] d by blast
qed

end
