(* ===== verification/Atomic.thy ===== *)
theory Atomic
  imports Config
begin

text \<open>
  The atomic read-modify-write operations of \<open>inc/atomic.h\<close>, as functions of the value a
  memory cell holds: each gives what the operation returns and what the cell then holds.
  The load-reserved/store-conditional loop of \<open>compare_and_swap\<close> retries until its store
  succeeds, so its effect is one atomic step. \<open>synchronize\<close> is a memory barrier and has no
  effect on the sequentially consistent memory of the model. The marked pointers of the
  same header put a flag in the lowest bit of an aligned address.
\<close>

definition compare_and_swap :: "'a \<Rightarrow> 'a \<Rightarrow> 'a \<Rightarrow> 'a \<times> 'a" where
  "compare_and_swap old expected desired =
     (old, if old = expected then desired else old)"

definition compare_and_set :: "'a \<Rightarrow> 'a \<Rightarrow> 'a \<Rightarrow> bool \<times> 'a" where
  "compare_and_set old expected desired =
     (let (r, new) = compare_and_swap old expected desired in (r = expected, new))"

definition fetch_and_and :: "'a::semiring_bit_operations \<Rightarrow> 'a \<Rightarrow> 'a \<times> 'a" where
  "fetch_and_and old val = (old, old AND val)"

definition fetch_and_or :: "'a::semiring_bit_operations \<Rightarrow> 'a \<Rightarrow> 'a \<times> 'a" where
  "fetch_and_or old val = (old, old OR val)"

definition fetch_and_add :: "'a::plus \<Rightarrow> 'a \<Rightarrow> 'a \<times> 'a" where
  "fetch_and_add old val = (old, old + val)"

lemma compare_and_set_simps [simp]:
  "compare_and_set old expected desired =
     (if old = expected then (True, desired) else (False, old))"
  by (simp add: compare_and_set_def compare_and_swap_def)

section \<open>Marked pointers\<close>

record marked_pointer_t =
  mp_data :: u64

definition marked_pointer :: "u64 \<Rightarrow> bool \<Rightarrow> marked_pointer_t" where
  "marked_pointer ptr mark = \<lparr>mp_data = ptr OR of_bool mark\<rparr>"

definition marked_pointer_get_ptr :: "marked_pointer_t \<Rightarrow> u64" where
  "marked_pointer_get_ptr mptr = mp_data mptr AND NOT 1"

definition marked_pointer_get :: "marked_pointer_t \<Rightarrow> u64 \<times> u64" where
  "marked_pointer_get mptr = (mp_data mptr AND NOT 1, mp_data mptr AND 1)"

definition marked_pointer_compare_and_set ::
    "marked_pointer_t \<Rightarrow> u64 \<Rightarrow> u64 \<Rightarrow> u64 \<Rightarrow> u64 \<Rightarrow> bool \<times> marked_pointer_t" where
  "marked_pointer_compare_and_set mptr old_ptr new_ptr old_mark new_mark =
     (let (b, d) = compare_and_set (mp_data mptr) (old_ptr OR old_mark) (new_ptr OR new_mark)
      in (b, \<lparr>mp_data = d\<rparr>))"

lemma even_not_bit_0: "even (ptr :: u64) \<longleftrightarrow> \<not> bit ptr 0"
  by (simp add: bit_0)

lemma marked_pointer_roundtrip:
  assumes "even ptr"
  shows "marked_pointer_get (marked_pointer ptr mark) = (ptr, of_bool mark)"
    and "marked_pointer_get_ptr (marked_pointer ptr mark) = ptr"
proof -
  have nb: "\<not> bit ptr 0" using assms by (simp add: bit_0)
  have "(ptr OR of_bool mark) AND NOT 1 = ptr"
    using nb by (intro bit_eqI) (auto simp: bit_simps intro!: gr0I)
  moreover have "(ptr OR of_bool mark) AND 1 = (of_bool mark :: u64)"
    using nb by (intro bit_eqI) (auto simp: bit_simps intro!: gr0I)
  ultimately show "marked_pointer_get (marked_pointer ptr mark) = (ptr, of_bool mark)"
    and "marked_pointer_get_ptr (marked_pointer ptr mark) = ptr"
    by (simp_all add: marked_pointer_get_def marked_pointer_get_ptr_def marked_pointer_def)
qed

lemma marked_pointer_cas_stale:
  "marked_pointer_get mptr \<noteq> (old_ptr, old_mark) \<Longrightarrow> even old_ptr \<Longrightarrow> old_mark \<in> {0, 1} \<Longrightarrow>
    marked_pointer_compare_and_set mptr old_ptr new_ptr old_mark new_mark = (False, mptr)"
proof -
  assume a: "marked_pointer_get mptr \<noteq> (old_ptr, old_mark)" "even old_ptr" "old_mark \<in> {0, 1}"
  then obtain m where m: "old_mark = of_bool m"
    by (metis insertE of_bool_eq(1) of_bool_eq(2) singletonD)
  have "mp_data mptr \<noteq> old_ptr OR old_mark"
  proof
    assume "mp_data mptr = old_ptr OR old_mark"
    then have "mptr = marked_pointer old_ptr m"
      by (simp add: marked_pointer_def m)
    with a(1) show False
      by (simp add: marked_pointer_roundtrip [OF a(2)] m)
  qed
  then show ?thesis by (simp add: marked_pointer_compare_and_set_def)
qed

end
