(* ===== verification/CapNode.thy ===== *)
theory CapNode
  imports CapAuthority Atomic
begin

text \<open>
  The capability nodes of \<open>inc/cap_node.h\<close> on an explicit heap. A node pointer names a slot
  of a process's table (\<open>cap_tables[pid][cidx]\<close> of \<open>cap_node.c\<close>) or one of the four static
  sentinels of \<open>proc.c\<close>; \<open>NULL\<close> is \<open>None\<close>. The operations are the C functions, with every
  compare-and-set, and run to completion (\<open>NodeRace\<close> interleaves them). The
  abstract state is one list of slots per sentinel: \<open>rep\<close> relates a heap to the lists, and
  the refinement lemmas say that inserting puts the node right after its predecessor and
  that deleting removes it. The locale \<open>cap_store\<close> is what the system calls use of this.
\<close>

section \<open>The heap of nodes\<close>

datatype sentinel = Memory_sentinel | Time_sentinel | Supervisor_sentinel | Channels_sentinel

datatype node_ptr = Slot nat nat | Sentinel sentinel

record cap_node =
  cn_prev :: "node_ptr option"
  cn_next :: "node_ptr option"
  cn_cap :: cap_t

type_synonym node_heap = "node_ptr \<Rightarrow> cap_node"

abbreviation set_prev :: "node_heap \<Rightarrow> node_ptr \<Rightarrow> node_ptr option \<Rightarrow> node_heap" where
  "set_prev h n p \<equiv> h(n := (h n)\<lparr>cn_prev := p\<rparr>)"

abbreviation set_next :: "node_heap \<Rightarrow> node_ptr \<Rightarrow> node_ptr option \<Rightarrow> node_heap" where
  "set_next h n p \<equiv> h(n := (h n)\<lparr>cn_next := p\<rparr>)"

abbreviation set_cap :: "node_heap \<Rightarrow> node_ptr \<Rightarrow> cap_t \<Rightarrow> node_heap" where
  "set_cap h n c \<equiv> h(n := (h n)\<lparr>cn_cap := c\<rparr>)"

definition cas_prev :: "node_heap \<Rightarrow> node_ptr \<Rightarrow> node_ptr option \<Rightarrow> node_ptr option \<Rightarrow> bool \<times> node_heap" where
  "cas_prev h n expected desired =
     (let (b, p) = compare_and_set (cn_prev (h n)) expected desired in (b, set_prev h n p))"

section \<open>The operations\<close>

definition cap_node_is_deleted :: "node_heap \<Rightarrow> node_ptr \<Rightarrow> bool" where
  "cap_node_is_deleted h cn \<longleftrightarrow> cn_prev (h cn) = None"

definition cap_node_get_cap :: "node_heap \<Rightarrow> node_ptr \<Rightarrow> cap_t" where
  "cap_node_get_cap h cn =
     (let cap = cn_cap (h cn) in if cap_node_is_deleted h cn then NULL_CAP else cap)"

text \<open>
  The relinking loop of \<open>cap_node_delete2\<close>: \<open>do next = node->next while
  (!compare_and_set(&next->prev, node, prev))\<close>. A loop that never exits has the value
  \<open>None\<close>.
\<close>

partial_function (option) delete2_loop ::
    "node_ptr \<Rightarrow> node_ptr \<Rightarrow> node_heap \<Rightarrow> (stop + node_ptr \<times> node_heap) option" where
  "delete2_loop node prev h =
     (case cn_next (h node) of
        None \<Rightarrow> Some (Inl Null_deref)
      | Some nxt \<Rightarrow>
          (case cas_prev h nxt (Some node) (Some prev) of (ok, h') \<Rightarrow>
             if ok then Some (Inr (nxt, h')) else delete2_loop node prev h'))"

definition run_loop :: "(stop + 'a) option \<Rightarrow> stop + 'a" where
  "run_loop r = (case r of None \<Rightarrow> Inl Spins | Some x \<Rightarrow> x)"

definition cap_node_delete2 :: "node_ptr \<Rightarrow> node_ptr \<Rightarrow> node_heap \<Rightarrow> stop + bool \<times> node_heap" where
  "cap_node_delete2 node prev h =
     (case cas_prev h node (Some prev) None of (ok, h1) \<Rightarrow>
        if \<not> ok then Inr (False, h1)
        else ebind (run_loop (delete2_loop node prev h1)) (\<lambda>(nxt, h2).
          Inr (True, set_next h2 prev (Some nxt))))"

partial_function (option) delete_loop ::
    "node_ptr \<Rightarrow> node_heap \<Rightarrow> (stop + bool \<times> node_heap) option" where
  "delete_loop node h =
     (case cn_prev (h node) of
        None \<Rightarrow> Some (Inr (False, h))
      | Some prev \<Rightarrow>
          (case cap_node_delete2 node prev h of
             Inl e \<Rightarrow> Some (Inl e)
           | Inr (ok, h') \<Rightarrow> if ok then Some (Inr (True, h')) else delete_loop node h'))"

definition cap_node_delete :: "node_ptr \<Rightarrow> node_heap \<Rightarrow> stop + bool \<times> node_heap" where
  "cap_node_delete node h = run_loop (delete_loop node h)"

text \<open>
  The loop of \<open>cap_node_insert\<close>, entered with the current \<open>next\<close>: \<open>while (prev->prev != NULL)\<close>.
\<close>

partial_function (option) insert_loop ::
    "node_ptr \<Rightarrow> node_ptr \<Rightarrow> node_ptr option \<Rightarrow> node_heap \<Rightarrow> (stop + bool \<times> node_heap) option" where
  "insert_loop node prev nxt h =
     (if cn_prev (h prev) = None then Some (Inr (False, h))
      else
        (let h1 = set_next h node nxt in
         case nxt of
           None \<Rightarrow> Some (Inl Null_deref)
         | Some n \<Rightarrow>
             (case cas_prev h1 n (Some prev) (Some node) of (ok, h2) \<Rightarrow>
                if ok then
                  (let h3 = set_next h2 prev (Some node); h4 = set_prev h3 node (Some prev)
                   in Some (Inr (True, h4)))
                else insert_loop node prev (cn_next (h2 prev)) h2)))"

definition cap_node_insert ::
    "cap_t \<Rightarrow> node_ptr \<Rightarrow> node_ptr \<Rightarrow> node_heap \<Rightarrow> stop + bool \<times> node_heap" where
  "cap_node_insert cap node prev h =
     ebind (kassert (cn_prev (h node) = None)) (\<lambda>_.
     let h1 = set_cap h node cap in run_loop (insert_loop node prev (cn_next (h1 prev)) h1))"

definition cap_node_move ::
    "cap_t \<Rightarrow> node_ptr \<Rightarrow> node_ptr \<Rightarrow> node_heap \<Rightarrow> stop + bool \<times> node_heap" where
  "cap_node_move cap src_node dest_node h =
     ebind (cap_node_insert cap dest_node src_node h) (\<lambda>(ok, h1).
     if ok then cap_node_delete src_node h1 else Inr (False, h1))"

lemma run_loop_simps [simp]:
  "run_loop None = Inl Spins"
  "run_loop (Some x) = x"
  by (simp_all add: run_loop_def)

lemma cas_prev_simps:
  "cn_prev (h n) = e \<Longrightarrow> cas_prev h n e d = (True, set_prev h n d)"
  "cn_prev (h n) \<noteq> e \<Longrightarrow> cas_prev h n e d = (False, h)"
  by (simp_all add: cas_prev_def)

section \<open>Linked neighbours\<close>

definition linked :: "node_heap \<Rightarrow> node_ptr \<Rightarrow> node_ptr \<Rightarrow> bool" where
  "linked h a b \<longleftrightarrow> cn_next (h a) = Some b \<and> cn_prev (h b) = Some a"

lemma linked_succ_unique: "linked h a b \<Longrightarrow> linked h a c \<Longrightarrow> b = c"
  by (simp add: linked_def)

lemma linked_pred_unique: "linked h a c \<Longrightarrow> linked h b c \<Longrightarrow> a = b"
  by (simp add: linked_def)

text \<open>The heaps the two operations leave behind.\<close>

definition heap_insert :: "cap_t \<Rightarrow> node_ptr \<Rightarrow> node_ptr \<Rightarrow> node_ptr \<Rightarrow> node_heap \<Rightarrow> node_heap" where
  "heap_insert cap node prev nxt h =
     set_prev (set_next (set_prev (set_next (set_cap h node cap) node (Some nxt))
       nxt (Some node)) prev (Some node)) node (Some prev)"

definition heap_delete :: "node_ptr \<Rightarrow> node_ptr \<Rightarrow> node_ptr \<Rightarrow> node_heap \<Rightarrow> node_heap" where
  "heap_delete node prev nxt h =
     set_next (set_prev (set_prev h node None) nxt (Some prev)) prev (Some nxt)"

lemma insert_runs:
  assumes "cn_prev (h node) = None" "linked h prev nxt" "cn_prev (h prev) \<noteq> None"
  shows "cap_node_insert cap node prev h = Inr (True, heap_insert cap node prev nxt h)"
proof -
  from assms have ne: "node \<noteq> prev" "node \<noteq> nxt" by (auto simp: linked_def)
  then show ?thesis
    using assms
    by (simp add: cap_node_insert_def insert_loop.simps linked_def cas_prev_simps heap_insert_def
        Let_def)
qed

lemma insert_deleted_parent:
  assumes "cn_prev (h node) = None" "cn_prev (h prev) = None"
  shows "cap_node_insert cap node prev h = Inr (False, set_cap h node cap)"
  using assms by (auto simp: cap_node_insert_def insert_loop.simps Let_def)

lemma insert_occupied: "cn_prev (h node) \<noteq> None \<Longrightarrow> cap_node_insert cap node prev h = Inl Assert_failed"
  by (cases "cn_prev (h node)") (simp_all add: cap_node_insert_def)

lemma delete2_runs:
  assumes "linked h prev node" "linked h node nxt" "nxt \<noteq> node"
  shows "cap_node_delete2 node prev h = Inr (True, heap_delete node prev nxt h)"
  using assms
  by (simp add: cap_node_delete2_def delete2_loop.simps linked_def cas_prev_simps heap_delete_def)

lemma delete2_not_next: "cn_prev (h node) \<noteq> Some prev \<Longrightarrow> cap_node_delete2 node prev h = Inr (False, h)"
  by (simp add: cap_node_delete2_def cas_prev_simps)

lemma delete_runs:
  assumes "linked h prev node" "linked h node nxt" "nxt \<noteq> node"
  shows "cap_node_delete node h = Inr (True, heap_delete node prev nxt h)"
  using delete2_runs [OF assms] assms(1)
  by (simp add: cap_node_delete_def delete_loop.simps linked_def)

lemma delete_deleted: "cn_prev (h node) = None \<Longrightarrow> cap_node_delete node h = Inr (False, h)"
  by (simp add: cap_node_delete_def delete_loop.simps)


section \<open>Rings\<close>

lemma successively_mono_ends:
  "successively P l \<Longrightarrow>
    (\<And>a b. a \<in> set (butlast l) \<Longrightarrow> b \<in> set (tl l) \<Longrightarrow> P a b \<Longrightarrow> Q a b) \<Longrightarrow> successively Q l"
proof (induction l)
  case Nil
  then show ?case by simp
next
  case (Cons x l)
  show ?case
  proof (cases l)
    case Nil
    then show ?thesis by simp
  next
    case (Cons y ys)
    have "successively Q l"
    proof (rule Cons.IH)
      show "successively P l" using Cons.prems(1) Cons by simp
      fix a b
      assume "a \<in> set (butlast l)" "b \<in> set (tl l)" "P a b"
      then show "Q a b" using Cons.prems(2) [of a b] Cons by auto
    qed
    moreover have "Q x y" using Cons.prems Cons by auto
    ultimately show ?thesis using Cons by simp
  qed
qed

definition ring :: "node_heap \<Rightarrow> node_ptr \<Rightarrow> node_ptr list \<Rightarrow> bool" where
  "ring h s xs \<longleftrightarrow> distinct (s # xs) \<and> successively (linked h) (s # xs @ [s])"

lemma ring_cong:
  assumes "ring h s xs"
    and "\<And>n. n \<in> set (s # xs) \<Longrightarrow> cn_prev (h' n) = cn_prev (h n) \<and> cn_next (h' n) = cn_next (h n)"
  shows "ring h' s xs"
proof -
  have "successively (linked h') (s # xs @ [s])"
    by (rule successively_mono_ends [where P = "linked h"])
      (use assms in \<open>auto simp: ring_def linked_def butlast_append\<close>)
  then show ?thesis using assms(1) by (simp add: ring_def)
qed

text \<open>A ring cut open after one of its nodes.\<close>

lemma ring_split:
  assumes "ring h s xs" "p \<in> set (s # xs)"
  obtains us m vs where "s # xs @ [s] = us @ p # m # vs" "linked h p m"
    "successively (linked h) (us @ [p])" "successively (linked h) (m # vs)"
    "distinct (us @ p # butlast (m # vs))" "distinct (tl (us @ [p]) @ m # vs)"
proof -
  obtain us ws where uw: "s # xs = us @ p # ws"
    using assms(2) by (metis split_list)
  then have l: "s # xs @ [s] = us @ p # (ws @ [s])" by (metis append_Cons append_assoc)
  obtain m vs where mv: "ws @ [s] = m # vs" by (cases "ws @ [s]") auto
  have succ: "successively (linked h) (us @ p # m # vs)"
    using assms(1) l mv by (simp add: ring_def)
  have bl: "butlast (m # vs) = ws" by (metis butlast_snoc mv)
  have "distinct (us @ p # butlast (m # vs))"
    using assms(1) uw unfolding bl ring_def by metis
  moreover have "distinct (tl (us @ [p]) @ m # vs)"
  proof (cases us)
    case Nil
    have "distinct (ws @ [s])" using assms(1) uw Nil by (auto simp: ring_def)
    then have "distinct (m # vs)" unfolding mv .
    then show ?thesis using Nil by simp
  next
    case (Cons a us')
    have "xs @ [s] = us' @ p # m # vs" "distinct (xs @ [s])"
      using l mv Cons assms(1) by (auto simp: ring_def)
    then show ?thesis using Cons by simp
  qed
  ultimately show ?thesis
    using that [of us m vs] l mv succ
    by (auto simp: successively_append_iff successively_Cons)
qed

text \<open>The node before a node of the ring that is not the sentinel.\<close>

lemma ring_split_before:
  assumes "ring h s xs" "n \<in> set xs"
  obtains us p m vs where "s # xs = us @ p # n # vs" "linked h p n" "linked h n m"
    "m \<noteq> n" "p \<noteq> n" "m \<in> set (s # xs)"
proof -
  obtain us vs where "xs = us @ n # vs" using assms(2) by (metis split_list)
  then obtain us' p where up: "s # us = us' @ [p]" by (metis rev_exhaust list.distinct(1))
  then have l: "s # xs = us' @ p # n # vs"
    using \<open>xs = us @ n # vs\<close> by (metis append_Cons append_assoc append_Nil)
  then have l2: "s # xs @ [s] = us' @ p # n # (vs @ [s])"
    by (metis append_Cons append_assoc)
  obtain m ws where mw: "vs @ [s] = m # ws" by (cases "vs @ [s]") auto
  have succ: "successively (linked h) (us' @ p # n # m # ws)"
    using assms(1) l2 mw by (simp add: ring_def)
  have d: "distinct (us' @ p # n # vs)" using assms(1) l by (metis ring_def)
  note sl = arg_cong [OF l, of set]
  have msv: "m \<in> insert s (set vs)" using mw by (cases vs) auto
  then have sm: "m \<in> set (s # xs)" using sl by auto
  have "n \<noteq> s" using assms by (auto simp: ring_def)
  then have "m \<noteq> n" using msv d by auto
  moreover have "p \<noteq> n" using d by auto
  ultimately show ?thesis
    using that [of us' p vs m] l succ sm
    by (auto simp: successively_append_iff successively_Cons)
qed


fun insert_after :: "'a \<Rightarrow> 'a \<Rightarrow> 'a list \<Rightarrow> 'a list" where
  "insert_after p n [] = []"
| "insert_after p n (x # xs) = (if x = p then x # n # xs else x # insert_after p n xs)"

lemma insert_after_split: "p \<notin> set us \<Longrightarrow> insert_after p n (us @ p # ws) = us @ p # n # ws"
  by (induction us) auto

lemma set_insert_after: "p \<in> set xs \<Longrightarrow> set (insert_after p n xs) = insert n (set xs)"
  by (induction xs) auto

lemma insert_after_Cons: "xs \<noteq> [] \<Longrightarrow> insert_after p n xs = hd xs # tl (insert_after p n xs)"
  by (cases xs) auto

lemma linked_heap_insert:
  "linked h a b \<Longrightarrow> a \<noteq> p \<Longrightarrow> a \<noteq> node \<Longrightarrow> b \<noteq> nxt \<Longrightarrow> b \<noteq> node \<Longrightarrow>
    linked (heap_insert cap node p nxt h) a b"
  by (auto simp: linked_def heap_insert_def)

lemma linked_heap_insert_new:
  "node \<noteq> p \<Longrightarrow> node \<noteq> nxt \<Longrightarrow> linked (heap_insert cap node p nxt h) p node"
  "node \<noteq> p \<Longrightarrow> node \<noteq> nxt \<Longrightarrow> linked (heap_insert cap node p nxt h) node nxt"
  by (auto simp: linked_def heap_insert_def)

lemma linked_heap_delete:
  "linked h a b \<Longrightarrow> a \<noteq> p \<Longrightarrow> b \<noteq> m \<Longrightarrow> b \<noteq> n \<Longrightarrow> linked (heap_delete n p m h) a b"
  by (auto simp: linked_def heap_delete_def)

lemma linked_heap_delete_new: "linked (heap_delete n p m h) p m"
  by (auto simp: linked_def heap_delete_def)

lemma ring_insert:
  assumes r: "ring h s xs" and p: "p \<in> set (s # xs)" and n: "node \<notin> set (s # xs)"
    and l: "linked h p nxt"
  shows "ring (heap_insert cap node p nxt h) s (tl (insert_after p node (s # xs)))"
proof -
  obtain us m vs where c: "s # xs @ [s] = us @ p # m # vs" "linked h p m"
    "successively (linked h) (us @ [p])" "successively (linked h) (m # vs)"
    "distinct (us @ p # butlast (m # vs))" "distinct (tl (us @ [p]) @ m # vs)"
    using ring_split [OF r p] .
  have m: "m = nxt" using linked_succ_unique [OF c(2) l] .
  let ?h = "heap_insert cap node p nxt h"
  have sx: "s # xs = us @ p # butlast (m # vs)"
    using arg_cong [OF c(1), of butlast] by (simp add: butlast_append)
  have "last (m # vs) = last (us @ p # m # vs)" by simp
  also have "\<dots> = s" unfolding c(1) [symmetric] by simp
  finally have last: "butlast (m # vs) @ [s] = m # vs"
    using append_butlast_last_id [of "m # vs"] by simp
  have ia: "s # tl (insert_after p node (s # xs)) = us @ p # node # butlast (m # vs)"
  proof -
    have "p \<notin> set us" using c(5) by simp
    then have "insert_after p node (s # xs) = us @ p # node # butlast (m # vs)"
      unfolding sx by (rule insert_after_split)
    then show ?thesis by (metis insert_after_Cons list.distinct(1) list.sel(1))
  qed
  have "node \<notin> set (s # xs @ [s])" using n by simp
  then have nn: "node \<noteq> p" "node \<noteq> nxt" "node \<notin> set us" "node \<notin> set (m # vs)"
    unfolding c(1) by (simp_all add: m)
  have "successively (linked ?h) (us @ [p])"
    by (rule successively_mono_ends [OF c(3)], rule linked_heap_insert)
      (use c(5,6) nn m in \<open>auto simp: butlast_append dest: in_set_tlD\<close>)
  moreover have "successively (linked ?h) (m # vs)"
    by (rule successively_mono_ends [OF c(4)], rule linked_heap_insert)
      (use c(5,6) nn m in \<open>auto split: if_splits dest: in_set_butlastD\<close>)
  ultimately have "successively (linked ?h) (us @ p # node # m # vs)"
    using linked_heap_insert_new [of node p nxt cap h] nn(1,2) m
    by (simp add: successively_append_iff successively_Cons)
  then have "successively (linked ?h) (s # tl (insert_after p node (s # xs)) @ [s])"
    using ia last by (metis append_Cons append_assoc)
  moreover have "distinct (s # tl (insert_after p node (s # xs)))"
    using c(5) nn unfolding ia by (auto dest: in_set_butlastD)
  ultimately show ?thesis by (simp add: ring_def)
qed

lemma ring_delete:
  assumes r: "ring h s xs" and n: "n \<in> set xs" and l: "linked h p n" "linked h n m"
  shows "ring (heap_delete n p m h) s (remove1 n xs)"
proof -
  have ns: "n \<noteq> s" using r n by (auto simp: ring_def)
  obtain us m' vs where c: "s # xs @ [s] = us @ n # m' # vs" "linked h n m'"
    "successively (linked h) (us @ [n])" "successively (linked h) (m' # vs)"
    "distinct (us @ n # butlast (m' # vs))" "distinct (tl (us @ [n]) @ m' # vs)"
    using ring_split [OF r, of n] n by auto
  have m: "m' = m" using linked_succ_unique [OF c(2) l(2)] .
  obtain us' q where us: "us = us' @ [q]"
    using c(1) ns by (cases us rule: rev_cases) auto
  have q: "q = p"
    using c(3) us l(1) by (auto simp: successively_append_iff dest: linked_pred_unique)
  let ?h = "heap_delete n p m h"
  have sx: "s # xs = us @ n # butlast (m' # vs)"
    using arg_cong [OF c(1), of butlast] by (simp add: butlast_append)
  have "last (m' # vs) = last (us @ n # m' # vs)" by simp
  also have "\<dots> = s" unfolding c(1) [symmetric] by simp
  finally have last: "butlast (m' # vs) @ [s] = m' # vs"
    using append_butlast_last_id [of "m' # vs"] by simp
  have rm: "s # remove1 n xs = us @ butlast (m' # vs)"
    using arg_cong [OF sx, of "remove1 n"] c(5) ns by (simp add: remove1_append)
  have "successively (linked h) us" using c(3) by (simp add: successively_append_iff)
  then have "successively (linked ?h) us"
  proof (rule successively_mono_ends)
    fix a b
    assume ab: "a \<in> set (butlast us)" "b \<in> set (tl us)" "linked h a b"
    have "a \<noteq> p" using ab(1) c(5) us q by auto
    moreover have "b \<noteq> m" "b \<noteq> n"
      using ab(2) c(5,6) m us by (auto simp: tl_append split: list.splits dest: in_set_tlD)
    ultimately show "linked ?h a b" using ab(3) by (intro linked_heap_delete)
  qed
  moreover have "successively (linked ?h) (m' # vs)"
  proof (rule successively_mono_ends [OF c(4)])
    fix a b
    assume ab: "a \<in> set (butlast (m' # vs))" "b \<in> set (tl (m' # vs))" "linked h a b"
    have "a \<noteq> p" using ab(1) c(5) us q by auto
    moreover have "b \<noteq> m" using ab(2) c(6) m by auto
    moreover have "b \<noteq> n"
    proof
      assume "b = n"
      then have "a = p" using ab(3) l(1) linked_pred_unique by blast
      then show False using \<open>a \<noteq> p\<close> by simp
    qed
    ultimately show "linked ?h a b" using ab(3) by (intro linked_heap_delete)
  qed
  ultimately have "successively (linked ?h) (us @ m' # vs)"
    using linked_heap_delete_new [of n p m h] us q m
    by (simp add: successively_append_iff successively_Cons)
  then have "successively (linked ?h) (s # remove1 n xs @ [s])"
    using rm last by (metis append_Cons append_assoc)
  moreover have "distinct (s # remove1 n xs)"
    using r by (auto simp: ring_def dest: notin_set_remove1)
  ultimately show ?thesis by (simp add: ring_def)
qed


section \<open>Refinement: one list of slots per sentinel\<close>

type_synonym cap_lists = "sentinel \<Rightarrow> node_ptr list"

fun is_slot :: "node_ptr \<Rightarrow> bool" where
  "is_slot (Slot i j) = True"
| "is_slot (Sentinel k) = False"

definition rep :: "node_heap \<Rightarrow> cap_lists \<Rightarrow> bool" where
  "rep h L \<longleftrightarrow>
     (\<forall>k. ring h (Sentinel k) (L k)) \<and>
     (\<forall>k. \<forall>n \<in> set (L k). is_slot n) \<and>
     (\<forall>k k'. k \<noteq> k' \<longrightarrow> set (L k) \<inter> set (L k') = {}) \<and>
     (\<forall>n. is_slot n \<longrightarrow> cn_prev (h n) \<noteq> None \<longrightarrow> (\<exists>k. n \<in> set (L k)))"

lemma ring_live: "ring h s xs \<Longrightarrow> n \<in> set (s # xs) \<Longrightarrow> cn_prev (h n) \<noteq> None"
proof -
  assume r: "ring h s xs" and n: "n \<in> set (s # xs)"
  show ?thesis
  proof (cases "n = s")
    case True
    obtain us p where "s # xs = us @ [p]" by (metis list.distinct(1) rev_exhaust)
    then have "successively (linked h) (us @ p # [s])"
      using r unfolding ring_def by (metis append_Cons append_assoc append_Nil)
    then show ?thesis using True by (auto simp: successively_append_iff linked_def)
  next
    case False
    with n have "n \<in> set xs" by simp
    then show ?thesis using ring_split_before [OF r, of n] by (auto simp: linked_def)
  qed
qed

lemma rep_live: "rep h L \<Longrightarrow> is_slot n \<Longrightarrow> cn_prev (h n) \<noteq> None \<longleftrightarrow> (\<exists>k. n \<in> set (L k))"
  using ring_live by (auto simp: rep_def) (metis list.set_intros(2) option.distinct(1))

lemma repD:
  assumes "rep h L"
  shows "ring h (Sentinel k) (L k)" "n \<in> set (L k) \<Longrightarrow> is_slot n"
    "k \<noteq> k' \<Longrightarrow> set (L k) \<inter> set (L k') = {}"
    "is_slot n \<Longrightarrow> cn_prev (h n) \<noteq> None \<Longrightarrow> \<exists>k. n \<in> set (L k)"
  using assms unfolding rep_def by blast+

lemma repI:
  assumes "\<And>k. ring h (Sentinel k) (L k)" "\<And>k n. n \<in> set (L k) \<Longrightarrow> is_slot n"
    "\<And>k k'. k \<noteq> k' \<Longrightarrow> set (L k) \<inter> set (L k') = {}"
    "\<And>n. is_slot n \<Longrightarrow> cn_prev (h n) \<noteq> None \<Longrightarrow> \<exists>k. n \<in> set (L k)"
  shows "rep h L"
  using assms unfolding rep_def by blast

lemma rep_set_cap: "rep h L \<Longrightarrow> rep (set_cap h n c) L"
proof -
  assume r: "rep h L"
  then have "ring (set_cap h n c) (Sentinel k) (L k)" for k
    by (auto simp: rep_def intro: ring_cong)
  with r show ?thesis by (simp add: rep_def)
qed

lemma heap_insert_frame:
  "x \<noteq> node \<Longrightarrow> x \<noteq> p \<Longrightarrow> x \<noteq> nxt \<Longrightarrow> heap_insert cap node p nxt h x = h x"
  by (simp add: heap_insert_def)

lemma heap_delete_frame: "x \<noteq> n \<Longrightarrow> x \<noteq> p \<Longrightarrow> x \<noteq> m \<Longrightarrow> heap_delete n p m h x = h x"
  by (simp add: heap_delete_def)

lemma heap_insert_live:
  "cn_prev (h nxt) \<noteq> None \<Longrightarrow>
    cn_prev (heap_insert cap node p nxt h x) \<noteq> None \<longleftrightarrow> x = node \<or> cn_prev (h x) \<noteq> None"
  by (auto simp: heap_insert_def)

lemma heap_insert_cap: "cn_cap (heap_insert cap node p nxt h x) = (if x = node then cap else cn_cap (h x))"
  by (simp add: heap_insert_def)

lemma heap_delete_live:
  "cn_prev (h m) \<noteq> None \<Longrightarrow> m \<noteq> n \<Longrightarrow>
    cn_prev (heap_delete n p m h x) \<noteq> None \<longleftrightarrow> x \<noteq> n \<and> cn_prev (h x) \<noteq> None"
  by (auto simp: heap_delete_def)

lemma heap_delete_cap: "cn_cap (heap_delete n p m h x) = cn_cap (h x)"
  by (simp add: heap_delete_def)

text \<open>Two nodes linked to each other lie on the same ring.\<close>

lemma ring_next_mem: "ring h s xs \<Longrightarrow> p \<in> set (s # xs) \<Longrightarrow> linked h p m \<Longrightarrow> m \<in> set (s # xs)"
proof -
  assume r: "ring h s xs" and p: "p \<in> set (s # xs)" and l: "linked h p m"
  obtain us m' vs where c: "s # xs @ [s] = us @ p # m' # vs" "linked h p m'"
    using ring_split [OF r p] .
  have "m' \<in> set (us @ p # m' # vs)" by simp
  then have "m' \<in> set (s # xs @ [s])" unfolding c(1) .
  moreover have "m' = m" using linked_succ_unique [OF c(2) l] .
  ultimately show ?thesis by auto
qed

lemma rep_other_ring:
  assumes "rep h L" "x \<in> set (Sentinel k # L k)" "k' \<noteq> k"
  shows "x \<notin> set (Sentinel k' # L k')"
proof (cases x)
  case (Slot i j)
  have "set (L k) \<inter> set (L k') = {}" using assms(1,3) unfolding rep_def by metis
  then show ?thesis using Slot assms(2) by auto
next
  case (Sentinel l)
  then have "l = k" using assms by (fastforce simp: rep_def)
  then show ?thesis using Sentinel assms by (fastforce simp: rep_def)
qed

lemma rep_insert:
  assumes r: "rep h L" and p: "p \<in> set (Sentinel k # L k)" and n: "is_slot node" "cn_prev (h node) = None"
    and l: "linked h p nxt"
  shows "rep (heap_insert cap node p nxt h)
    (L(k := tl (insert_after p node (Sentinel k # L k))))"
proof -
  let ?h = "heap_insert cap node p nxt h"
  define xs where "xs = tl (insert_after p node (Sentinel k # L k))"
  have rk: "ring h (Sentinel k') (L k')" for k' using r by (simp add: rep_def)
  have fresh: "node \<notin> set (Sentinel k' # L k')" for k'
    using ring_live [OF rk] n(2) by blast
  have nk: "nxt \<in> set (Sentinel k # L k)" using ring_next_mem [OF rk p l] .
  have rings: "ring ?h (Sentinel k') ((L(k := xs)) k')" for k'
  proof (cases "k' = k")
    case True
    then show ?thesis using ring_insert [OF rk p fresh l] by (simp add: xs_def)
  next
    case False
    have "ring ?h (Sentinel k') (L k')"
    proof (rule ring_cong [OF rk])
      fix x
      assume "x \<in> set (Sentinel k' # L k')"
      moreover from this have "x \<noteq> node" using fresh by blast
      ultimately have "x \<noteq> p" "x \<noteq> nxt" "x \<noteq> node"
        using rep_other_ring [OF r p False] rep_other_ring [OF r nk False] by auto
      then show "cn_prev (?h x) = cn_prev (h x) \<and> cn_next (?h x) = cn_next (h x)"
        by (simp add: heap_insert_frame)
    qed
    then show ?thesis using False by simp
  qed
  have "Sentinel k # xs = insert_after p node (Sentinel k # L k)" by (simp add: xs_def)
  then have "set (Sentinel k # xs) = insert node (set (Sentinel k # L k))"
    using set_insert_after [OF p] by metis
  moreover have "Sentinel k \<notin> set xs"
    using rings [of k] by (auto simp: ring_def)
  moreover have "Sentinel k \<notin> set (L k)" using rk [of k] by (auto simp: ring_def)
  moreover have "node \<noteq> Sentinel k" using n(1) by auto
  ultimately have sx: "set xs = insert node (set (L k))"
    by (metis Diff_insert_absorb insert_Diff_if list.simps(15) singletonD)
  have ls: "set ((L(k := xs)) k') = (if k' = k then insert node (set (L k)) else set (L k'))" for k'
    using sx by simp
  have lv: "cn_prev (h nxt) \<noteq> None" using l by (simp add: linked_def)
  have dj: "set (L a) \<inter> set (L b) = {}" if "a \<noteq> b" for a b using repD(3) [OF r that] .
  have fr: "node \<notin> set (L a)" for a using fresh [of a] by simp
  show ?thesis
    unfolding xs_def [symmetric]
  proof (rule repI)
    show "ring ?h (Sentinel k') ((L(k := xs)) k')" for k' by (rule rings)
    show "is_slot x" if "x \<in> set ((L(k := xs)) k')" for k' x
      using that n(1) repD(2) [OF r, of x] unfolding ls by (auto split: if_splits)
    show "set ((L(k := xs)) a) \<inter> set ((L(k := xs)) b) = {}" if "a \<noteq> b" for a b
      unfolding ls using that dj [of a b] fr [of a] fr [of b] by (auto split: if_splits)
    show "\<exists>k'. x \<in> set ((L(k := xs)) k')" if "is_slot x" "cn_prev (?h x) \<noteq> None" for x
    proof (cases "x = node")
      case True
      then show ?thesis by (intro exI [of _ k]) (simp add: sx)
    next
      case False
      then have "cn_prev (h x) \<noteq> None" using that(2) heap_insert_live [where h = h, OF lv] by blast
      then have "\<exists>k'. x \<in> set (L k')" using repD(4) [OF r that(1)] by blast
      then show ?thesis unfolding ls by auto
    qed
  qed
qed

lemma rep_delete:
  assumes r: "rep h L" and n: "n \<in> set (L k)" and l: "linked h p n" "linked h n m"
  shows "rep (heap_delete n p m h) (L(k := remove1 n (L k)))"
proof -
  let ?h = "heap_delete n p m h"
  have rk: "ring h (Sentinel k') (L k')" for k' using r by (simp add: rep_def)
  have nk: "n \<in> set (Sentinel k # L k)" using n by simp
  obtain us p' m' vs where b: "Sentinel k # L k = us @ p' # n # vs" "linked h p' n" "linked h n m'"
    "m' \<noteq> n" "m' \<in> set (Sentinel k # L k)"
    using ring_split_before [OF rk n] .
  have pm: "p' = p" "m' = m"
    using b(2,3) l linked_succ_unique linked_pred_unique by blast+
  have "p' \<in> set (Sentinel k # L k)" unfolding b(1) by simp
  then have pk: "p \<in> set (Sentinel k # L k)" unfolding pm(1) .
  have mk: "m \<in> set (Sentinel k # L k)" "m \<noteq> n" using b(4,5) pm by simp_all
  have rings: "ring ?h (Sentinel k') ((L(k := remove1 n (L k))) k')" for k'
  proof (cases "k' = k")
    case True
    then show ?thesis using ring_delete [OF rk n l] by simp
  next
    case False
    have "ring ?h (Sentinel k') (L k')"
    proof (rule ring_cong [OF rk])
      fix x
      assume "x \<in> set (Sentinel k' # L k')"
      then have "x \<noteq> p" "x \<noteq> m" "x \<noteq> n"
        using rep_other_ring [OF r _ False] pk mk(1) nk by auto
      then show "cn_prev (?h x) = cn_prev (h x) \<and> cn_next (?h x) = cn_next (h x)"
        by (simp add: heap_delete_frame)
    qed
    then show ?thesis using False by simp
  qed
  have "distinct (L k)" using rk [of k] by (simp add: ring_def)
  moreover have "n \<notin> set (L k')" if "k' \<noteq> k" for k'
    using rep_other_ring [OF r nk that] by simp
  ultimately have ls: "set ((L(k := remove1 n (L k))) k') = set (L k') - {n}" for k'
    by auto
  have lv: "cn_prev (h m) \<noteq> None" using l by (simp add: linked_def)
  show ?thesis
  proof (rule repI)
    show "ring ?h (Sentinel k') ((L(k := remove1 n (L k))) k')" for k' by (rule rings)
    show "is_slot x" if "x \<in> set ((L(k := remove1 n (L k))) k')" for k' x
      using that repD(2) [OF r, of x] unfolding ls by blast
    show "set ((L(k := remove1 n (L k))) a) \<inter> set ((L(k := remove1 n (L k))) b) = {}"
      if "a \<noteq> b" for a b
      unfolding ls using repD(3) [OF r that] by blast
    show "\<exists>k'. x \<in> set ((L(k := remove1 n (L k))) k')"
      if "is_slot x" "cn_prev (?h x) \<noteq> None" for x
    proof -
      have "x \<noteq> n" "cn_prev (h x) \<noteq> None"
        using that(2) heap_delete_live [where h = h, OF lv mk(2)] by blast+
      then show ?thesis unfolding ls using repD(4) [OF r that(1)] by blast
    qed
  qed
qed

section \<open>What the rest of the kernel sees\<close>

text \<open>
  Well-linked heaps, without naming the lists. On such a heap the operations run to the end:
  the compare-and-sets succeed at the first try and no pointer followed is null.
\<close>

definition nodes_ok :: "node_heap \<Rightarrow> bool" where
  "nodes_ok h \<longleftrightarrow> (\<exists>L. rep h L)"

definition node_live :: "node_heap \<Rightarrow> node_ptr \<Rightarrow> bool" where
  "node_live h n \<longleftrightarrow> cn_prev (h n) \<noteq> None"

lemma node_live_deleted: "cap_node_is_deleted h n \<longleftrightarrow> \<not> node_live h n"
  by (simp add: cap_node_is_deleted_def node_live_def)

lemma get_cap_live: "node_live h n \<Longrightarrow> cap_node_get_cap h n = cn_cap (h n)"
  "\<not> node_live h n \<Longrightarrow> cap_node_get_cap h n = NULL_CAP"
  by (simp_all add: cap_node_get_cap_def node_live_deleted)

text \<open>A live slot has live neighbours on its ring.\<close>

lemma rep_next:
  assumes "rep h L" "is_slot n" "node_live h n"
  obtains k p m where "n \<in> set (L k)" "linked h p n" "linked h n m" "m \<noteq> n"
    "m \<in> set (Sentinel k # L k)"
proof -
  obtain k where k: "n \<in> set (L k)"
    using repD(4) [OF assms(1,2)] assms(3) by (auto simp: node_live_def)
  from ring_split_before [OF repD(1) [OF assms(1)] k] show ?thesis
    using that k by metis
qed

lemma rep_insert_effect:
  assumes "rep h L" "is_slot prev" "is_slot node" "node_live h prev" "\<not> node_live h node"
  shows "\<exists>k m L'. prev \<in> set (L k) \<and> rep (heap_insert cap node prev m h) L' \<and> node_live h m \<and>
    cap_node_insert cap node prev h = Inr (True, heap_insert cap node prev m h) \<and>
    L' = L(k := tl (insert_after prev node (Sentinel k # L k)))"
proof -
  obtain k p m where k: "prev \<in> set (L k)" "linked h prev m" "m \<in> set (Sentinel k # L k)"
    using rep_next [OF assms(1,2,4)] by metis
  have dead: "cn_prev (h node) = None" using assms(5) by (simp add: node_live_def)
  have "prev \<in> set (Sentinel k # L k)" using k(1) by simp
  from rep_insert [OF assms(1) this assms(3) dead k(2)]
  have "rep (heap_insert cap node prev m h) (L(k := tl (insert_after prev node (Sentinel k # L k))))" .
  moreover have "node_live h m"
    using ring_live [OF repD(1) [OF assms(1)] k(3)] by (simp add: node_live_def)
  moreover have "cn_prev (h prev) \<noteq> None" using assms(4) by (simp add: node_live_def)
  from insert_runs [OF dead k(2) this]
  have "cap_node_insert cap node prev h = Inr (True, heap_insert cap node prev m h)" .
  ultimately show ?thesis using k(1) by blast
qed

lemma rep_delete_effect:
  assumes "rep h L" "is_slot n" "node_live h n"
  shows "\<exists>k p m. n \<in> set (L k) \<and> rep (heap_delete n p m h) (L(k := remove1 n (L k))) \<and>
    node_live h m \<and> m \<noteq> n \<and> cap_node_delete n h = Inr (True, heap_delete n p m h)"
proof -
  obtain k p m where k: "n \<in> set (L k)" "linked h p n" "linked h n m" "m \<noteq> n"
    "m \<in> set (Sentinel k # L k)"
    using rep_next [OF assms] by metis
  from rep_delete [OF assms(1) k(1-3)] delete_runs [OF k(2-4)]
    ring_live [OF repD(1) [OF assms(1)] k(5)] k(1,4)
  show ?thesis by (auto simp: node_live_def)
qed

locale cap_store =
  fixes ok :: "'h \<Rightarrow> bool" and live :: "'h \<Rightarrow> 'n \<Rightarrow> bool" and raw :: "'h \<Rightarrow> 'n \<Rightarrow> cap_t"
    and slot :: "'n \<Rightarrow> bool"
    and ins :: "cap_t \<Rightarrow> 'n \<Rightarrow> 'n \<Rightarrow> 'h \<Rightarrow> stop + bool \<times> 'h"
    and del :: "'n \<Rightarrow> 'h \<Rightarrow> stop + bool \<times> 'h" and upd :: "'h \<Rightarrow> 'n \<Rightarrow> cap_t \<Rightarrow> 'h"
  assumes ins_live: "ok h \<Longrightarrow> slot p \<Longrightarrow> slot n \<Longrightarrow> live h p \<Longrightarrow> \<not> live h n \<Longrightarrow>
      \<exists>h'. ins c n p h = Inr (True, h') \<and> ok h' \<and> (\<forall>x. live h' x \<longleftrightarrow> x = n \<or> live h x) \<and>
        (\<forall>x. raw h' x = (if x = n then c else raw h x))"
    and del_live: "ok h \<Longrightarrow> slot n \<Longrightarrow> live h n \<Longrightarrow>
      \<exists>h'. del n h = Inr (True, h') \<and> ok h' \<and> (\<forall>x. live h' x \<longleftrightarrow> x \<noteq> n \<and> live h x) \<and>
        (\<forall>x. raw h' x = raw h x)"
    and del_dead: "\<not> live h n \<Longrightarrow> del n h = Inr (False, h)"
    and upd_ok: "ok h \<Longrightarrow> ok (upd h n c)"
    and upd_live: "live (upd h n c) x \<longleftrightarrow> live h x"
    and upd_raw: "raw (upd h n c) x = (if x = n then c else raw h x)"
begin

text \<open>Moving a capability empties its slot and fills the other.\<close>

lemma move_effect:
  assumes "ok h" "slot s" "slot d" "live h s" "\<not> live h d"
  shows "\<exists>h'. ebind (ins c d s h) (\<lambda>(b, h1). if b then del s h1 else Inr (False, h1)) = Inr (True, h') \<and>
    ok h' \<and> (\<forall>x. live h' x \<longleftrightarrow> x \<noteq> s \<and> (x = d \<or> live h x)) \<and>
    (\<forall>x. raw h' x = (if x = d then c else raw h x))"
proof -
  obtain h1 where h1: "ins c d s h = Inr (True, h1)" "ok h1" "\<And>x. live h1 x \<longleftrightarrow> x = d \<or> live h x"
    "\<And>x. raw h1 x = (if x = d then c else raw h x)"
    using ins_live [OF assms] by blast
  then have "live h1 s" using assms(4) by simp
  from del_live [OF h1(2) assms(2) this] obtain h' where "del s h1 = Inr (True, h')" "ok h'"
    "\<And>x. live h' x \<longleftrightarrow> x \<noteq> s \<and> live h1 x" "\<And>x. raw h' x = raw h1 x"
    by blast
  then show ?thesis using h1 by auto
qed

text \<open>Narrowing the parent and inserting the child after it.\<close>

lemma derive_effect:
  assumes "ok h" "slot p" "slot n" "live h p" "\<not> live h n"
  shows "\<exists>h'. ins c n p (upd h p p') = Inr (True, h') \<and> ok h' \<and>
    (\<forall>x. live h' x \<longleftrightarrow> x = n \<or> live h x) \<and>
    (\<forall>x. raw h' x = (if x = n then c else if x = p then p' else raw h x))"
  using ins_live [OF upd_ok [OF assms(1)] assms(2,3), of p p' c] assms(4,5)
  by (auto simp: upd_live upd_raw)

end

interpretation cs: cap_store nodes_ok node_live "\<lambda>h n. cn_cap (h n)" is_slot cap_node_insert
  cap_node_delete "\<lambda>h n c. set_cap h n c"
proof
  fix h p n c
  assume "nodes_ok h" "is_slot p" "is_slot n" "node_live h p" "\<not> node_live h n"
  then obtain m L' where "rep (heap_insert c n p m h) L'" "node_live h m"
    "cap_node_insert c n p h = Inr (True, heap_insert c n p m h)"
    using rep_insert_effect unfolding nodes_ok_def by metis
  then show "\<exists>h'. cap_node_insert c n p h = Inr (True, h') \<and> nodes_ok h' \<and>
    (\<forall>x. node_live h' x \<longleftrightarrow> x = n \<or> node_live h x) \<and>
    (\<forall>x. cn_cap (h' x) = (if x = n then c else cn_cap (h x)))"
    using heap_insert_live [of h m c n p] heap_insert_cap [of c n p m h]
    unfolding nodes_ok_def node_live_def by blast
next
  fix h n
  assume "nodes_ok h" "is_slot n" "node_live h n"
  then obtain p m L' where "rep (heap_delete n p m h) L'" "node_live h m" "m \<noteq> n"
    "cap_node_delete n h = Inr (True, heap_delete n p m h)"
    using rep_delete_effect unfolding nodes_ok_def by metis
  then show "\<exists>h'. cap_node_delete n h = Inr (True, h') \<and> nodes_ok h' \<and>
    (\<forall>x. node_live h' x \<longleftrightarrow> x \<noteq> n \<and> node_live h x) \<and> (\<forall>x. cn_cap (h' x) = cn_cap (h x))"
    using heap_delete_live [of h m n p] heap_delete_cap [of n p m h]
    unfolding nodes_ok_def node_live_def by blast
next
  fix h n c x
  show "nodes_ok h \<Longrightarrow> nodes_ok (set_cap h n c)" by (auto simp: nodes_ok_def intro: rep_set_cap)
  show "node_live (set_cap h n c) x \<longleftrightarrow> node_live h x" by (simp add: node_live_def)
  show "cn_cap (set_cap h n c x) = (if x = n then c else cn_cap (h x))" by simp
  show "\<not> node_live h n \<Longrightarrow> cap_node_delete n h = Inr (False, h)"
    by (simp add: node_live_def delete_deleted)
qed

end
