(* ===== verification/ProcState.thy ===== *)
theory ProcState
  imports Atomic
begin

text \<open>
  The life cycle of a process (\<open>inc/proc_state.h\<close>): each operation as a function of the
  state word \<open>proc->state\<close>, giving its result and the word it leaves. A state is one of
  the values of \<open>proc_state\<close>, a waiting or receiving process carrying its channel in the
  top 16 bits. The locale \<open>ownership\<close> is what a hart, a supervisor and a sender each rely on
  while they hold a process. \<open>pstep\<close> interleaves their operations; \<open>owned\<close> is the ownership
  discipline it keeps, and \<open>race\<close> adds the window the code leaves between the two halves of
  a blocking call, where the discipline breaks.
\<close>

section \<open>The operations on a state word\<close>

definition proc_release :: "u64 \<Rightarrow> u64" where
  "proc_release state =
     (if state AND pstate PROC_STATE_WAITING = 0
      then snd (fetch_and_and state (pstate PROC_STATE_SUSPENDED)) else state)"

definition proc_acquire :: "u64 \<Rightarrow> bool \<times> u64" where
  "proc_acquire state =
     compare_and_set state (pstate PROC_STATE_READY) (pstate PROC_STATE_RUNNING)"

definition proc_is_suspended :: "u64 \<Rightarrow> bool" where
  "proc_is_suspended state \<longleftrightarrow> state AND pstate PROC_STATE_SUSPENDED \<noteq> 0"

definition proc_supervisor_acquire :: "u64 \<Rightarrow> bool \<times> u64" where
  "proc_supervisor_acquire state =
     compare_and_set state (pstate PROC_STATE_SUSPENDED) (pstate PROC_STATE_SUSPENDED_BUSY)"

definition proc_supervisor_release :: "u64 \<Rightarrow> stop + u64" where
  "proc_supervisor_release state =
     ebind (kassert (state = pstate PROC_STATE_SUSPENDED_BUSY)) (\<lambda>_.
     Inr (pstate PROC_STATE_SUSPENDED))"

definition proc_supervisor_resume :: "u64 \<Rightarrow> bool \<times> u64" where
  "proc_supervisor_resume state =
     (case proc_supervisor_acquire state of (ok, state') \<Rightarrow>
        if ok then (True, pstate PROC_STATE_READY) else (False, state'))"

definition proc_supervisor_suspend :: "u64 \<Rightarrow> bool \<times> u64" where
  "proc_supervisor_suspend state0 =
     (let (state, word) = fetch_and_or state0 (pstate PROC_STATE_SUSPENDED)
      in if state AND pstate PROC_STATE_SUSPENDED \<noteq> 0 then (False, word)
         else if state AND 0x7 = pstate PROC_STATE_WAITING then (True, pstate PROC_STATE_SUSPENDED)
         else (True, word))"

text \<open>\<open>channel << 48 | s\<close>, and the same with the reply flag in the top bit.\<close>

definition on_channel :: "u64 \<Rightarrow> proc_state \<Rightarrow> u64" where
  "on_channel channel s = push_bit 48 channel OR pstate s"

definition proc_receiver_wait :: "u64 \<Rightarrow> u64 \<Rightarrow> bool \<times> u64" where
  "proc_receiver_wait state channel =
     compare_and_set state (pstate PROC_STATE_RUNNING) (on_channel channel PROC_STATE_WAITING)"

definition proc_sender_acquire :: "u64 \<Rightarrow> u64 \<Rightarrow> bool \<times> u64" where
  "proc_sender_acquire state channel =
     compare_and_set state (on_channel channel PROC_STATE_WAITING)
       (on_channel channel PROC_STATE_RECEIVING)"

definition proc_client_wait :: "u64 \<Rightarrow> u64 \<Rightarrow> bool \<times> u64" where
  "proc_client_wait state channel =
     compare_and_set state (pstate PROC_STATE_RUNNING)
       (on_channel channel PROC_STATE_WAITING OR push_bit 63 1)"

definition proc_sender_release :: "u64 \<Rightarrow> u64" where
  "proc_sender_release state = snd (fetch_and_and state (pstate PROC_STATE_SUSPENDED))"

definition proc_server_acquire :: "u64 \<Rightarrow> u64 \<Rightarrow> bool \<times> u64" where
  "proc_server_acquire state channel =
     compare_and_set state (on_channel channel PROC_STATE_WAITING)
       (on_channel channel PROC_STATE_RECEIVING OR push_bit 63 1)"

definition proc_server_release :: "u64 \<Rightarrow> u64" where
  "proc_server_release state = snd (fetch_and_and state (pstate PROC_STATE_SUSPENDED))"

lemmas proc_state_defs = proc_release_def proc_acquire_def proc_is_suspended_def
  proc_supervisor_acquire_def proc_supervisor_release_def proc_supervisor_resume_def
  proc_supervisor_suspend_def proc_receiver_wait_def proc_sender_acquire_def
  proc_sender_release_def fetch_and_and_def fetch_and_or_def

section \<open>The low bits\<close>

text \<open>The lowest three bits of the word are the state, whatever the channel.\<close>

definition low :: "u64 \<Rightarrow> u64" where
  "low w = w AND 7"

lemma push_and_mask: "k \<le> n \<Longrightarrow> push_bit n (x :: u64) AND mask k = 0"
  by (rule bit_eqI) (simp add: bit_simps)

lemma low_push [simp]: "push_bit 48 ch AND 7 = (0 :: u64)" "push_bit 63 b AND 7 = (0 :: u64)"
  using push_and_mask [of 3 48 ch] push_and_mask [of 3 63 b] by (simp_all add: mask_eq_exp_minus_1)

lemma low_or: "low (v OR w) = low v OR low w"
  by (simp add: low_def bit.conj_disj_distrib2)

lemma low_and_le7: "m AND 7 = m \<Longrightarrow> w AND m = low w AND m"
  unfolding low_def and.assoc by (simp add: and.commute [of 7])

lemma low_pstate [simp]: "low (pstate s) = pstate s"
  by (cases s) (simp_all add: low_def)

lemma low_on_channel [simp]: "low (on_channel ch s) = pstate s"
proof -
  have "low (push_bit 48 ch) = 0" by (simp add: low_def)
  then show ?thesis by (simp add: on_channel_def low_or del: pstate.simps)
qed

lemma low_cases: "\<exists>s. low w = pstate s"
proof -
  have "low w = take_bit 3 w" by (simp add: low_def take_bit_eq_mask mask_eq_exp_minus_1)
  then have "unat (low w) < 8"
    using take_bit_nat_less_exp [of 3 "unat w"] by (simp add: unsigned_take_bit_eq)
  then have "unat (low w) \<in> {0, 1, 2, 3, 4, 5, 6, 7}" by auto
  then have "\<exists>s. unat (low w) = unat (pstate s)"
  proof (elim insertE emptyE)
    assume "unat (low w) = 0"
    then show ?thesis by (intro exI [of _ PROC_STATE_READY]) simp
  next
    assume "unat (low w) = 1"
    then show ?thesis by (intro exI [of _ PROC_STATE_RUNNING]) simp
  next
    assume "unat (low w) = 2"
    then show ?thesis by (intro exI [of _ PROC_STATE_WAITING]) simp
  next
    assume "unat (low w) = 3"
    then show ?thesis by (intro exI [of _ PROC_STATE_RECEIVING]) simp
  next
    assume "unat (low w) = 4"
    then show ?thesis by (intro exI [of _ PROC_STATE_SUSPENDED]) simp
  next
    assume "unat (low w) = 5"
    then show ?thesis by (intro exI [of _ PROC_STATE_RUNNING_THEN_SUSPEND]) simp
  next
    assume "unat (low w) = 6"
    then show ?thesis by (intro exI [of _ PROC_STATE_SUSPENDED_BUSY]) simp
  next
    assume "unat (low w) = 7"
    then show ?thesis by (intro exI [of _ PROC_STATE_RECEIVING_THEN_SUSPEND]) simp
  qed
  then show ?thesis by (simp add: word_unat_eq_iff)
qed

text \<open>The state a word encodes, and how the operations move it.\<close>

lemma low_state:
  obtains s where "low w = pstate s"
  using low_cases by blast

lemma and_or_low:
  "w AND 2 = low w AND 2" "w AND 4 = low w AND 4"
  "low (w AND 4) = low w AND 4" "low (w OR 4) = low w OR 4"
proof -
  show "w AND 2 = low w AND 2" by (rule low_and_le7) simp
  show "w AND 4 = low w AND 4" by (rule low_and_le7) simp
  show "low (w AND 4) = low w AND 4"
    unfolding low_def and.assoc by (simp add: and.commute [of 7])
  show "low (w OR 4) = low w OR 4" by (simp add: low_or) (simp add: low_def)
qed

section \<open>Holding a process\<close>

text \<open>
  A process is held between an acquire and the matching release. \<open>suspend_kept\<close> is the
  point of the suspend bit: a suspension ordered while the process is held takes effect at
  the release.
\<close>

locale ownership =
  fixes acq :: "u64 \<Rightarrow> bool \<times> u64" and rel :: "u64 \<Rightarrow> stop + u64"
  assumes acq_fail: "acq w = (False, w') \<Longrightarrow> w' = w"
    and acq_once: "acq w = (True, w') \<Longrightarrow> \<not> fst (acq w')"
    and acq_rel: "acq w = (True, w') \<Longrightarrow>
      rel w' = Inr (pstate PROC_STATE_READY) \<or> rel w' = Inr (pstate PROC_STATE_SUSPENDED)"
    and suspend_kept: "acq w = (True, w') \<Longrightarrow>
      rel (snd (proc_supervisor_suspend w')) = Inr (pstate PROC_STATE_SUSPENDED)"
begin

lemma bracket:
  assumes "acq w = (True, w')"
  obtains w'' where "rel w' = Inr w''" "\<not> fst (acq w')"
    "w'' \<in> {pstate PROC_STATE_READY, pstate PROC_STATE_SUSPENDED}"
  using acq_rel [OF assms] acq_once [OF assms] by blast

lemma acq_twice: "acq w = (True, w') \<Longrightarrow> acq w' = (False, w')"
  using acq_once [of w w'] acq_fail [of w' "snd (acq w')"] by (cases "acq w'") simp

end

lemma pstate_and: "pstate s AND 4 = (if s \<in> {PROC_STATE_SUSPENDED, PROC_STATE_SUSPENDED_BUSY,
    PROC_STATE_RUNNING_THEN_SUSPEND, PROC_STATE_RECEIVING_THEN_SUSPEND} then 4 else 0)"
  "pstate s AND 2 = (if s \<in> {PROC_STATE_WAITING, PROC_STATE_RECEIVING, PROC_STATE_SUSPENDED_BUSY,
    PROC_STATE_RECEIVING_THEN_SUSPEND} then 2 else 0)"
  by (cases s; simp)+

lemma on_channel_and [simp]: "on_channel ch s AND 7 = pstate s"
  "on_channel ch s AND 4 = pstate s AND 4" "on_channel ch s AND 2 = pstate s AND 2"
  using low_on_channel [of ch s] and_or_low(1,2) [of "on_channel ch s"] by (simp_all add: low_def)

lemma on_channel_or_and [simp]:
  "(on_channel ch s OR 4) AND 4 = 4" "(on_channel ch s OR push_bit 63 b) AND 7 = pstate s"
  "(on_channel ch s OR push_bit 63 b) AND 4 = pstate s AND 4"
  "(on_channel ch s OR push_bit 63 b OR 4) AND 4 = 4"
  by (simp_all add: bit.conj_disj_distrib2 and_or_low(2) [of "push_bit 63 b"] low_def)

lemma on_channel_state: "on_channel ch s = on_channel ch' s' \<Longrightarrow> s = s'"
  using low_on_channel [of ch s] low_on_channel [of ch' s'] by (simp del: low_on_channel)

interpretation hart: ownership proc_acquire "\<lambda>w. Inr (proc_release w)"
  by unfold_locales (auto simp: proc_state_defs split: if_splits)

interpretation supervisor: ownership proc_supervisor_acquire proc_supervisor_release
  by unfold_locales (auto simp: proc_state_defs split: if_splits)

interpretation sender: ownership "\<lambda>w. proc_sender_acquire w ch" "\<lambda>w. Inr (proc_sender_release w)"
  for ch
  by unfold_locales
    (auto simp: proc_state_defs pstate_and dest: on_channel_state split: if_splits)

lemma push_63_1: "push_bit 63 1 = (9223372036854775808 :: u64)"
  by simp

lemma server_word:
  "on_channel ch PROC_STATE_RECEIVING OR 9223372036854775808 \<noteq> on_channel ch' PROC_STATE_WAITING"
  "(on_channel ch s OR 9223372036854775808) AND 4 = pstate s AND 4"
proof -
  show "on_channel ch PROC_STATE_RECEIVING OR 9223372036854775808 \<noteq> on_channel ch' PROC_STATE_WAITING"
    using on_channel_or_and(2) [of ch PROC_STATE_RECEIVING 1] on_channel_and(1) [of ch' PROC_STATE_WAITING]
    by (auto simp only: push_63_1 pstate_inj proc_state.distinct)
  show "(on_channel ch s OR 9223372036854775808) AND 4 = pstate s AND 4"
    using on_channel_or_and(3) [of ch s 1] by (simp only: push_63_1)
qed

interpretation server: ownership "\<lambda>w. proc_server_acquire w ch" "\<lambda>w. Inr (proc_server_release w)"
  for ch
  by unfold_locales
    (auto simp: proc_state_defs proc_server_acquire_def proc_server_release_def pstate_and
      server_word split: if_splits)

text \<open>What suspending does, by the state it finds.\<close>

lemma suspend_effect:
  "low w = pstate PROC_STATE_WAITING \<Longrightarrow> proc_supervisor_suspend w = (True, pstate PROC_STATE_SUSPENDED)"
  "w AND 4 \<noteq> 0 \<Longrightarrow> proc_supervisor_suspend w = (False, w OR 4)"
  "w AND 4 = 0 \<Longrightarrow> low w \<noteq> pstate PROC_STATE_WAITING \<Longrightarrow> proc_supervisor_suspend w = (True, w OR 4)"
  using and_or_low(2) [of w]
  by (auto simp: proc_supervisor_suspend_def fetch_and_or_def low_def)

lemma suspend_idempotent:
  "proc_supervisor_suspend w = (ok, w') \<Longrightarrow> proc_is_suspended w'"
  by (auto simp: proc_supervisor_suspend_def fetch_and_or_def proc_is_suspended_def Let_def
      bit.conj_disj_distrib2 split: if_splits)

section \<open>The harts together\<close>

text \<open>
  What a hart is doing with the process: running it, between the two halves of a blocking
  call (\<open>Leaving\<close>), working on it as a supervisor, about to store the suspended state, or
  delivering a message to it. One step is one atomic access of one hart.
\<close>

datatype ps_phase = Free | Runs | Leaving | Supervises | Suspending | Sends

record ps_sys =
  pw :: u64
  ph :: "nat \<Rightarrow> ps_phase"

definition ps_init :: "proc_state \<Rightarrow> ps_sys" where
  "ps_init st = \<lparr>pw = pstate st, ph = (\<lambda>_. Free)\<rparr>"

abbreviation ps_move :: "ps_sys \<Rightarrow> u64 \<Rightarrow> nat \<Rightarrow> ps_phase \<Rightarrow> ps_sys" where
  "ps_move s w h p \<equiv> \<lparr>pw = w, ph = (ph s)(h := p)\<rparr>"

text \<open>
  \<open>block\<close> is a receive, call or reply: \<open>proc_receiver_wait\<close> and then the \<open>proc_release\<close> of
  \<open>sched_yield\<close>, with no other hart in between.
\<close>

inductive pstep :: "ps_sys \<Rightarrow> ps_sys \<Rightarrow> bool" where
  sched: "ph s h = Free \<Longrightarrow> proc_acquire (pw s) = (True, w) \<Longrightarrow> pstep s (ps_move s w h Runs)"
| yield: "ph s h = Runs \<Longrightarrow> pstep s (ps_move s (proc_release (pw s)) h Free)"
| block: "ph s h = Runs \<Longrightarrow> proc_receiver_wait (pw s) ch = (ok, w) \<Longrightarrow>
    pstep s (ps_move s (proc_release w) h Free)"
| sup_acquire: "ph s h = Free \<Longrightarrow> proc_supervisor_acquire (pw s) = (True, w) \<Longrightarrow>
    pstep s (ps_move s w h Supervises)"
| sup_release: "ph s h = Supervises \<Longrightarrow> proc_supervisor_release (pw s) = Inr w \<Longrightarrow>
    pstep s (ps_move s w h Free)"
| sup_resume: "ph s h = Supervises \<Longrightarrow> pstep s (ps_move s (pstate PROC_STATE_READY) h Free)"
| suspend: "ph s h = Free \<or> ph s h = Runs \<Longrightarrow> low (pw s) \<noteq> pstate PROC_STATE_WAITING \<Longrightarrow>
    pstep s (ps_move s (pw s OR 4) h (ph s h))"
| suspend_or: "ph s h = Free \<Longrightarrow> low (pw s) = pstate PROC_STATE_WAITING \<Longrightarrow>
    pstep s (ps_move s (pw s OR 4) h Suspending)"
| suspend_store: "ph s h = Suspending \<Longrightarrow>
    pstep s (ps_move s (pstate PROC_STATE_SUSPENDED) h Free)"
| send: "ph s h = Free \<Longrightarrow> proc_sender_acquire (pw s) ch = (True, w) \<Longrightarrow>
    pstep s (ps_move s w h Sends)"
| send_done: "ph s h = Sends \<Longrightarrow> pstep s (ps_move s (proc_sender_release (pw s)) h Free)"

text \<open>The one phase in which some hart must be, by the state of the process.\<close>

fun holder :: "proc_state \<Rightarrow> ps_phase set" where
  "holder PROC_STATE_READY = {}"
| "holder PROC_STATE_RUNNING = {Runs}"
| "holder PROC_STATE_WAITING = {}"
| "holder PROC_STATE_RECEIVING = {Sends}"
| "holder PROC_STATE_SUSPENDED = {}"
| "holder PROC_STATE_RUNNING_THEN_SUSPEND = {Runs}"
| "holder PROC_STATE_SUSPENDED_BUSY = {Supervises, Suspending}"
| "holder PROC_STATE_RECEIVING_THEN_SUSPEND = {Sends}"

definition owned :: "ps_sys \<Rightarrow> bool" where
  "owned s \<longleftrightarrow>
     (\<exists>st. low (pw s) = pstate st \<and>
       (if holder st = {} then \<forall>h. ph s h = Free
        else \<exists>h. ph s h \<in> holder st \<and> (\<forall>h'. h' \<noteq> h \<longrightarrow> ph s h' = Free))) \<and>
     (\<forall>h. ph s h = Supervises \<longrightarrow> pw s = pstate PROC_STATE_SUSPENDED_BUSY)"

lemma owned_none:
  "low w = pstate st \<Longrightarrow> holder st = {} \<Longrightarrow> \<forall>h'. h' \<noteq> h \<longrightarrow> ph s h' = Free \<Longrightarrow>
    owned (ps_move s w h Free)"
  by (auto simp: owned_def intro!: exI [of _ st])

lemma owned_one:
  "low w = pstate st \<Longrightarrow> p \<in> holder st \<Longrightarrow> \<forall>h'. h' \<noteq> h \<longrightarrow> ph s h' = Free \<Longrightarrow>
    p = Supervises \<longrightarrow> w = pstate PROC_STATE_SUSPENDED_BUSY \<Longrightarrow> owned (ps_move s w h p)"
  by (auto simp: owned_def intro!: exI [of _ st] exI [of _ h])

lemma ownedE:
  assumes "owned s" "low (pw s) = pstate st"
  shows "holder st = {} \<Longrightarrow> ph s h = Free"
    and "ph s h \<noteq> Free \<Longrightarrow> ph s h \<in> holder st \<and> (\<forall>h'. h' \<noteq> h \<longrightarrow> ph s h' = Free)"
  using assms by (auto simp: owned_def split: if_splits) (metis+)

fun suspended :: "proc_state \<Rightarrow> proc_state" where
  "suspended PROC_STATE_READY = PROC_STATE_SUSPENDED"
| "suspended PROC_STATE_RUNNING = PROC_STATE_RUNNING_THEN_SUSPEND"
| "suspended PROC_STATE_WAITING = PROC_STATE_SUSPENDED_BUSY"
| "suspended PROC_STATE_RECEIVING = PROC_STATE_RECEIVING_THEN_SUSPEND"
| "suspended st = st"

fun released :: "proc_state \<Rightarrow> proc_state" where
  "released PROC_STATE_RUNNING = PROC_STATE_READY"
| "released PROC_STATE_RUNNING_THEN_SUSPEND = PROC_STATE_SUSPENDED"
| "released st = st"

lemma low_suspend: "low w = pstate st \<Longrightarrow> low (w OR 4) = pstate (suspended st)"
  unfolding and_or_low by (cases st) simp_all

lemma low_release: "low w = pstate st \<Longrightarrow> low (proc_release w) = pstate (released st)"
  using and_or_low(1,3) [of w] by (cases st) (simp_all add: proc_release_def fetch_and_and_def)

lemma low_sender_release:
  "low w = pstate PROC_STATE_RECEIVING \<Longrightarrow> low (proc_sender_release w) = pstate PROC_STATE_READY"
  "low w = pstate PROC_STATE_RECEIVING_THEN_SUSPEND \<Longrightarrow>
    low (proc_sender_release w) = pstate PROC_STATE_SUSPENDED"
  using and_or_low(3) [of w] by (simp_all add: proc_sender_release_def fetch_and_and_def)

lemma holder_Runs: "Runs \<in> holder st \<Longrightarrow> st \<in> {PROC_STATE_RUNNING, PROC_STATE_RUNNING_THEN_SUSPEND}"
  by (cases st) auto

lemma holder_Sends:
  "Sends \<in> holder st \<Longrightarrow> st \<in> {PROC_STATE_RECEIVING, PROC_STATE_RECEIVING_THEN_SUSPEND}"
  by (cases st) auto

lemma owned_step:
  assumes "pstep s s'" "owned s"
  shows "owned s'"
proof -
  obtain st where st: "low (pw s) = pstate st" by (rule low_state)
  note o = ownedE [OF assms(2) st]
  have free: "\<forall>h'. h' \<noteq> h \<longrightarrow> ph s h' = Free" if "holder st = {} \<or> ph s h \<noteq> Free" for h
    using o that by blast
  have busy: "pw s = pstate PROC_STATE_SUSPENDED_BUSY" if "ph s h = Supervises" for h
    using assms(2) that by (auto simp: owned_def)
  show ?thesis
    using assms(1)
  proof (cases rule: pstep.cases)
    case (sched h w)
    then have "st = PROC_STATE_READY" "w = pstate PROC_STATE_RUNNING"
      using st by (auto simp: proc_acquire_def low_def split: if_splits) (metis pstate.simps(1) pstate_inj)
    with sched(1) free [of h] show ?thesis
      by (auto simp: low_def intro: owned_one [of _ PROC_STATE_RUNNING])
  next
    case (yield h)
    then have r: "Runs \<in> holder st" using o(2) [of h] by simp
    then have "holder (released st) = {}" using holder_Runs by fastforce
    with yield free [of h] low_release [OF st] show ?thesis by (auto intro: owned_none)
  next
    case (block h ch ok w)
    then have r: "Runs \<in> holder st" using o(2) [of h] by simp
    have "\<exists>st'. low w = pstate st' \<and> holder (released st') = {}"
    proof (cases "pw s = 1")
      case True
      then show ?thesis
        using block(3) by (intro exI [of _ PROC_STATE_WAITING]) (auto simp: proc_receiver_wait_def)
    next
      case False
      then show ?thesis
        using block(3) st holder_Runs [OF r]
        by (intro exI [of _ st]) (auto simp: proc_receiver_wait_def)
    qed
    then obtain st' where "low (proc_release w) = pstate (released st')" "holder (released st') = {}"
      using low_release by blast
    moreover have "\<forall>h'. h' \<noteq> h \<longrightarrow> ph s h' = Free" using free [of h] block(2) by simp
    ultimately show ?thesis unfolding block(1) by (rule owned_none)
  next
    case (sup_acquire h w)
    then have "pw s = 4" "w = pstate PROC_STATE_SUSPENDED_BUSY"
      by (auto simp: proc_supervisor_acquire_def split: if_splits)
    moreover from this have "st = PROC_STATE_SUSPENDED"
      using st by (metis low_pstate pstate.simps(5) pstate_inj)
    ultimately show ?thesis
      using sup_acquire(1) free [of h] by (auto simp: low_def intro: owned_one [of _ PROC_STATE_SUSPENDED_BUSY])
  next
    case (sup_release h w)
    then have "w = pstate PROC_STATE_SUSPENDED"
      by (auto simp: proc_supervisor_release_def ebind_Inr_iff)
    with sup_release free [of h] show ?thesis
      by (auto simp: low_def intro: owned_none [of _ PROC_STATE_SUSPENDED])
  next
    case (sup_resume h)
    with free [of h] show ?thesis by (auto simp: low_def intro: owned_none [of _ PROC_STATE_READY])
  next
    case (suspend h)
    have ne: "st \<noteq> PROC_STATE_WAITING" using suspend(3) st by auto
    then have eq: "holder (suspended st) = holder st" by (cases st) simp_all
    show ?thesis
    proof (cases "\<forall>h'. ph s h' = Free")
      case True
      moreover have "Free \<notin> holder st" by (cases st) simp_all
      ultimately have "holder st = {}" using assms(2) st by (auto simp: owned_def split: if_splits)
      with True suspend eq low_suspend [OF st] show ?thesis
        using owned_none [of "pw s OR 4" "suspended st" h s] by simp
    next
      case False
      then obtain g where g: "ph s g \<noteq> Free" by blast
      note og = o(2) [OF g]
      have "ps_move s (pw s OR 4) h (ph s h) = ps_move s (pw s OR 4) g (ph s g)" by simp
      moreover have "owned (ps_move s (pw s OR 4) g (ph s g))"
        using low_suspend [OF st] og eq busy [of g] by (intro owned_one) auto
      ultimately show ?thesis using suspend(1) by simp
    qed
  next
    case (suspend_or h)
    then have "st = PROC_STATE_WAITING" using st by (metis pstate_inj)
    with suspend_or free [of h] low_suspend [OF st] show ?thesis
      by (auto intro: owned_one [of _ PROC_STATE_SUSPENDED_BUSY])
  next
    case (suspend_store h)
    with free [of h] show ?thesis by (auto simp: low_def intro: owned_none [of _ PROC_STATE_SUSPENDED])
  next
    case (send h ch w)
    then have "pw s = on_channel ch PROC_STATE_WAITING" "w = on_channel ch PROC_STATE_RECEIVING"
      by (auto simp: proc_sender_acquire_def split: if_splits)
    moreover from this have "st = PROC_STATE_WAITING" using st by (metis low_on_channel pstate_inj)
    ultimately show ?thesis
      using send(1) free [of h] by (auto intro: owned_one [of _ PROC_STATE_RECEIVING])
  next
    case (send_done h)
    then have "Sends \<in> holder st" using o(2) [of h] by simp
    then have "\<exists>st'. low (proc_sender_release (pw s)) = pstate st' \<and> holder st' = {}"
      using holder_Sends [of st] st low_sender_release [of "pw s"]
      by (metis holder.simps(1,5) insertE singletonD)
    then obtain st' where "low (proc_sender_release (pw s)) = pstate st'" "holder st' = {}" by blast
    moreover have "\<forall>h'. h' \<noteq> h \<longrightarrow> ph s h' = Free" using free [of h] send_done(2) by simp
    ultimately show ?thesis unfolding send_done(1) by (rule owned_none)
  qed
qed

lemma owned_reachable: "pstep\<^sup>*\<^sup>* s s' \<Longrightarrow> owned s \<Longrightarrow> owned s'"
  by (induction rule: rtranclp_induct) (auto intro: owned_step)

lemma owned_init: "holder st = {} \<Longrightarrow> owned (ps_init st)"
  by (auto simp: owned_def ps_init_def intro!: exI [of _ st])

text \<open>At most one hart has anything to do with a process, and no assertion fails.\<close>

lemma owned_exclusive:
  assumes "owned s" "ph s h \<noteq> Free" "ph s h' \<noteq> Free"
  shows "h = h'"
proof -
  obtain st where "low (pw s) = pstate st" by (rule low_state)
  from ownedE(2) [OF assms(1) this assms(2)] assms(3) show ?thesis by metis
qed

lemma owned_release_ok: "owned s \<Longrightarrow> ph s h = Supervises \<Longrightarrow> proc_supervisor_release (pw s) = Inr 4"
  by (auto simp: owned_def proc_supervisor_release_def)

section \<open>The window in a blocking call\<close>

text \<open>
  The code does not block in one step: after the compare-and-set of \<open>proc_receiver_wait\<close>
  the process is waiting and may be sent to, scheduled and run elsewhere, all before the
  blocking hart reaches \<open>proc_release\<close>.
\<close>

inductive race :: "ps_sys \<Rightarrow> ps_sys \<Rightarrow> bool" where
  discipline: "pstep s s' \<Longrightarrow> race s s'"
| wait_store: "ph s h = Runs \<Longrightarrow> proc_receiver_wait (pw s) ch = (True, w) \<Longrightarrow>
    race s (ps_move s w h Leaving)"
| leave: "ph s h = Leaving \<Longrightarrow> race s (ps_move s (proc_release (pw s)) h Free)"

lemma race_sched:
  "ph s h = Free \<Longrightarrow> pw s = pstate PROC_STATE_READY \<Longrightarrow>
    race s (ps_move s (pstate PROC_STATE_RUNNING) h Runs)"
  by (rule discipline, rule sched) (simp_all add: proc_acquire_def)

lemma race_trace:
  "\<exists>s. race\<^sup>*\<^sup>* (ps_init PROC_STATE_READY) s \<and> ph s 0 = Runs \<and> ph s 1 = Runs"
proof -
  let ?s0 = "ps_init PROC_STATE_READY"
  let ?s1 = "ps_move ?s0 (pstate PROC_STATE_RUNNING) 0 Runs"
  let ?s2 = "ps_move ?s1 (on_channel 3 PROC_STATE_WAITING) 0 Leaving"
  let ?s3 = "ps_move ?s2 (on_channel 3 PROC_STATE_RECEIVING) 1 Sends"
  let ?s4 = "ps_move ?s3 (pstate PROC_STATE_READY) 1 Free"
  let ?s5 = "ps_move ?s4 (pstate PROC_STATE_RUNNING) 1 Runs"
  let ?s6 = "ps_move ?s5 (pstate PROC_STATE_READY) 0 Free"
  let ?s7 = "ps_move ?s6 (pstate PROC_STATE_RUNNING) 0 Runs"
  have r1: "race ?s0 ?s1" by (rule race_sched) (simp_all add: ps_init_def)
  have r2: "race ?s1 ?s2"
    by (rule wait_store [of _ _ 3]) (simp_all add: proc_receiver_wait_def)
  have r3: "race ?s2 ?s3"
    by (rule discipline, rule send [of _ _ 3]) (simp_all add: proc_sender_acquire_def ps_init_def)
  have r4: "race ?s3 ?s4"
    using discipline [OF send_done [of ?s3 1]]
    by (simp add: proc_sender_release_def fetch_and_and_def pstate_and)
  have r5: "race ?s4 ?s5" by (rule race_sched) simp_all
  have r6: "race ?s5 ?s6"
    using leave [of ?s5 0] by (simp add: proc_release_def fetch_and_and_def)
  have r7: "race ?s6 ?s7" by (rule race_sched) simp_all
  from r1 r2 r3 r4 r5 r6 r7 have "race\<^sup>*\<^sup>* ?s0 ?s7"
    by (meson rtranclp.rtrancl_refl converse_rtranclp_into_rtranclp)
  then show ?thesis by (intro exI [of _ ?s7]) simp
qed

section \<open>Properties\<close>

text \<open>C26: while no hart stands between the two halves of a blocking call, a process is in
  the hands of at most one hart: the one that runs it, supervises it or sends to it.\<close>

theorem process_exclusive:
  assumes "pstep\<^sup>*\<^sup>* (ps_init st) s" "holder st = {}" "ph s h \<noteq> Free" "ph s h' \<noteq> Free"
  shows "h = h'"
  using owned_exclusive [OF owned_reachable [OF assms(1) owned_init [OF assms(2)]] assms(3,4)] .

theorem process_exclusive_witness:
  "pstep (ps_init PROC_STATE_READY) (ps_move (ps_init PROC_STATE_READY) (pstate PROC_STATE_RUNNING) 3 Runs) \<and>
   {h. ph (ps_move (ps_init PROC_STATE_READY) (pstate PROC_STATE_RUNNING) 3 Runs) h \<noteq> Free} = {3}"
proof -
  let ?s = "ps_init PROC_STATE_READY" and ?s' = "ps_move (ps_init PROC_STATE_READY) (pstate PROC_STATE_RUNNING) 3 Runs"
  have st: "pstep ?s ?s'" by (rule pstep.sched) (simp_all add: ps_init_def proc_acquire_def)
  have r: "pstep\<^sup>*\<^sup>* ?s ?s'" using st by (rule r_into_rtranclp)
  have f: "ph ?s' 3 \<noteq> Free" by simp
  have "h = 3" if "ph ?s' h \<noteq> Free" for h
    by (rule process_exclusive [OF r _ that f]) simp
  then have "{h. ph ?s' h \<noteq> Free} = {3}" using f by blast
  with st show ?thesis ..
qed

text \<open>C27: with the blocking call in its two halves, as the code has it, two harts can run the
  same process at the same time: the message arrives and the process is scheduled elsewhere
  before \<open>proc_release\<close>, which then frees a process somebody else runs.\<close>

theorem blocking_call_race:
  "\<exists>s. race\<^sup>*\<^sup>* (ps_init PROC_STATE_READY) s \<and> ph s 0 = Runs \<and> ph s 1 = Runs"
  by (rule race_trace)

text \<open>A suspension is never lost. Whoever holds the process when the supervisor suspends
  it, the hart that runs it or a sender, leaves it suspended on release.\<close>

lemma suspension_not_lost:
  assumes "proc_acquire w = (True, w')" "proc_sender_acquire v ch = (True, v')"
  shows "proc_release (snd (proc_supervisor_suspend w')) = pstate PROC_STATE_SUSPENDED \<and>
    proc_sender_release (snd (proc_supervisor_suspend v')) = pstate PROC_STATE_SUSPENDED"
  using hart.suspend_kept [OF assms(1)] sender.suspend_kept [OF assms(2)] by simp

lemma suspension_not_lost_example:
  "proc_release (snd (proc_supervisor_suspend (pstate PROC_STATE_RUNNING))) = pstate PROC_STATE_SUSPENDED \<and>
   proc_sender_release (snd (proc_supervisor_suspend (on_channel 5 PROC_STATE_RECEIVING))) =
     pstate PROC_STATE_SUSPENDED"
  by (rule suspension_not_lost [of "pstate PROC_STATE_READY" _ "on_channel 5 PROC_STATE_WAITING" 5])
    (simp_all add: proc_acquire_def proc_sender_acquire_def)

end
