(* ===== verification/Proc.thy ===== *)
theory Proc
  imports CapNode ProcState
begin

text \<open>
  The process control block (\<open>inc/proc.h\<close>), the register and capability accessors, and
  \<open>proc.c\<close>: the boot-time population of the capability tables and the computation of the
  PMP configuration. The register structure is accessed by name in most of the kernel and
  as an array of \<open>N_REGISTERS\<close> words by the register accessors; \<open>reg_order\<close> is its layout.
\<close>

section \<open>Registers\<close>

datatype reg =
    PC | RA | SP | GP | TP | T0 | T1 | T2 | S0 | S1
  | A0 | A1 | A2 | A3 | A4 | A5 | A6 | A7
  | S2 | S3 | S4 | S5 | S6 | S7 | S8 | S9 | S10 | S11
  | T3 | T4 | T5 | T6
  | PMP | TIMEOUT | DEST_CIDX
  | TPC | TSP | CAUSE | TVAL | PPC | PSP | PA0 | PA1

text \<open>The members of \<open>struct regs\<close> in their order in memory.\<close>

definition reg_order :: "reg list" where
  "reg_order =
    [PC, RA, SP, GP, TP, T0, T1, T2, S0, S1, A0, A1, A2, A3, A4, A5, A6, A7,
     S2, S3, S4, S5, S6, S7, S8, S9, S10, S11, T3, T4, T5, T6,
     PMP, TIMEOUT, DEST_CIDX, TPC, TSP, CAUSE, TVAL, PPC, PSP, PA0, PA1]"

definition N_REGISTERS :: nat where
  "N_REGISTERS = length reg_order"

type_synonym regs = "reg \<Rightarrow> u64"

record proc =
  p_regs :: regs
  p_pid :: u64
  p_state :: u64
  p_dest_cidx :: u64
  p_cap_table :: "nat option"
  p_client :: "nat option"

abbreviation set_reg :: "proc \<Rightarrow> reg \<Rightarrow> u64 \<Rightarrow> proc" where
  "set_reg p r v \<equiv> p\<lparr>p_regs := (p_regs p)(r := v)\<rparr>"

section \<open>Accessors\<close>

text \<open>\<open>&proc->cap_table[cid % N_CAPS]\<close>; \<open>cap_table\<close> is a row of \<open>cap_tables\<close> or \<open>NULL\<close>.\<close>

definition proc_get_cap_node :: "proc \<Rightarrow> u64 \<Rightarrow> stop + node_ptr" where
  "proc_get_cap_node proc cid =
     (case p_cap_table proc of
        None \<Rightarrow> Inl Null_deref
      | Some row \<Rightarrow> Inr (Slot row (unat (cid mod of_nat N_CAPS))))"

definition proc_get_cap :: "proc \<Rightarrow> u64 \<Rightarrow> node_heap \<Rightarrow> stop + cap_t" where
  "proc_get_cap proc cid h = ebind (proc_get_cap_node proc cid) (\<lambda>n. Inr (cap_node_get_cap h n))"

definition proc_read_register :: "proc \<Rightarrow> u64 \<Rightarrow> u64" where
  "proc_read_register proc regi =
     (if unat regi < N_REGISTERS then p_regs proc (reg_order ! unat regi) else 0)"

definition proc_write_register :: "proc \<Rightarrow> u64 \<Rightarrow> u64 \<Rightarrow> u64 \<times> proc" where
  "proc_write_register proc regi regv =
     (if unat regi < N_REGISTERS then
        let r = reg_order ! unat regi; tmp = p_regs proc r in (tmp, set_reg proc r regv)
      else (0, proc))"

lemma reg_order_distinct: "distinct reg_order"
  by (simp add: reg_order_def)

lemma reg_order_all: "r \<in> set reg_order"
  by (cases r) (simp_all add: reg_order_def)

lemma N_REGISTERS_val: "N_REGISTERS = 43"
  by (simp add: N_REGISTERS_def reg_order_def)

lemma reg_nth_eq: "i < N_REGISTERS \<Longrightarrow> j < N_REGISTERS \<Longrightarrow> reg_order ! i = reg_order ! j \<longleftrightarrow> i = j"
  by (simp add: N_REGISTERS_def nth_eq_iff_index_eq reg_order_distinct)

lemma register_write_read:
  "proc_read_register (snd (proc_write_register p i v)) j =
     (if j = i \<and> unat i < N_REGISTERS then v else proc_read_register p j)"
  by (auto simp: proc_read_register_def proc_write_register_def Let_def reg_nth_eq word_unat_eq_iff)

lemma register_write_old: "fst (proc_write_register p i v) = proc_read_register p i"
  by (simp add: proc_read_register_def proc_write_register_def Let_def)

lemma register_write_other:
  "p_pid (snd (proc_write_register p i v)) = p_pid p"
  "p_state (snd (proc_write_register p i v)) = p_state p"
  "p_cap_table (snd (proc_write_register p i v)) = p_cap_table p"
  by (simp_all add: proc_write_register_def Let_def)

lemma cap_index_bound [simp]: "unat ((cid :: u64) mod of_nat N_CAPS) < N_CAPS"
  by (simp add: config_defs unat_mod)

section \<open>proc.c: boot\<close>

text \<open>
  The constructors the kernel calls are those generated by \<open>scripts/cap_gen.py\<close>, which
  assert the width of every argument and the conditions of \<open>gen/cap.yml\<close>.
\<close>

definition rwx_valid :: "u64 \<Rightarrow> bool" where
  "rwx_valid rwx \<longleftrightarrow> rwx = 4 \<or> rwx = 5 \<or> rwx = 6 \<or> rwx = 7"

definition gen_mk_pmp :: "u64 \<Rightarrow> u64 \<Rightarrow> stop + cap_t" where
  "gen_mk_pmp addr rwx =
     ebind (kassert (fits 32 addr \<and> fits 8 rwx \<and> rwx_valid rwx)) (\<lambda>_.
     Inr (cap_mk_pmp addr rwx))"

definition gen_mk_time :: "u64 \<Rightarrow> u64 \<Rightarrow> u64 \<Rightarrow> u64 \<Rightarrow> stop + cap_t" where
  "gen_mk_time h b e fr =
     ebind (kassert (fits 8 h \<and> fits 16 b \<and> fits 16 e \<and> fits 16 fr \<and>
       of_nat MIN_HARTID \<le> h \<and> h \<le> of_nat MAX_HARTID \<and> b = fr \<and> b < e \<and>
       e \<le> of_nat N_QUANTUM)) (\<lambda>_. Inr (cap_mk_time h b e fr))"

definition gen_mk_channels :: "u64 \<Rightarrow> u64 \<Rightarrow> u64 \<Rightarrow> stop + cap_t" where
  "gen_mk_channels b e fr =
     ebind (kassert (fits 16 b \<and> fits 16 e \<and> fits 16 fr \<and> b = fr \<and> b < e \<and>
       e \<le> of_nat N_CHANNELS)) (\<lambda>_. Inr (cap_mk_channels b e fr))"

definition gen_mk_supervisor :: "u64 \<Rightarrow> u64 \<Rightarrow> u64 \<Rightarrow> stop + cap_t" where
  "gen_mk_supervisor b e fr =
     ebind (kassert (fits 8 b \<and> fits 8 e \<and> fits 8 fr \<and> b = fr \<and> b < e \<and>
       e \<le> of_nat N_PROC)) (\<lambda>_. Inr (cap_mk_supervisor b e fr))"

definition make_sentinel :: "sentinel \<Rightarrow> node_heap \<Rightarrow> node_heap" where
  "make_sentinel k h =
     h(Sentinel k := \<lparr>cn_prev = Some (Sentinel k), cn_next = Some (Sentinel k), cn_cap = NULL_CAP\<rparr>)"

text \<open>\<open>cn++\<close> on a pointer into a capability table.\<close>

fun next_slot :: "node_ptr \<Rightarrow> node_ptr" where
  "next_slot (Slot i j) = Slot i (Suc j)"
| "next_slot (Sentinel k) = Sentinel k"

definition insert_cap :: "(stop + cap_t) \<Rightarrow> sentinel \<Rightarrow> node_ptr \<Rightarrow> node_heap \<Rightarrow> stop + node_ptr \<times> node_heap" where
  "insert_cap mk k cn h =
     ebind mk (\<lambda>cap. ebind (cap_node_insert cap cn (Sentinel k) h) (\<lambda>(_, h'). Inr (next_slot cn, h')))"

definition proc_init_memory :: "node_ptr \<Rightarrow> u64 \<Rightarrow> node_heap \<Rightarrow> stop + node_ptr \<times> node_heap" where
  "proc_init_memory cn root_payload h =
     insert_cap (gen_mk_pmp (drop_bit 12 root_payload) 7) Memory_sentinel cn
       (make_sentinel Memory_sentinel h)"

fun init_time_loop :: "nat list \<Rightarrow> node_ptr \<Rightarrow> node_heap \<Rightarrow> stop + node_ptr \<times> node_heap" where
  "init_time_loop [] cn h = Inr (cn, h)"
| "init_time_loop (hartid # hs) cn h =
     ebind (insert_cap (gen_mk_time (of_nat hartid) 0 (of_nat N_QUANTUM) 0) Time_sentinel cn h)
       (\<lambda>(cn', h'). init_time_loop hs cn' h')"

definition proc_init_time :: "node_ptr \<Rightarrow> node_heap \<Rightarrow> stop + node_ptr \<times> node_heap" where
  "proc_init_time cn h =
     init_time_loop [MIN_HARTID..<Suc MAX_HARTID] cn (make_sentinel Time_sentinel h)"

definition proc_init_supervisor :: "node_ptr \<Rightarrow> node_heap \<Rightarrow> stop + node_ptr \<times> node_heap" where
  "proc_init_supervisor cn h =
     insert_cap (gen_mk_supervisor 0 (of_nat N_PROC) 0) Supervisor_sentinel cn
       (make_sentinel Supervisor_sentinel h)"

definition proc_init_channels :: "node_ptr \<Rightarrow> node_heap \<Rightarrow> stop + node_ptr \<times> node_heap" where
  "proc_init_channels cn h =
     insert_cap (gen_mk_channels 0 (of_nat N_CHANNELS) 0) Channels_sentinel cn
       (make_sentinel Channels_sentinel h)"

definition proc_init_proc :: "nat \<Rightarrow> proc \<Rightarrow> proc" where
  "proc_init_proc pid proc =
     proc\<lparr>p_pid := of_nat pid, p_cap_table := Some pid, p_state := pstate PROC_STATE_SUSPENDED\<rparr>"

definition proc_init_root :: "proc \<Rightarrow> u64 \<Rightarrow> node_heap \<Rightarrow> stop + proc \<times> node_heap" where
  "proc_init_root root root_payload h =
     ebind (proc_get_cap_node root 0) (\<lambda>cn.
     ebind (proc_init_memory cn root_payload h) (\<lambda>(cn, h).
     ebind (proc_init_channels cn h) (\<lambda>(cn, h).
     ebind (proc_init_supervisor cn h) (\<lambda>(cn, h).
     ebind (proc_init_time cn h) (\<lambda>(_, h).
     Inr ((set_reg (set_reg root PC root_payload) A0 0)\<lparr>p_state := pstate PROC_STATE_READY\<rparr>, h))))))"

definition proc_init ::
    "u64 \<Rightarrow> (nat \<Rightarrow> proc) \<Rightarrow> node_heap \<Rightarrow> stop + (nat \<Rightarrow> proc) \<times> node_heap" where
  "proc_init root_payload processes h =
     (let processes = fold (\<lambda>i ps. ps(i := proc_init_proc i (ps i))) [0..<N_PROC] processes
      in ebind (proc_init_root (processes 0) root_payload h) (\<lambda>(root, h).
         Inr (processes(0 := root), h)))"

section \<open>proc.c: the PMP configuration\<close>

text \<open>
  The loop of \<open>proc_load_pmp\<close> over the eight entries, giving the values written to
  \<open>pmpcfg0\<close> and to \<open>pmpaddr0\<close> .. \<open>pmpaddr7\<close>.
\<close>

definition load_pmp_entry :: "proc \<Rightarrow> node_heap \<Rightarrow> nat \<Rightarrow> u64 \<times> u64 list \<Rightarrow> stop + u64 \<times> u64 list" where
  "load_pmp_entry proc h i = (\<lambda>(pmpcfg, pmpaddr).
     (let pmpidx = p_regs proc PMP AND 0xFF
      in if pmpidx AND 0x80 \<noteq> 0 then Inr (pmpcfg, pmpaddr)
         else ebind (proc_get_cap proc (of_nat i) h) (\<lambda>cap.
           if \<not> cap_is_type cap CAP_TYPE_PMP then Inr (pmpcfg, pmpaddr)
           else Inr (pmpcfg OR (push_bit (i * 8) (cap_pmp_get_rwx cap) OR 0x18),
                     pmpaddr[i := push_bit 10 (cap_pmp_get_addr cap) OR 0x3FF]))))"

fun load_pmp_loop :: "proc \<Rightarrow> node_heap \<Rightarrow> nat list \<Rightarrow> u64 \<times> u64 list \<Rightarrow> stop + u64 \<times> u64 list" where
  "load_pmp_loop proc h [] s = Inr s"
| "load_pmp_loop proc h (i # is) s =
     ebind (load_pmp_entry proc h i s) (load_pmp_loop proc h is)"

definition proc_load_pmp :: "proc \<Rightarrow> node_heap \<Rightarrow> stop + u64 \<times> u64 list" where
  "proc_load_pmp proc h = load_pmp_loop proc h [0..<8] (0, replicate 8 0)"

section \<open>The state after boot\<close>

definition boot_node :: cap_node where
  "boot_node = \<lparr>cn_prev = None, cn_next = None, cn_cap = NULL_CAP\<rparr>"

definition boot_proc :: proc where
  "boot_proc = \<lparr>p_regs = (\<lambda>_. 0), p_pid = 0, p_state = 0, p_dest_cidx = 0,
     p_cap_table = None, p_client = None\<rparr>"

text \<open>The nodes one after the other on each sentinel; the time slices in reverse.\<close>

fun boot_lists :: cap_lists where
  "boot_lists Memory_sentinel = [Slot 0 0]"
| "boot_lists Channels_sentinel = [Slot 0 1]"
| "boot_lists Supervisor_sentinel = [Slot 0 2]"
| "boot_lists Time_sentinel = [Slot 0 6, Slot 0 5, Slot 0 4, Slot 0 3]"

definition boot_cap :: "u64 \<Rightarrow> nat \<Rightarrow> cap_t" where
  "boot_cap root_payload j =
     (if j = 0 then cap_mk_pmp (drop_bit 12 root_payload) 7
      else if j = 1 then cap_mk_channels 0 (of_nat N_CHANNELS) 0
      else if j = 2 then cap_mk_supervisor 0 (of_nat N_PROC) 0
      else if j < 7 then cap_mk_time (of_nat (j - 2)) 0 (of_nat N_QUANTUM) 0 else NULL_CAP)"

definition boot_procs :: "u64 \<Rightarrow> nat \<Rightarrow> proc" where
  "boot_procs root_payload i =
     (if i = 0 then (set_reg (set_reg boot_proc PC root_payload) A0 0)
                      \<lparr>p_cap_table := Some 0, p_state := pstate PROC_STATE_READY\<rparr>
      else if i < N_PROC then boot_proc\<lparr>p_pid := of_nat i, p_cap_table := Some i,
                                p_state := pstate PROC_STATE_SUSPENDED\<rparr>
      else boot_proc)"

lemma insert_cap_runs:
  assumes "cn_prev (h cn) = None" "linked h (Sentinel k) nxt"
    "cn_prev (h (Sentinel k)) \<noteq> None"
  shows "insert_cap (Inr cap) k cn h = Inr (next_slot cn, heap_insert cap cn (Sentinel k) nxt h)"
  using insert_runs [OF assms] by (simp add: insert_cap_def)

lemma insert_cap_computes:
  assumes "cn_prev (h cn) = None" "cn_next (h (Sentinel k)) \<noteq> None"
    "cn_prev (h (the (cn_next (h (Sentinel k))))) = Some (Sentinel k)"
    "cn_prev (h (Sentinel k)) \<noteq> None"
  shows "insert_cap (Inr cap) k cn h =
    Inr (next_slot cn, heap_insert cap cn (Sentinel k) (the (cn_next (h (Sentinel k)))) h)"
  using assms by (intro insert_cap_runs) (auto simp: linked_def)

lemma gen_mk_boot:
  "fits 32 addr \<Longrightarrow> gen_mk_pmp addr 7 = Inr (cap_mk_pmp addr 7)"
  "MIN_HARTID \<le> h \<Longrightarrow> h \<le> MAX_HARTID \<Longrightarrow>
    gen_mk_time (of_nat h) 0 (of_nat N_QUANTUM) 0 = Inr (cap_mk_time (of_nat h) 0 (of_nat N_QUANTUM) 0)"
  "gen_mk_channels 0 (of_nat N_CHANNELS) 0 = Inr (cap_mk_channels 0 (of_nat N_CHANNELS) 0)"
  "gen_mk_supervisor 0 (of_nat N_PROC) 0 = Inr (cap_mk_supervisor 0 (of_nat N_PROC) 0)"
  by (simp_all add: gen_mk_pmp_def gen_mk_time_def gen_mk_channels_def gen_mk_supervisor_def
      rwx_valid_def fits_unat config_defs word_le_nat_alt unat_of_nat)

lemma boot_ranges: "[0..<N_PROC] = [0,1,2,3,4,5]" "[MIN_HARTID..<Suc MAX_HARTID] = [1,2,3,4]"
  by (simp_all add: config_defs upt_rec)

lemma proc_init_time_harts:
  "proc_init_time cn h = init_time_loop [1, 2, 3, 4] cn (make_sentinel Time_sentinel h)"
  by (simp only: proc_init_time_def boot_ranges)

lemma gen_mk_time_boot:
  "gen_mk_time 1 0 (of_nat N_QUANTUM) 0 = Inr (cap_mk_time 1 0 (of_nat N_QUANTUM) 0)"
  "gen_mk_time 2 0 (of_nat N_QUANTUM) 0 = Inr (cap_mk_time 2 0 (of_nat N_QUANTUM) 0)"
  "gen_mk_time 3 0 (of_nat N_QUANTUM) 0 = Inr (cap_mk_time 3 0 (of_nat N_QUANTUM) 0)"
  "gen_mk_time 4 0 (of_nat N_QUANTUM) 0 = Inr (cap_mk_time 4 0 (of_nat N_QUANTUM) 0)"
  using gen_mk_boot(2) [of 1] gen_mk_boot(2) [of 2] gen_mk_boot(2) [of 3] gen_mk_boot(2) [of 4]
  by (simp_all add: MIN_HARTID_def MAX_HARTID_def)

text \<open>The node tables after boot, node by node.\<close>

definition boot_heap :: "u64 \<Rightarrow> node_heap" where
  "boot_heap root_payload n =
     (let s = (\<lambda>k. Some (Sentinel k)); t = (\<lambda>j. Some (Slot 0 j))
      in case n of
        Sentinel Memory_sentinel \<Rightarrow> \<lparr>cn_prev = t 0, cn_next = t 0, cn_cap = NULL_CAP\<rparr>
      | Sentinel Channels_sentinel \<Rightarrow> \<lparr>cn_prev = t 1, cn_next = t 1, cn_cap = NULL_CAP\<rparr>
      | Sentinel Supervisor_sentinel \<Rightarrow> \<lparr>cn_prev = t 2, cn_next = t 2, cn_cap = NULL_CAP\<rparr>
      | Sentinel Time_sentinel \<Rightarrow> \<lparr>cn_prev = t 3, cn_next = t 6, cn_cap = NULL_CAP\<rparr>
      | Slot i j \<Rightarrow>
          if i \<noteq> 0 \<or> 6 < j then boot_node
          else \<lparr>cn_prev = [s Memory_sentinel, s Channels_sentinel, s Supervisor_sentinel,
                  t 4, t 5, t 6, s Time_sentinel] ! j,
                cn_next = [s Memory_sentinel, s Channels_sentinel, s Supervisor_sentinel,
                  s Time_sentinel, t 3, t 4, t 5] ! j,
                cn_cap = boot_cap root_payload j\<rparr>)"

lemma proc_init_root_boot:
  assumes "fits 32 (drop_bit 12 root_payload)"
  shows "proc_init_root (proc_init_proc 0 boot_proc) root_payload (\<lambda>_. boot_node) =
    Inr (boot_procs root_payload 0, boot_heap root_payload)"
  apply (simp add: proc_init_root_def proc_init_proc_def proc_get_cap_node_def proc_init_memory_def
      proc_init_channels_def proc_init_supervisor_def proc_init_time_harts)
  apply (simp add: insert_cap_computes make_sentinel_def boot_node_def heap_insert_def gen_mk_boot
      gen_mk_time_boot assms)
  apply (rule conjI)
   apply (simp add: boot_procs_def boot_proc_def)
  apply (rule ext)
  apply (auto simp: boot_heap_def boot_cap_def nth_Cons boot_node_def
      split: node_ptr.split sentinel.split nat.splits)
  done

lemma boot_rep: "rep (boot_heap p) boot_lists"
proof (rule repI)
  show "ring (boot_heap p) (Sentinel k) (boot_lists k)" for k
    by (cases k) (simp_all add: ring_def linked_def boot_heap_def nth_Cons numeral_eq_Suc)
  show "n \<in> set (boot_lists k) \<Longrightarrow> is_slot n" for k n
    by (cases k) auto
  show "k \<noteq> k' \<Longrightarrow> set (boot_lists k) \<inter> set (boot_lists k') = {}" for k k'
    by (cases k; cases k') auto
  show "\<exists>k. n \<in> set (boot_lists k)" if "is_slot n" "cn_prev (boot_heap p n) \<noteq> None" for n
  proof (cases n)
    case (Slot i j)
    then have "i = 0" "j \<le> 6" using that by (auto simp: boot_heap_def boot_node_def Let_def split: if_splits)
    then have "j \<in> {0, 1, 2, 3, 4, 5, 6}" by auto
    then have "\<exists>k. Slot 0 j \<in> set (boot_lists k)"
      by (elim insertE emptyE) (metis boot_lists.simps list.set_intros)+
    then show ?thesis using Slot \<open>i = 0\<close> by simp
  qed (use that in auto)
qed

lemma init_procs_fold:
  "fold (\<lambda>i ps. ps(i := proc_init_proc i (ps i))) [0..<n] ps =
     (\<lambda>i. if i < n then proc_init_proc i (ps i) else ps i)"
  by (induction n) (auto simp: fun_eq_iff less_Suc_eq)

lemma proc_init_boot:
  assumes "fits 32 (drop_bit 12 root_payload)"
  shows "proc_init root_payload (\<lambda>_. boot_proc) (\<lambda>_. boot_node) =
    Inr (boot_procs root_payload, boot_heap root_payload)"
proof -
  have "0 < N_PROC" by (simp add: config_defs)
  then have "proc_init root_payload (\<lambda>_. boot_proc) (\<lambda>_. boot_node) =
    Inr ((\<lambda>i. if i < N_PROC then proc_init_proc i boot_proc else boot_proc)(0 := boot_procs root_payload 0),
         boot_heap root_payload)"
    by (simp add: proc_init_def init_procs_fold proc_init_root_boot [OF assms])
  moreover have "(\<lambda>i. if i < N_PROC then proc_init_proc i boot_proc else boot_proc)
    (0 := boot_procs root_payload 0) = boot_procs root_payload"
    by (auto simp: fun_eq_iff boot_procs_def proc_init_proc_def)
  ultimately show ?thesis by simp
qed

lemma boot_heap_cap: "cn_cap (boot_heap p (Slot i j)) = (if i = 0 then boot_cap p j else NULL_CAP)"
  by (auto simp: boot_heap_def boot_node_def boot_cap_def)

lemma boot_heap_live: "cn_prev (boot_heap p (Slot i j)) \<noteq> None \<longleftrightarrow> i = 0 \<and> j < 7"
proof -
  have "j < 7 \<Longrightarrow> j \<in> {0, 1, 2, 3, 4, 5, 6}" by auto
  then show ?thesis by (auto simp: boot_heap_def boot_node_def)
qed

section \<open>The PMP entries\<close>

definition pmp_slot :: "node_heap \<Rightarrow> nat \<Rightarrow> nat \<Rightarrow> cap_t" where
  "pmp_slot h row i = cap_node_get_cap h (Slot row i)"

lemma bit_push_mask: "bit (push_bit n (mask m) :: u64) b \<longleftrightarrow> n \<le> b \<and> b < 64 \<and> b < n + m"
  by (auto simp: bit_simps)

lemma load_pmp_loop_runs:
  assumes "p_cap_table p = Some row" "p_regs p PMP AND 0x80 = 0" "set is \<subseteq> {..<8}"
  shows "\<exists>cfg' ad'. load_pmp_loop p h is (cfg, ad) = Inr (cfg', ad') \<and> length ad' = length ad \<and>
    (\<forall>b. bit cfg' b \<longleftrightarrow> bit cfg b \<or> (\<exists>i \<in> set is. cap_is_type (pmp_slot h row i) CAP_TYPE_PMP \<and>
        (b = 3 \<or> b = 4 \<or> bit (push_bit (i * 8) (cap_pmp_get_rwx (pmp_slot h row i))) b))) \<and>
    (\<forall>k < length ad. ad' ! k =
       (if k \<in> set is \<and> cap_is_type (pmp_slot h row k) CAP_TYPE_PMP
        then push_bit 10 (cap_pmp_get_addr (pmp_slot h row k)) OR 0x3FF else ad ! k))"
  using assms(3)
proof (induction "is" arbitrary: cfg ad)
  case Nil
  then show ?case by simp
next
  case (Cons i js)
  have i: "unat ((of_nat i :: u64) mod of_nat N_CAPS) = i" "i < 8" "set js \<subseteq> {..<8}"
    using Cons.prems by (auto simp: config_defs unat_mod unat_of_nat)
  have no_mask: "(p_regs p PMP AND 255) AND 128 = 0"
    using assms(2) by (simp add: and.assoc)
  let ?c = "pmp_slot h row i"
  have b18: "bit (0x18 :: u64) b \<longleftrightarrow> b = 3 \<or> b = 4" for b
    using bit_push_mask [of 3 2 b] by (auto simp: mask_eq_exp_minus_1)
  show ?case
  proof (cases "cap_is_type ?c CAP_TYPE_PMP")
    case False
    then have "load_pmp_entry p h i (cfg, ad) = Inr (cfg, ad)"
      using assms(1) no_mask i by (simp add: load_pmp_entry_def proc_get_cap_def
          proc_get_cap_node_def pmp_slot_def Let_def)
    with Cons.IH [OF i(3), of cfg ad] False show ?thesis by auto
  next
    case True
    then have e: "load_pmp_entry p h i (cfg, ad) =
      Inr (cfg OR (push_bit (i * 8) (cap_pmp_get_rwx ?c) OR 0x18),
           ad[i := push_bit 10 (cap_pmp_get_addr ?c) OR 0x3FF])"
      using assms(1) no_mask i by (simp add: load_pmp_entry_def proc_get_cap_def
          proc_get_cap_node_def pmp_slot_def Let_def)
    let ?cfg = "cfg OR (push_bit (i * 8) (cap_pmp_get_rwx ?c) OR 0x18)"
    let ?ad = "ad[i := push_bit 10 (cap_pmp_get_addr ?c) OR 0x3FF]"
    obtain cfg' ad' where r: "load_pmp_loop p h js (?cfg, ?ad) = Inr (cfg', ad')"
      and l: "length ad' = length ?ad"
      and c: "\<And>b. bit cfg' b \<longleftrightarrow> bit ?cfg b \<or>
        (\<exists>i \<in> set js. cap_is_type (pmp_slot h row i) CAP_TYPE_PMP \<and>
          (b = 3 \<or> b = 4 \<or> bit (push_bit (i * 8) (cap_pmp_get_rwx (pmp_slot h row i))) b))"
      and d: "\<And>k. k < length ?ad \<Longrightarrow> ad' ! k =
        (if k \<in> set js \<and> cap_is_type (pmp_slot h row k) CAP_TYPE_PMP
         then push_bit 10 (cap_pmp_get_addr (pmp_slot h row k)) OR 0x3FF else ?ad ! k)"
      using Cons.IH [OF i(3), of ?cfg ?ad] by blast
    show ?thesis
    proof (intro exI conjI allI impI)
      show "load_pmp_loop p h (i # js) (cfg, ad) = Inr (cfg', ad')" using r by (simp add: e)
      show "length ad' = length ad" using l by simp
      show "bit cfg' b \<longleftrightarrow> bit cfg b \<or> (\<exists>i \<in> set (i # js). cap_is_type (pmp_slot h row i) CAP_TYPE_PMP \<and>
        (b = 3 \<or> b = 4 \<or> bit (push_bit (i * 8) (cap_pmp_get_rwx (pmp_slot h row i))) b))" for b
        unfolding c [of b] bit_or_iff b18 using True by auto
      show "ad' ! k = (if k \<in> set (i # js) \<and> cap_is_type (pmp_slot h row k) CAP_TYPE_PMP
        then push_bit 10 (cap_pmp_get_addr (pmp_slot h row k)) OR 0x3FF else ad ! k)"
        if "k < length ad" for k
        using that d [of k] True by (cases "k = i") auto
    qed
  qed
qed

lemma bit_field_get: "bit (field_get k n w) b \<longleftrightarrow> b < n \<and> bit w (k + b)"
  by (auto simp: field_get_def bit_simps dest: bit_imp_le_length)

text \<open>
  The address-matching mode of entry \<open>i\<close> is bits 3 and 4 of byte \<open>i\<close>; \<open>0\<close> is off and \<open>3\<close>
  is NAPOT.
\<close>

definition pmp_mode :: "u64 \<Rightarrow> nat \<Rightarrow> u64" where
  "pmp_mode cfg i = field_get (8 * i + 3) 2 cfg"

lemma load_pmp_modes:
  assumes "p_cap_table p = Some row" "p_regs p PMP AND 0x80 = 0"
    and rwx: "\<And>i. i < 8 \<Longrightarrow> cap_is_type (pmp_slot h row i) CAP_TYPE_PMP \<Longrightarrow>
      fits 3 (cap_pmp_get_rwx (pmp_slot h row i))"
  shows "\<exists>cfg addrs. proc_load_pmp p h = Inr (cfg, addrs) \<and>
    (\<forall>i < 8. addrs ! i = (if cap_is_type (pmp_slot h row i) CAP_TYPE_PMP
       then push_bit 10 (cap_pmp_get_addr (pmp_slot h row i)) OR 0x3FF else 0)) \<and>
    pmp_mode cfg 0 = (if \<exists>i < 8. cap_is_type (pmp_slot h row i) CAP_TYPE_PMP then 3 else 0) \<and>
    (\<forall>i \<in> {1..<8}. pmp_mode cfg i = 0)"
proof -
  obtain cfg ad where r: "proc_load_pmp p h = Inr (cfg, ad)"
    and c: "\<And>b. bit cfg b \<longleftrightarrow> (\<exists>i < 8. cap_is_type (pmp_slot h row i) CAP_TYPE_PMP \<and>
      (b = 3 \<or> b = 4 \<or> bit (push_bit (i * 8) (cap_pmp_get_rwx (pmp_slot h row i))) b))"
    and d: "\<And>k. k < 8 \<Longrightarrow> ad ! k = (if cap_is_type (pmp_slot h row k) CAP_TYPE_PMP
      then push_bit 10 (cap_pmp_get_addr (pmp_slot h row k)) OR 0x3FF else 0)"
  proof -
    define "is" :: "nat list" where "is = [0..<8]"
    define z :: "u64 list" where "z = replicate 8 0"
    have s: "set is = {..<8}" "length z = 8" "\<And>k. k < 8 \<Longrightarrow> z ! k = 0"
      unfolding is_def z_def by (auto simp only: set_upt atLeast0LessThan length_replicate nth_replicate)
    obtain cfg ad where l: "load_pmp_loop p h is (0, z) = Inr (cfg, ad)"
      and c: "\<forall>b. bit cfg b \<longleftrightarrow> bit (0 :: u64) b \<or> (\<exists>i \<in> set is. cap_is_type (pmp_slot h row i) CAP_TYPE_PMP \<and>
        (b = 3 \<or> b = 4 \<or> bit (push_bit (i * 8) (cap_pmp_get_rwx (pmp_slot h row i))) b))"
      and d: "\<forall>k < length z. ad ! k = (if k \<in> set is \<and> cap_is_type (pmp_slot h row k) CAP_TYPE_PMP
        then push_bit 10 (cap_pmp_get_addr (pmp_slot h row k)) OR 0x3FF else z ! k)"
      using load_pmp_loop_runs [OF assms(1,2), of "is" h 0 z] s(1) by blast
    show thesis
    proof (rule that)
      show "proc_load_pmp p h = Inr (cfg, ad)"
        using l by (simp only: proc_load_pmp_def is_def z_def)
      show "bit cfg b \<longleftrightarrow> (\<exists>i < 8. cap_is_type (pmp_slot h row i) CAP_TYPE_PMP \<and>
        (b = 3 \<or> b = 4 \<or> bit (push_bit (i * 8) (cap_pmp_get_rwx (pmp_slot h row i))) b))" for b
        using c unfolding s(1) Bex_def lessThan_iff bit_0_eq by blast
      show "ad ! k = (if cap_is_type (pmp_slot h row k) CAP_TYPE_PMP
        then push_bit 10 (cap_pmp_get_addr (pmp_slot h row k)) OR 0x3FF else 0)" if "k < 8" for k
        using d that unfolding s(1,2) lessThan_iff by (metis s(3))
    qed
  qed
  have off: "\<not> bit (push_bit (j * 8) (cap_pmp_get_rwx (pmp_slot h row j))) (8 * i + 3 + b)"
    if "j < 8" "cap_is_type (pmp_slot h row j) CAP_TYPE_PMP" "b < 2" for i j b
  proof
    assume "bit (push_bit (j * 8) (cap_pmp_get_rwx (pmp_slot h row j))) (8 * i + 3 + b)"
    then have "j * 8 \<le> 8 * i + 3 + b" "8 * i + 3 + b - j * 8 < 3"
      using fits_bit [OF rwx [OF that(1,2)]] by (auto simp: bit_push_bit_iff)
    moreover from this(1) that(3) have "j \<le> i" by arith
    ultimately show False by arith
  qed
  have "pmp_mode cfg i = 0" if "i \<in> {1..<8}" for i
  proof (rule bit_eqI)
    fix b
    show "bit (pmp_mode cfg i) b = bit 0 b"
      using off that by (auto simp: pmp_mode_def bit_field_get c)
  qed
  moreover have "pmp_mode cfg 0 = (if \<exists>i < 8. cap_is_type (pmp_slot h row i) CAP_TYPE_PMP then 3 else 0)"
  proof (cases "\<exists>i < 8. cap_is_type (pmp_slot h row i) CAP_TYPE_PMP")
    case True
    have "pmp_mode cfg 0 = mask 2"
      by (rule bit_eqI) (use True in \<open>auto simp: pmp_mode_def bit_field_get bit_mask_iff c less_2_cases_iff\<close>)
    then show ?thesis using True by (simp add: mask_eq_exp_minus_1)
  next
    case False
    then have "pmp_mode cfg 0 = 0"
      by (intro bit_eqI) (auto simp: pmp_mode_def bit_field_get c)
    then show ?thesis using False by simp
  qed
  ultimately show ?thesis using r d by auto
qed

section \<open>Properties\<close>

text \<open>The registers of a process are an array of 43 words: a written register reads back
  and every other keeps its value, the call returns the old value, and an index out of range
  writes nothing and reads zero.\<close>

lemma register_roundtrip:
  "proc_read_register (snd (proc_write_register p i v)) j =
     (if unat j < N_REGISTERS then if j = i then v else proc_read_register p j else 0) \<and>
   fst (proc_write_register p i v) = proc_read_register p i"
  using register_write_read [of p i v j] register_write_old [of p i v]
  by (auto simp: proc_read_register_def)

text \<open>\<open>proc_load_pmp\<close> writes the address of each PMP capability of slots 0 to 7 to the
  entry of the same number, but sets the NAPOT mode in entry 0 only: the mode bits are not
  shifted to the entry, so the entries 1 to 7 stay off.\<close>

lemma pmp_entries_off:
  assumes "p_cap_table p = Some row" "p_regs p PMP AND 0x80 = 0"
    "\<forall>i < 8. cap_is_type (pmp_slot h row i) CAP_TYPE_PMP \<longrightarrow> fits 3 (cap_pmp_get_rwx (pmp_slot h row i))"
  shows "\<exists>cfg addrs. proc_load_pmp p h = Inr (cfg, addrs) \<and>
    (\<forall>i < 8. addrs ! i = (if cap_is_type (pmp_slot h row i) CAP_TYPE_PMP
       then push_bit 10 (cap_pmp_get_addr (pmp_slot h row i)) OR 0x3FF else 0)) \<and>
    pmp_mode cfg 0 = (if \<exists>i < 8. cap_is_type (pmp_slot h row i) CAP_TYPE_PMP then 3 else 0) \<and>
    (\<forall>i \<in> {1..<8}. pmp_mode cfg i = 0)"
  using load_pmp_modes [OF assms(1,2)] assms(3) by blast

lemma boot_pmp_slots: "i < 8 \<Longrightarrow> pmp_slot (boot_heap 0) 0 i = boot_cap 0 i"
  using boot_heap_cap [of 0 0 i] boot_heap_live [of 0 0 i]
  by (cases "i < 7") (simp_all add: pmp_slot_def cap_node_get_cap_def cap_node_is_deleted_def boot_cap_def
      del: not_None_eq)

lemma pmp_entries_off_example:
  "\<exists>cfg addrs. proc_load_pmp (boot_procs 0 0) (boot_heap 0) = Inr (cfg, addrs) \<and> pmp_mode cfg 1 = 0"
proof -
  have k: "cap_is_type (pmp_slot (boot_heap 0) 0 i) CAP_TYPE_PMP \<Longrightarrow>
      fits 3 (cap_pmp_get_rwx (pmp_slot (boot_heap 0) 0 i))" if "i < 8" for i
  proof -
    assume t: "cap_is_type (pmp_slot (boot_heap 0) 0 i) CAP_TYPE_PMP"
    have "i = 0"
    proof (rule ccontr)
      assume "i \<noteq> 0"
      then show False
        using t that mk_channels_get(1) [of 0 "of_nat N_CHANNELS" 0] mk_supervisor_get(1) [of 0 "of_nat N_PROC" 0]
          mk_time_get(1) [of "of_nat (i - 2)" 0 "of_nat N_QUANTUM" 0]
        by (auto simp: boot_pmp_slots boot_cap_def cap_is_type_def fits_unat config_defs unat_of_nat
            NULL_CAP_def cap_get_type_def split: if_splits)
    qed
    then show ?thesis using mk_pmp_get(3) [of 0 7] by (simp add: boot_pmp_slots boot_cap_def fits_unat)
  qed
  show ?thesis
    using pmp_entries_off [of "boot_procs 0 0" 0 "boot_heap 0"] k
    by (auto simp: boot_procs_def boot_proc_def)
qed

end
