(* ===== verification/Lock.thy ===== *)
theory Lock
  imports Atomic
begin

text \<open>
  The ticket lock of \<open>inc/lock.h\<close>. First the operations as one hart runs them while no
  other hart is inside, with the locale \<open>mutex\<close> that the scheduler and the channel table
  rely on. Then the lock shared by all harts: \<open>lstep\<close> interleaves the atomic accesses of
  the harts, and \<open>queue_rel\<close> relates each state to a queue of harts, the abstract lock it
  implements. The C counters are \<open>int\<close>; they wrap around as 32-bit words, which is
  harmless because no more harts can wait than there are.
\<close>

section \<open>The operations\<close>

record lock_t =
  now_serving :: u32
  next_ticket :: u32

definition INIT_LOCK :: lock_t where
  "INIT_LOCK = \<lparr>now_serving = 0, next_ticket = 0\<rparr>"

text \<open>
  The waiting loop only reads, so when nobody else runs it either exits at once or never.
\<close>

partial_function (option) lock_spin :: "u32 \<Rightarrow> lock_t \<Rightarrow> unit option" where
  "lock_spin ticket l = (if ticket \<noteq> now_serving l then lock_spin ticket l else Some ())"

definition lock_acquire :: "lock_t \<Rightarrow> stop + lock_t" where
  "lock_acquire l =
     (let (ticket, nt) = fetch_and_add (next_ticket l) 1; l' = l\<lparr>next_ticket := nt\<rparr>
      in case lock_spin ticket l' of None \<Rightarrow> Inl Spins | Some _ \<Rightarrow> Inr l')"

definition lock_release :: "lock_t \<Rightarrow> lock_t" where
  "lock_release l = l\<lparr>now_serving := now_serving l + 1\<rparr>"

definition lock_free :: "lock_t \<Rightarrow> bool" where
  "lock_free l \<longleftrightarrow> now_serving l = next_ticket l"

definition lock_held :: "lock_t \<Rightarrow> bool" where
  "lock_held l \<longleftrightarrow> next_ticket l = now_serving l + 1"

lemma lock_spin_exit: "lock_spin t l = Some () \<longleftrightarrow> t = now_serving l"
proof
  assume "lock_spin t l = Some ()"
  then show "t = now_serving l"
    by (rule lock_spin.raw_induct [where P = "\<lambda>t l _. t = now_serving l", rotated])
      (auto split: if_splits)
next
  assume "t = now_serving l"
  then show "lock_spin t l = Some ()" by (simp add: lock_spin.simps)
qed

lemma lock_spin_option: "lock_spin t l = (if t = now_serving l then Some () else None)"
  using lock_spin_exit [of t l] by (cases "lock_spin t l") auto

locale mutex =
  fixes free held :: "'l \<Rightarrow> bool" and acq :: "'l \<Rightarrow> stop + 'l" and rel :: "'l \<Rightarrow> 'l"
  assumes acq_free: "free l \<Longrightarrow> \<exists>l'. acq l = Inr l' \<and> held l'"
    and rel_held: "held l \<Longrightarrow> free (rel l)"
    and acq_busy: "held l \<Longrightarrow> acq l = Inl Spins"
begin

lemma critical_section:
  assumes "free l"
  obtains l' where "acq l = Inr l'" and "free (rel l')"
  using acq_free [OF assms] rel_held by blast

lemma not_both: "held l \<Longrightarrow> \<not> free l"
  using acq_free acq_busy by fastforce

lemma acq_exclusive: "acq l = Inr l' \<Longrightarrow> held l' \<Longrightarrow> acq l' = Inl Spins"
  by (rule acq_busy)

end

interpretation ticket: mutex lock_free lock_held lock_acquire lock_release
  by unfold_locales
    (auto simp: lock_free_def lock_held_def lock_acquire_def lock_release_def fetch_and_add_def
      lock_spin_option)

lemma lock_free_init [simp]: "lock_free INIT_LOCK"
  by (simp add: lock_free_def INIT_LOCK_def)

section \<open>The lock shared by the harts\<close>

datatype lock_pc = Outside | Waiting u32 | Inside

record lock_sys =
  ls_lock :: lock_t
  ls_pc :: "nat \<Rightarrow> lock_pc"

definition lock_sys_init :: lock_sys where
  "lock_sys_init = \<lparr>ls_lock = INIT_LOCK, ls_pc = (\<lambda>_. Outside)\<rparr>"

text \<open>
  One step is one memory access of one hart: taking a ticket (\<open>fetch_and_add\<close>), one more
  look at \<open>now_serving\<close> that fails or succeeds, and the store of \<open>lock_release\<close>.
\<close>

inductive lstep :: "lock_sys \<Rightarrow> lock_sys \<Rightarrow> bool" where
  take: "h < N_HARTS \<Longrightarrow> ls_pc s h = Outside \<Longrightarrow> fetch_and_add (next_ticket (ls_lock s)) 1 = (t, nt) \<Longrightarrow>
    lstep s (s\<lparr>ls_lock := (ls_lock s)\<lparr>next_ticket := nt\<rparr>, ls_pc := (ls_pc s)(h := Waiting t)\<rparr>)"
| spin: "ls_pc s h = Waiting t \<Longrightarrow> t \<noteq> now_serving (ls_lock s) \<Longrightarrow> lstep s s"
| enter: "ls_pc s h = Waiting t \<Longrightarrow> t = now_serving (ls_lock s) \<Longrightarrow>
    lstep s (s\<lparr>ls_pc := (ls_pc s)(h := Inside)\<rparr>)"
| leave: "ls_pc s h = Inside \<Longrightarrow>
    lstep s (s\<lparr>ls_lock := lock_release (ls_lock s), ls_pc := (ls_pc s)(h := Outside)\<rparr>)"

text \<open>
  The abstract lock: a queue of distinct harts. A waiting hart's ticket is \<open>now_serving\<close>
  plus its place, and only the first of the queue can be inside.
\<close>

definition queue_rel :: "lock_sys \<Rightarrow> nat list \<Rightarrow> bool" where
  "queue_rel s q \<longleftrightarrow> distinct q \<and> set q = {h. ls_pc s h \<noteq> Outside} \<and> set q \<subseteq> {..<N_HARTS} \<and>
     next_ticket (ls_lock s) = now_serving (ls_lock s) + of_nat (length q) \<and>
     (\<forall>i < length q. \<forall>t. ls_pc s (q ! i) = Waiting t \<longrightarrow> t = now_serving (ls_lock s) + of_nat i) \<and>
     (\<forall>i < length q. ls_pc s (q ! i) = Inside \<longrightarrow> i = 0)"

lemma queue_short: "queue_rel s q \<Longrightarrow> length q \<le> N_HARTS"
  unfolding queue_rel_def
  by (metis card_lessThan card_mono distinct_card finite_lessThan)

lemma of_nat_u32_inject:
  assumes "i \<le> N_HARTS" "j \<le> N_HARTS"
  shows "(of_nat i :: u32) = of_nat j \<longleftrightarrow> i = j"
proof -
  have "unat (of_nat i :: u32) = i" "unat (of_nat j :: u32) = j"
    using assms by (simp_all add: config_defs unat_of_nat)
  then show ?thesis by metis
qed

lemma queue_rel_init: "queue_rel lock_sys_init []"
  by (simp add: queue_rel_def lock_sys_init_def INIT_LOCK_def)

lemma queue_head:
  assumes "queue_rel s q" "h < N_HARTS"
    and "ls_pc s h = Inside \<or> (\<exists>t. ls_pc s h = Waiting t \<and> t = now_serving (ls_lock s))"
  shows "\<exists>q'. q = h # q'"
proof -
  from assms have "h \<in> set q" by (auto simp: queue_rel_def)
  then obtain i where i: "i < length q" "q ! i = h" by (metis in_set_conv_nth)
  have "i = 0"
  proof (cases "ls_pc s h = Inside")
    case True
    with assms(1) i show ?thesis by (auto simp: queue_rel_def)
  next
    case False
    with assms(1,3) i have "of_nat i = (of_nat 0 :: u32)" by (force simp: queue_rel_def)
    moreover have "i \<le> N_HARTS" using i queue_short [OF assms(1)] by simp
    ultimately show ?thesis using of_nat_u32_inject [of i 0] by simp
  qed
  with i show ?thesis by (cases q) auto
qed

text \<open>
  The simulation: taking a ticket enqueues the hart, leaving dequeues the head, and the
  other accesses leave the queue alone.
\<close>

lemma queue_rel_take:
  assumes "queue_rel s q" "h < N_HARTS" "ls_pc s h = Outside"
    "fetch_and_add (next_ticket (ls_lock s)) 1 = (t, nt)"
  shows "queue_rel (s\<lparr>ls_lock := (ls_lock s)\<lparr>next_ticket := nt\<rparr>,
                      ls_pc := (ls_pc s)(h := Waiting t)\<rparr>) (q @ [h])"
proof -
  have h: "h \<notin> set q" using assms(1,3) by (auto simp: queue_rel_def)
  then have "q ! i \<noteq> h" if "i < length q" for i using that by auto
  then show ?thesis
    using assms h by (auto simp: queue_rel_def fetch_and_add_def nth_append less_Suc_eq)
qed

lemma queue_rel_enter:
  assumes "queue_rel s q" "h < N_HARTS" "ls_pc s h = Waiting t" "t = now_serving (ls_lock s)"
  shows "queue_rel (s\<lparr>ls_pc := (ls_pc s)(h := Inside)\<rparr>) q"
proof -
  obtain q' where q: "q = h # q'"
    using queue_head [OF assms(1,2)] assms(3,4) by blast
  have "i = 0" if "i < length q" "q ! i = h" for i
    using that assms(1) q by (auto simp: queue_rel_def nth_Cons split: nat.splits)
  then show ?thesis
    using assms by (auto simp: queue_rel_def)
qed

lemma queue_rel_leave:
  assumes "queue_rel s q" "h < N_HARTS" "ls_pc s h = Inside"
  shows "queue_rel (s\<lparr>ls_lock := lock_release (ls_lock s), ls_pc := (ls_pc s)(h := Outside)\<rparr>)
           (tl q)"
proof -
  obtain q' where q: "q = h # q'"
    using queue_head [OF assms(1,2)] assms(3) by blast
  have ne: "q' ! i \<noteq> h" if "i < length q'" for i
    using that assms(1) q by (auto simp: queue_rel_def)
  have tk: "t = now_serving (ls_lock s) + of_nat (Suc i)"
    if "i < length q'" "ls_pc s (q' ! i) = Waiting t" for i t
    using assms(1) q that unfolding queue_rel_def
    by (metis Suc_less_eq length_Cons nth_Cons_Suc)
  have ni: "ls_pc s (q' ! i) \<noteq> Inside" if "i < length q'" for i
    using assms(1) q that unfolding queue_rel_def
    by (metis Suc_less_eq length_Cons nth_Cons_Suc old.nat.distinct(1))
  show ?thesis
    using assms(1) q ne tk ni by (auto simp: queue_rel_def lock_release_def algebra_simps)
qed

lemma lock_sys_harts:
  "queue_rel s q \<Longrightarrow> ls_pc s h \<noteq> Outside \<Longrightarrow> h < N_HARTS"
  by (auto simp: queue_rel_def)

lemma queue_rel_step:
  assumes "lstep s s'" "queue_rel s q"
  shows "\<exists>q'. queue_rel s' q' \<and>
    (q' = q \<or> (\<exists>h. ls_pc s h = Outside \<and> ls_pc s' h \<noteq> Outside \<and> q' = q @ [h]) \<or>
     (\<exists>h. ls_pc s h = Inside \<and> ls_pc s' h = Outside \<and> q = h # q'))"
  using assms(1)
proof (cases rule: lstep.cases)
  case (take h t nt)
  then show ?thesis
    using queue_rel_take [OF assms(2) take(2,3,4)] by (intro exI [of _ "q @ [h]"]) auto
next
  case (spin h t)
  then show ?thesis using assms(2) by blast
next
  case (enter h t)
  then show ?thesis using queue_rel_enter [OF assms(2)] lock_sys_harts [OF assms(2)]
    by (metis lock_pc.distinct(1))
next
  case (leave h)
  then have h: "h < N_HARTS" using lock_sys_harts [OF assms(2), of h] by simp
  obtain q' where q': "q = h # q'" using queue_head [OF assms(2) h] leave(2) by blast
  then show ?thesis
    using queue_rel_leave [OF assms(2) h leave(2)] leave by (intro exI [of _ q']) auto
qed

lemma queue_rel_reachable: "lstep\<^sup>*\<^sup>* lock_sys_init s \<Longrightarrow> \<exists>q. queue_rel s q"
  by (induction rule: rtranclp_induct) (use queue_rel_init queue_rel_step in blast)+

text \<open>The hart at place \<open>i\<close> of the queue is let in after at most \<open>2 * i + 1\<close> steps.\<close>

lemma queue_first_enters:
  assumes "queue_rel s (h # q)"
  shows "ls_pc s h = Inside \<or>
    (\<exists>s'. lstep s s' \<and> queue_rel s' (h # q) \<and> ls_pc s' h = Inside)"
proof (cases "ls_pc s h")
  case Outside
  then show ?thesis using assms by (auto simp: queue_rel_def)
next
  case Inside
  then show ?thesis by simp
next
  case (Waiting t)
  then have t: "t = now_serving (ls_lock s)" using assms by (force simp: queue_rel_def)
  have h: "h < N_HARTS" using assms by (simp add: queue_rel_def)
  show ?thesis
    using lstep.enter [OF Waiting t] queue_rel_enter [OF assms h Waiting t] by auto
qed

lemma queue_turn:
  assumes "queue_rel s q" "i < length q"
  shows "\<exists>n s'. n \<le> 2 * i + 1 \<and> (lstep ^^ n) s s' \<and> ls_pc s' (q ! i) = Inside"
  using assms
proof (induction i arbitrary: s q)
  case 0
  then obtain h q0 where q: "q = h # q0" by (cases q) auto
  then consider "ls_pc s h = Inside" | s' where "lstep s s'" "ls_pc s' h = Inside"
    using queue_first_enters 0(1) by blast
  then show ?case
  proof cases
    case 1
    then show ?thesis using q by (intro exI [of _ 0]) auto
  next
    case (2 s')
    then show ?thesis using q by (intro exI [of _ 1]) auto
  qed
next
  case (Suc i)
  then obtain h q0 where q: "q = h # q0" by (cases q) auto
  have h: "h < N_HARTS" using Suc.prems(1) q by (simp add: queue_rel_def)
  obtain m s1 where s1: "m \<le> 1" "(lstep ^^ m) s s1" "queue_rel s1 q" "ls_pc s1 h = Inside"
  proof (cases "ls_pc s h = Inside")
    case True
    then show ?thesis using that [of 0 s] Suc.prems(1) by simp
  next
    case False
    then show ?thesis using queue_first_enters [of s h q0] Suc.prems(1) q that [of 1] by auto
  qed
  obtain s2 where s2: "lstep s1 s2" "queue_rel s2 q0"
    using lstep.leave [OF s1(4)] queue_rel_leave [OF s1(3) h s1(4)] q by auto
  have "i < length q0" using Suc.prems(2) q by simp
  from Suc.IH [OF s2(2) this] obtain n s' where
    n: "n \<le> 2 * i + 1" "(lstep ^^ n) s2 s'" "ls_pc s' (q0 ! i) = Inside" by blast
  have "(lstep ^^ (m + Suc n)) s s'"
    using s1(2) relpowp_Suc_I2 [of lstep, OF s2(1) n(2)] relpowp_trans [of m lstep s s1 "Suc n"] by blast
  then show ?case using n(1,3) s1(1) q by (intro exI [of _ "m + Suc n"] exI [of _ s']) simp
qed

section \<open>Properties\<close>

text \<open>C28: from the initial lock, whatever the harts do, at most one of them is inside the
  critical section.\<close>

theorem ticket_mutex:
  assumes "lstep\<^sup>*\<^sup>* lock_sys_init s" "ls_pc s h = Inside" "ls_pc s h' = Inside"
  shows "h = h'"
proof -
  obtain q where q: "queue_rel s q" using queue_rel_reachable [OF assms(1)] by blast
  then have "h < N_HARTS" "h' < N_HARTS"
    using lock_sys_harts [OF q] assms(2,3) by simp_all
  then obtain r r' where "q = h # r" "q = h' # r'"
    using queue_head [OF q] assms(2,3) by meson
  then show ?thesis by simp
qed

text \<open>Hart 0 has taken the first ticket, and then the lock.\<close>

definition lock_waiting :: lock_sys where
  "lock_waiting = \<lparr>ls_lock = \<lparr>now_serving = 0, next_ticket = 1\<rparr>, ls_pc = (\<lambda>_. Outside)(0 := Waiting 0)\<rparr>"

definition lock_taken :: lock_sys where
  "lock_taken = lock_waiting\<lparr>ls_pc := (\<lambda>_. Outside)(0 := Inside)\<rparr>"

lemma lock_waiting_step: "lstep lock_sys_init lock_waiting"
  using lstep.take [of 0 lock_sys_init 0 1]
  by (simp add: lock_sys_init_def lock_waiting_def INIT_LOCK_def fetch_and_add_def config_defs)

lemma lock_taken_step: "lstep lock_waiting lock_taken"
  using lstep.enter [of lock_waiting 0 0] by (simp add: lock_waiting_def lock_taken_def)

lemma lock_taken_reachable: "lstep\<^sup>*\<^sup>* lock_sys_init lock_taken"
  using lock_waiting_step lock_taken_step by (meson rtranclp.simps)

theorem ticket_mutex_witness:
  "ls_pc lock_taken 0 = Inside \<and> {h. ls_pc lock_taken h = Inside} = {0}"
proof -
  have i: "ls_pc lock_taken 0 = Inside" by (simp add: lock_taken_def)
  then show ?thesis using ticket_mutex [OF lock_taken_reachable _ i] by blast
qed

text \<open>C29: the ticket lock refines a first-come first-served queue. A step of a hart leaves
  the queue, appends the hart that took a ticket, or removes the first, which was inside.\<close>

theorem ticket_fifo:
  assumes "lstep s s'" "queue_rel s q"
  shows "\<exists>q'. queue_rel s' q' \<and>
    (q' = q \<or> (\<exists>h. ls_pc s h = Outside \<and> ls_pc s' h \<noteq> Outside \<and> q' = q @ [h]) \<or>
     (\<exists>h. ls_pc s h = Inside \<and> ls_pc s' h = Outside \<and> q = h # q'))"
  by (rule queue_rel_step [OF assms])

theorem ticket_fifo_witness:
  "\<exists>q'. queue_rel lock_waiting q' \<and>
    (q' = [] \<or> (\<exists>h. ls_pc lock_sys_init h = Outside \<and> ls_pc lock_waiting h \<noteq> Outside \<and> q' = [] @ [h]) \<or>
     (\<exists>h. ls_pc lock_sys_init h = Inside \<and> ls_pc lock_waiting h = Outside \<and> [] = h # q'))"
  by (rule ticket_fifo [OF lock_waiting_step queue_rel_init])

text \<open>Nobody waits for ever by the protocol itself. From every reachable state a waiting
  hart can be let in within \<open>2 * N_HARTS\<close> steps.\<close>

lemma ticket_turn:
  assumes "lstep\<^sup>*\<^sup>* lock_sys_init s" "ls_pc s h \<noteq> Outside"
  shows "\<exists>n s'. n \<le> 2 * N_HARTS \<and> (lstep ^^ n) s s' \<and> ls_pc s' h = Inside"
proof -
  obtain q where q: "queue_rel s q" using queue_rel_reachable [OF assms(1)] by blast
  then have "h \<in> set q" using assms(2) by (simp add: queue_rel_def)
  then obtain i where i: "i < length q" "q ! i = h" by (auto simp: in_set_conv_nth)
  obtain n s' where n: "n \<le> 2 * i + 1" "(lstep ^^ n) s s'" "ls_pc s' h = Inside"
    using queue_turn [OF q i(1)] i(2) by blast
  have "n \<le> 2 * N_HARTS" using n(1) i(1) queue_short [OF q] by simp
  then show ?thesis using n by blast
qed

lemma ticket_turn_example:
  "\<exists>n s'. n \<le> 2 * N_HARTS \<and> (lstep ^^ n) lock_waiting s' \<and> ls_pc s' 0 = Inside"
  by (rule ticket_turn) (use lock_waiting_step in \<open>auto simp: lock_waiting_def\<close>)

end
