(* ===== verification/Sched.thy ===== *)
theory Sched
  imports Proc Lock
begin

text \<open>
  The time-partitioned scheduler of \<open>sched.c\<close>. The schedule is a table of 16-bit entries,
  one per quantum of the major frame and hart, each packing a process id and the number of
  quanta until the slice it belongs to ends. \<open>sched_update\<close> rewrites a range of it for the
  holder of a time capability, \<open>sched_get_proc\<close> looks up who may run, and \<open>sched_start\<close>
  polls the clock until a process can be dispatched. The clock is the sequence of values
  that successive reads of \<open>mtime\<close> give.
\<close>

section \<open>The schedule\<close>

type_synonym schedule = "nat \<Rightarrow> nat \<Rightarrow> u16"

record sched_entry_t =
  se_pid :: u8
  se_length :: u8

definition INVALID_PID :: u64 where "INVALID_PID = 0xFF"

abbreviation set_entry :: "schedule \<Rightarrow> nat \<Rightarrow> nat \<Rightarrow> u16 \<Rightarrow> schedule" where
  "set_entry s q j v \<equiv> s(q := (s q)(j := v))"

definition sched_init :: "schedule \<Rightarrow> schedule" where
  "sched_init schedule =
     fold (\<lambda>i s. fold (\<lambda>j s. set_entry s i (j - MIN_HARTID) (push_bit 8 (of_nat (N_QUANTUM - i))))
       [MIN_HARTID..<Suc MAX_HARTID] s) [0..<N_QUANTUM] schedule"

definition hart_ok :: "u64 \<Rightarrow> bool" where
  "hart_ok hartid \<longleftrightarrow> MIN_HARTID \<le> unat hartid \<and> unat hartid \<le> MAX_HARTID"

definition sched_get :: "schedule \<Rightarrow> u64 \<Rightarrow> u64 \<Rightarrow> stop + sched_entry_t" where
  "sched_get schedule q hartid =
     ebind (kassert (unat q < N_QUANTUM)) (\<lambda>_.
     ebind (kassert (hart_ok hartid)) (\<lambda>_.
     let val = ucast (schedule (unat q) (unat hartid - MIN_HARTID)) :: u64
     in Inr \<lparr>se_pid = ucast (val AND 0xFF), se_length = ucast (drop_bit 8 val AND 0xFF)\<rparr>))"

definition sched_set :: "schedule \<Rightarrow> u64 \<Rightarrow> u64 \<Rightarrow> u64 \<Rightarrow> u64 \<Rightarrow> stop + schedule" where
  "sched_set schedule q hartid pid len =
     ebind (kassert (hart_ok hartid)) (\<lambda>_.
     ebind (kassert (unat q < N_QUANTUM)) (\<lambda>_.
     ebind (kassert (pid = INVALID_PID \<or> unat pid < N_PROC)) (\<lambda>_.
     ebind (kassert (len AND 0xFF = len)) (\<lambda>_.
     Inr (set_entry schedule (unat q) (unat hartid - MIN_HARTID) (ucast (pid OR push_bit 8 len)))))))"

text \<open>The loop of \<open>sched_get_proc\<close> over the harts below its own.\<close>

fun sched_preempted :: "schedule \<Rightarrow> u64 \<Rightarrow> u8 \<Rightarrow> nat list \<Rightarrow> stop + bool" where
  "sched_preempted schedule quantum pid [] = Inr False"
| "sched_preempted schedule quantum pid (i # is) =
     ebind (sched_get schedule quantum (of_nat i)) (\<lambda>entry.
     if pid = se_pid entry then Inr True else sched_preempted schedule quantum pid is)"

definition sched_get_proc :: "schedule \<Rightarrow> u64 \<Rightarrow> u64 \<Rightarrow> stop + (nat \<times> u64) option" where
  "sched_get_proc schedule hartid time =
     (let quantum = time mod of_nat N_QUANTUM
      in ebind (sched_get schedule quantum hartid) (\<lambda>entry.
         if ucast (se_pid entry) = INVALID_PID then Inr None
         else ebind (sched_preempted schedule quantum (se_pid entry) [MIN_HARTID..<unat hartid])
           (\<lambda>preempted. Inr (if preempted then None
              else Some (unat (se_pid entry), ucast (se_length entry))))))"

text \<open>The loop of \<open>sched_update\<close>, from \<open>i\<close> up to \<open>end\<close>.\<close>

fun sched_set_range :: "schedule \<Rightarrow> u64 \<Rightarrow> u64 \<Rightarrow> nat \<Rightarrow> nat list \<Rightarrow> stop + schedule" where
  "sched_set_range schedule hartid pid e [] = Inr schedule"
| "sched_set_range schedule hartid pid e (i # is) =
     ebind (sched_set schedule (of_nat i) hartid pid (of_nat (e - i))) (\<lambda>schedule.
     sched_set_range schedule hartid pid e is)"

definition sched_update ::
    "node_heap \<Rightarrow> node_ptr \<Rightarrow> u64 \<Rightarrow> u64 \<Rightarrow> u64 \<Rightarrow> u64 \<Rightarrow> schedule \<times> lock_t \<Rightarrow> stop + schedule \<times> lock_t" where
  "sched_update h cn hartid b e pid = (\<lambda>(schedule, lock).
     ebind (kassert (b < e)) (\<lambda>_.
     ebind (kassert (hart_ok hartid)) (\<lambda>_.
     ebind (kassert (unat e \<le> N_QUANTUM)) (\<lambda>_.
     ebind (kassert (pid = INVALID_PID \<or> unat pid < N_PROC)) (\<lambda>_.
     ebind (lock_acquire lock) (\<lambda>lock.
     ebind (if cap_node_is_deleted h cn then Inr schedule
            else sched_set_range schedule hartid pid (unat e) [unat b..<unat e]) (\<lambda>schedule.
     Inr (schedule, lock_release lock))))))))"

section \<open>Dispatching\<close>

text \<open>
  The two values \<open>wait_and_set_timeout\<close> writes to the timer of the hart: the first is waited
  for, the second ends the slice.
\<close>

definition wait_and_set_timeout :: "u64 \<Rightarrow> u64 \<Rightarrow> u64 \<Rightarrow> u64 \<times> u64" where
  "wait_and_set_timeout time len timeout =
     (let start_time = time * TICKS;
          end_time = start_time + len * TICKS - SCHEDULER_TICKS;
          start_time = (if timeout > start_time then timeout else start_time)
      in (start_time, end_time))"

record dispatch =
  d_proc :: nat
  d_start :: u64
  d_end :: u64

text \<open>
  One round of \<open>sched_start\<close> at clock reading \<open>now\<close>: \<open>None\<close> when it continues, else the
  dispatched process, with the states of the processes after \<open>proc_acquire\<close>.
\<close>

definition sched_try ::
    "schedule \<Rightarrow> u64 \<Rightarrow> u64 \<Rightarrow> (nat \<Rightarrow> proc) \<Rightarrow> stop + (dispatch \<times> (nat \<Rightarrow> proc)) option" where
  "sched_try schedule hartid now processes =
     (let time = now div TICKS + 1
      in ebind (sched_get_proc schedule hartid time) (\<lambda>r.
      case r of
        None \<Rightarrow> Inr None
      | Some (pid, len) \<Rightarrow>
          ebind (if pid < N_PROC then Inr () else Inl Out_of_bounds) (\<lambda>_.
          let timeout = p_regs (processes pid) TIMEOUT;
              end_time = (time + len) * TICKS - SCHEDULER_TICKS
          in if timeout \<ge> end_time then Inr None
             else (case proc_acquire (p_state (processes pid)) of (ok, state) \<Rightarrow>
               if \<not> ok then Inr None
               else (case wait_and_set_timeout time len timeout of (s, e) \<Rightarrow>
                 Inr (Some (\<lparr>d_proc = pid, d_start = s, d_end = e\<rparr>,
                   processes(pid := (processes pid)\<lparr>p_state := state\<rparr>))))))))"

partial_function (option) sched_start ::
    "(nat \<Rightarrow> u64) \<Rightarrow> nat \<Rightarrow> schedule \<Rightarrow> u64 \<Rightarrow> (nat \<Rightarrow> proc) \<Rightarrow>
       (stop + dispatch \<times> (nat \<Rightarrow> proc)) option" where
  "sched_start clock i schedule hartid processes =
     (case sched_try schedule hartid (clock i) processes of
        Inl e \<Rightarrow> Some (Inl e)
      | Inr None \<Rightarrow> sched_start clock (Suc i) schedule hartid processes
      | Inr (Some r) \<Rightarrow> Some (Inr r))"

section \<open>Packing\<close>

lemma and_FF: "unat ((x :: u64) AND 0xFF) = unat x mod 256"
proof -
  have "x AND 0xFF = take_bit 8 x" by (simp add: take_bit_eq_mask mask_eq_exp_minus_1)
  then show ?thesis by (simp add: take_bit_eq_mod unat_mod)
qed

lemma unat_ucast_16_64: "unat (ucast (w :: u16) :: u64) = unat w"
proof -
  have "unat w < 2 ^ LENGTH(16)" by (rule unsigned_less)
  then show ?thesis by (simp add: unsigned_ucast_eq take_bit_eq_mod)
qed

lemma unat_ucast_64_8: "unat (ucast (w :: u64) :: u8) = unat w mod 256"
  by (simp add: unsigned_ucast_eq take_bit_eq_mod)

lemma unpack_pid: "unat (ucast ((ucast (w :: u16) :: u64) AND 0xFF) :: u8) = unat w mod 256"
  by (simp only: unat_ucast_64_8 and_FF unat_ucast_16_64 mod_mod_trivial)

lemma unpack_length: "unat (ucast (drop_bit 8 (ucast (w :: u16) :: u64) AND 0xFF) :: u8) = unat w div 256"
proof -
  have "unat w < 2 ^ LENGTH(16)" by (rule unsigned_less)
  then have "unat w div 256 < 256" by simp
  then show ?thesis
    by (simp add: unat_ucast_64_8 and_FF drop_bit_eq_div unat_div unat_ucast_16_64)
qed

lemma pack:
  assumes "unat (p :: u64) < 256" "unat (l :: u64) < 256"
  shows "unat (ucast (p OR push_bit 8 l) :: u16) = unat p + 256 * unat l"
proof -
  have "p AND push_bit 8 l = 0"
  proof (rule bit_eqI)
    fix n
    have "fits 8 p" using assms(1) by (simp add: fits_unat)
    then show "bit (p AND push_bit 8 l) n = bit 0 n"
      using fits_bit [of 8 p n] by (auto simp: bit_simps)
  qed
  then have "p OR push_bit 8 l = p + push_bit 8 l" by (simp add: disjunctive_add_eq_or)
  moreover have "unat (push_bit 8 l) = 256 * unat l"
    using assms(2) by (simp add: push_bit_eq_mult unat_word_ariths)
  ultimately have "unat (p OR push_bit 8 l) = unat p + 256 * unat l"
    using assms by (simp add: unat_word_ariths)
  then show ?thesis using assms by (simp add: unsigned_ucast_eq take_bit_eq_mod)
qed
section \<open>Entries\<close>

text \<open>What the entry of quantum \<open>q\<close> and hart \<open>hart\<close> means: who runs, and for how long.\<close>

definition entry_at :: "schedule \<Rightarrow> nat \<Rightarrow> nat \<Rightarrow> nat \<times> nat" where
  "entry_at s q hart = (unat (s q (hart - MIN_HARTID)) mod 256, unat (s q (hart - MIN_HARTID)) div 256)"

lemma sched_get_runs:
  assumes "unat q < N_QUANTUM" "hart_ok h"
  shows "\<exists>e. sched_get s q h = Inr e \<and>
    (unat (se_pid e), unat (se_length e)) = entry_at s (unat q) (unat h)"
  using assms by (simp add: sched_get_def entry_at_def unpack_pid unpack_length Let_def)

lemma sched_set_runs:
  assumes "unat q < N_QUANTUM" "hart_ok h" "p = INVALID_PID \<or> unat p < N_PROC" "unat l < 256"
  shows "\<exists>s'. sched_set s q h p l = Inr s' \<and>
    (\<forall>q' h'. MIN_HARTID \<le> h' \<longrightarrow> entry_at s' q' h' =
       (if q' = unat q \<and> h' = unat h then (unat p, unat l) else entry_at s q' h'))"
proof -
  have p: "unat p < 256" using assms(3) by (auto simp: INVALID_PID_def config_defs)
  have l: "l AND 0xFF = l" using assms(4) by (simp add: word_unat_eq_iff and_FF)
  have e: "unat (ucast (p OR push_bit 8 l) :: u16) = unat p + 256 * unat l"
    by (rule pack [OF p assms(4)])
  have "h' - MIN_HARTID = unat h - MIN_HARTID \<longleftrightarrow> h' = unat h" if "MIN_HARTID \<le> h'" for h'
    using that assms(2) by (auto simp: hart_ok_def)
  then show ?thesis
    using assms p l by (auto simp: sched_set_def entry_at_def e)
qed

lemma sched_set_range_runs:
  assumes "hart_ok h" "p = INVALID_PID \<or> unat p < N_PROC" "e \<le> N_QUANTUM" "distinct is" "set is \<subseteq> {..<e}"
  shows "\<exists>s'. sched_set_range s h p e is = Inr s' \<and>
    (\<forall>q' h'. MIN_HARTID \<le> h' \<longrightarrow> entry_at s' q' h' =
       (if q' \<in> set is \<and> h' = unat h then (unat p, e - q') else entry_at s q' h'))"
  using assms(4,5)
proof (induction "is" arbitrary: s)
  case Nil
  then show ?case by simp
next
  case (Cons i js)
  have b: "unat (of_nat i :: u64) = i" "unat (of_nat (e - i) :: u64) = e - i" "i < N_QUANTUM" "e - i < 256"
    using Cons.prems assms(3) by (auto simp: config_defs unat_of_nat simp del: of_nat_diff)
  obtain s1 where s1: "sched_set s (of_nat i) h p (of_nat (e - i)) = Inr s1"
    "\<And>q' h'. MIN_HARTID \<le> h' \<Longrightarrow> entry_at s1 q' h' =
       (if q' = i \<and> h' = unat h then (unat p, e - i) else entry_at s q' h')"
    using sched_set_runs [of "of_nat i" h p "of_nat (e - i)" s] assms(1,2) b by auto
  obtain s' where s': "sched_set_range s1 h p e js = Inr s'"
    "\<And>q' h'. MIN_HARTID \<le> h' \<Longrightarrow> entry_at s' q' h' =
       (if q' \<in> set js \<and> h' = unat h then (unat p, e - q') else entry_at s1 q' h')"
    using Cons.IH [of s1] Cons.prems by auto
  show ?case using s1 s' Cons.prems(1) by auto
qed

lemma sched_update_runs:
  assumes "b < e" "hart_ok hart" "unat e \<le> N_QUANTUM" "p = INVALID_PID \<or> unat p < N_PROC" "lock_free l"
  shows "\<exists>s' l'. sched_update h cn hart b e p (s, l) = Inr (s', l') \<and> lock_free l' \<and>
    (\<forall>q' h'. MIN_HARTID \<le> h' \<longrightarrow> entry_at s' q' h' =
       (if node_live h cn \<and> q' \<in> {unat b..<unat e} \<and> h' = unat hart
        then (unat p, unat e - q') else entry_at s q' h'))"
proof -
  obtain l1 where l: "lock_acquire l = Inr l1" "lock_free (lock_release l1)"
    using ticket.critical_section [OF assms(5)] .
  obtain s1 where "sched_set_range s hart p (unat e) [unat b..<unat e] = Inr s1"
    "\<forall>q' h'. MIN_HARTID \<le> h' \<longrightarrow> entry_at s1 q' h' =
       (if q' \<in> set [unat b..<unat e] \<and> h' = unat hart then (unat p, unat e - q') else entry_at s q' h')"
    using sched_set_range_runs [OF assms(2,4,3), of "[unat b..<unat e]" s] by fastforce
  then show ?thesis
    using assms l by (simp add: sched_update_def node_live_deleted del: set_upt)
       (auto simp: node_live_deleted)
qed

lemma sched_update_empty: "\<not> b < e \<Longrightarrow> sched_update h cn hart b e p s = Inl Assert_failed"
  by (cases s) (simp add: sched_update_def)

lemma init_row:
  "fold (\<lambda>j s. set_entry s i (j - MIN_HARTID) v) js s q k =
     (if q = i \<and> k \<in> (\<lambda>j. j - MIN_HARTID) ` set js then v else s q k)"
  by (induction js arbitrary: s) auto

lemma init_rows:
  "fold (\<lambda>i s. fold (\<lambda>j s. set_entry s i (j - MIN_HARTID) (f i)) js s) is s q k =
     (if q \<in> set is \<and> k \<in> (\<lambda>j. j - MIN_HARTID) ` set js then f q else s q k)"
  by (induction "is" arbitrary: s) (auto simp: init_row)

text \<open>At first every quantum of every hart belongs to process 0, up to the end of the frame.\<close>

lemma sched_init_entries:
  assumes "q < N_QUANTUM" "MIN_HARTID \<le> hart" "hart \<le> MAX_HARTID"
  shows "entry_at (sched_init s) q hart = (0, N_QUANTUM - q)"
proof -
  have "sched_init s q (hart - MIN_HARTID) = push_bit 8 (of_nat (N_QUANTUM - q))"
    using assms unfolding sched_init_def init_rows by auto
  moreover have "unat (push_bit 8 (of_nat (N_QUANTUM - q)) :: u16) = 256 * (N_QUANTUM - q)"
    by (simp add: push_bit_eq_mult unat_word_ariths unat_of_nat config_defs del: of_nat_diff)
  ultimately show ?thesis by (simp add: entry_at_def)
qed

section \<open>Who runs\<close>

text \<open>
  The process a hart runs at a time: the one of its entry, unless the entry is inactive or a
  lower hart has the same process in that quantum.
\<close>

definition who_runs :: "schedule \<Rightarrow> nat \<Rightarrow> nat \<Rightarrow> (nat \<times> nat) option" where
  "who_runs s hart time =
     (let q = time mod N_QUANTUM; p = fst (entry_at s q hart)
      in if p = 255 \<or> (\<exists>i \<in> {MIN_HARTID..<hart}. fst (entry_at s q i) = p) then None
         else Some (entry_at s q hart))"

lemma who_runs_exclusive:
  assumes "who_runs s i t = Some (p, l)" "who_runs s j t = Some (p, l')"
    "MIN_HARTID \<le> i" "MIN_HARTID \<le> j"
  shows "i = j"
proof (rule ccontr)
  assume "i \<noteq> j"
  then consider "i < j" | "j < i" by linarith
  then show False
    using assms by cases (force simp: who_runs_def Let_def split: if_splits)+
qed

lemma preempted_runs:
  assumes "unat q < N_QUANTUM" "set is \<subseteq> {MIN_HARTID..MAX_HARTID}"
  shows "sched_preempted s q p is = Inr (\<exists>i \<in> set is. fst (entry_at s (unat q) i) = unat p)"
  using assms(2)
proof (induction "is")
  case Nil
  then show ?case by simp
next
  case (Cons i js)
  then have i: "unat (of_nat i :: u64) = i" "hart_ok (of_nat i)"
    by (auto simp: config_defs unat_of_nat hart_ok_def)
  obtain e where e: "sched_get s q (of_nat i) = Inr e"
    "(unat (se_pid e), unat (se_length e)) = entry_at s (unat q) i"
    using sched_get_runs [OF assms(1) i(2)] i(1) by auto
  have "p = se_pid e \<longleftrightarrow> fst (entry_at s (unat q) i) = unat p"
    by (auto simp: e(2) [symmetric] word_unat_eq_iff)
  then show ?case using Cons e(1) by auto
qed

lemma sched_get_proc_runs:
  assumes "hart_ok h"
  shows "sched_get_proc s h t = Inr (map_option (\<lambda>(p, l). (p, of_nat l)) (who_runs s (unat h) (unat t)))"
proof -
  let ?q = "t mod of_nat N_QUANTUM"
  have q: "unat ?q = unat t mod N_QUANTUM" "unat ?q < N_QUANTUM"
    by (simp_all add: unat_mod config_defs)
  obtain e where e: "sched_get s ?q h = Inr e"
    "(unat (se_pid e), unat (se_length e)) = entry_at s (unat ?q) (unat h)"
    using sched_get_runs [OF q(2) assms] by blast
  have inv: "ucast (se_pid e) = INVALID_PID \<longleftrightarrow> unat (se_pid e) = 255"
  proof -
    have "unat (se_pid e) < 2 ^ LENGTH(8)" by (rule unsigned_less)
    then have "unat (ucast (se_pid e) :: u64) = unat (se_pid e)"
      by (simp add: unsigned_ucast_eq take_bit_eq_mod)
    then show ?thesis by (simp add: INVALID_PID_def word_unat_eq_iff)
  qed
  have pre: "sched_preempted s ?q (se_pid e) [MIN_HARTID..<unat h] =
    Inr (\<exists>i \<in> {MIN_HARTID..<unat h}. fst (entry_at s (unat ?q) i) = unat (se_pid e))"
  proof -
    have "set [MIN_HARTID..<unat h] \<subseteq> {MIN_HARTID..MAX_HARTID}"
      using assms by (auto simp: hart_ok_def)
    from preempted_runs [OF q(2) this] show ?thesis by simp
  qed
  have len: "(ucast (se_length e) :: u64) = of_nat (unat (se_length e))"
    by (simp add: unsigned_ucast_eq)
  show ?thesis
    unfolding sched_get_proc_def Let_def e(1) ebind_simps inv pre who_runs_def q(1) [symmetric]
      e(2) [symmetric] len
    by auto
qed

lemma sched_exclusive:
  assumes "hart_ok h" "hart_ok h'" "sched_get_proc s h t = Inr (Some (p, l))"
    "sched_get_proc s h' t = Inr (Some (p, l'))"
  shows "h = h'"
proof -
  have "unat h = unat h'"
    using assms who_runs_exclusive [of s "unat h" "unat t" p _ "unat h'"]
    by (auto simp: sched_get_proc_runs hart_ok_def)
  then show ?thesis by (simp add: word_unat_eq_iff)
qed

section \<open>When a process is dispatched\<close>

text \<open>Every entry names a process or is inactive.\<close>

definition sched_valid :: "schedule \<Rightarrow> bool" where
  "sched_valid s \<longleftrightarrow> (\<forall>q < N_QUANTUM. \<forall>h \<in> {MIN_HARTID..MAX_HARTID}.
     fst (entry_at s q h) = 255 \<or> fst (entry_at s q h) < N_PROC)"

lemma sched_validD:
  assumes "sched_valid s" "hart_ok h" "who_runs s (unat h) t = Some (p, l)"
  shows "p < N_PROC" "l < 256"
proof -
  have q: "t mod N_QUANTUM < N_QUANTUM" by (simp add: config_defs)
  then show "p < N_PROC"
    using assms unfolding sched_valid_def who_runs_def Let_def hart_ok_def
    by (metis atLeastAtMost_iff fst_conv option.distinct(1) option.inject)
  have "unat (w :: u16) div 256 < 256" for w
  proof -
    have "unat w < 2 ^ LENGTH(16)" by (rule unsigned_less)
    then show ?thesis by simp
  qed
  then show "l < 256"
    using assms(3) by (auto simp: who_runs_def Let_def entry_at_def split: if_splits)
qed

definition sched_time :: "u64 \<Rightarrow> u64" where
  "sched_time now = now div TICKS + 1"

text \<open>The end of the slice, as \<open>sched_start\<close> computes it.\<close>

definition slice_end :: "u64 \<Rightarrow> nat \<Rightarrow> u64" where
  "slice_end time len = (time + of_nat len) * TICKS - SCHEDULER_TICKS"

text \<open>A process that can be dispatched at a clock reading.\<close>

definition runnable :: "schedule \<Rightarrow> u64 \<Rightarrow> u64 \<Rightarrow> (nat \<Rightarrow> proc) \<Rightarrow> nat \<Rightarrow> nat \<Rightarrow> bool" where
  "runnable s h now ps p l \<longleftrightarrow>
     who_runs s (unat h) (unat (sched_time now)) = Some (p, l) \<and>
     p_regs (ps p) TIMEOUT < slice_end (sched_time now) l \<and>
     p_state (ps p) = pstate PROC_STATE_READY"

lemma wait_and_set_timeout_slice:
  "wait_and_set_timeout time (of_nat l) timeout = (max (time * TICKS) timeout, slice_end time l)"
  by (auto simp: wait_and_set_timeout_def slice_end_def max_def distrib_right Let_def not_less)

lemma sched_try_eq:
  assumes "hart_ok h"
  shows "sched_try s h now ps =
    (case who_runs s (unat h) (unat (sched_time now)) of
       None \<Rightarrow> Inr None
     | Some (p, l) \<Rightarrow>
         if \<not> p < N_PROC then Inl Out_of_bounds
         else if slice_end (sched_time now) l \<le> p_regs (ps p) TIMEOUT then Inr None
         else if p_state (ps p) \<noteq> pstate PROC_STATE_READY then Inr None
         else Inr (Some (\<lparr>d_proc = p, d_start = max (sched_time now * TICKS) (p_regs (ps p) TIMEOUT),
                d_end = slice_end (sched_time now) l\<rparr>,
              ps(p := (ps p)\<lparr>p_state := pstate PROC_STATE_RUNNING\<rparr>))))"
  unfolding sched_try_def Let_def sched_get_proc_runs [OF assms] sched_time_def [symmetric]
    proc_acquire_def
  by (cases "who_runs s (unat h) (unat (sched_time now))")
    (auto simp: wait_and_set_timeout_slice slice_end_def [symmetric])

lemma sched_try_runs:
  assumes "sched_valid s" "hart_ok h"
  shows "runnable s h now ps p l \<Longrightarrow> sched_try s h now ps =
      Inr (Some (\<lparr>d_proc = p, d_start = max (sched_time now * TICKS) (p_regs (ps p) TIMEOUT),
                  d_end = slice_end (sched_time now) l\<rparr>,
                 ps(p := (ps p)\<lparr>p_state := pstate PROC_STATE_RUNNING\<rparr>)))"
    and "(\<And>p l. \<not> runnable s h now ps p l) \<Longrightarrow> sched_try s h now ps = Inr None"
  using sched_validD(1) [OF assms]
  by (fastforce simp: sched_try_eq [OF assms(2)] runnable_def not_less split: option.splits)+

lemma sched_try_cases:
  assumes "sched_valid s" "hart_ok h"
  shows "sched_try s h now ps = Inr None \<or>
    (\<exists>p l. runnable s h now ps p l \<and> sched_try s h now ps =
      Inr (Some (\<lparr>d_proc = p, d_start = max (sched_time now * TICKS) (p_regs (ps p) TIMEOUT),
                  d_end = slice_end (sched_time now) l\<rparr>,
                 ps(p := (ps p)\<lparr>p_state := pstate PROC_STATE_RUNNING\<rparr>))))"
  using sched_try_runs [OF assms] by blast

text \<open>The polling loop returns at the first reading with something to run.\<close>

lemma sched_start_first:
  assumes "\<And>j. i \<le> j \<Longrightarrow> j < n \<Longrightarrow> sched_try s h (clock j) ps = Inr None" "i \<le> n"
    and "sched_try s h (clock n) ps = Inr (Some r)"
  shows "sched_start clock i s h ps = Some (Inr r)"
  using assms
proof (induction "n - i" arbitrary: i)
  case 0
  then show ?case by (simp add: sched_start.simps)
next
  case (Suc m)
  then have "sched_try s h (clock i) ps = Inr None" by simp
  moreover have "sched_start clock (Suc i) s h ps = Some (Inr r)"
    by (rule Suc.hyps(1)) (use Suc in auto)
  ultimately show ?case by (simp add: sched_start.simps)
qed

lemma sched_start_live:
  assumes "sched_valid s" "hart_ok h" "runnable s h (clock n) ps p l"
  shows "\<exists>m \<le> n. \<exists>r. sched_start clock 0 s h ps = Some (Inr r) \<and> sched_try s h (clock m) ps = Inr (Some r)"
proof -
  let ?P = "\<lambda>m. sched_try s h (clock m) ps \<noteq> Inr None"
  have "?P n" using sched_try_runs(1) [OF assms] by simp
  then obtain m where m: "?P m" "m \<le> n" "\<And>j. j < m \<Longrightarrow> \<not> ?P j"
    using LeastI [of ?P n] Least_le [of ?P n] not_less_Least [of _ ?P] by blast
  then obtain r where r: "sched_try s h (clock m) ps = Inr (Some r)"
    using sched_try_cases [OF assms(1,2)] by metis
  have "sched_start clock 0 s h ps = Some (Inr r)"
    by (rule sched_start_first [where n = m]) (use m r in auto)
  then show ?thesis using m(2) r by blast
qed

lemma sched_start_result:
  assumes "sched_start clock i s h ps = Some y"
  shows "\<forall>r. y = Inr r \<longrightarrow> (\<exists>n \<ge> i. sched_try s h (clock n) ps = Inr (Some r))"
proof (rule sched_start.raw_induct [where P = "\<lambda>clock i s h ps y.
    \<forall>r. y = Inr r \<longrightarrow> (\<exists>n \<ge> i. sched_try s h (clock n) ps = Inr (Some r))", OF _ assms])
  fix f clock i s h ps y
  assume ih: "\<And>clock i s h ps y. f clock i s h ps = Some y \<Longrightarrow>
      \<forall>r. y = Inr r \<longrightarrow> (\<exists>n \<ge> i. sched_try s h (clock n) ps = Inr (Some r))"
    and y: "(case sched_try s h (clock i) ps of Inl e \<Rightarrow> Some (Inl e)
      | Inr None \<Rightarrow> f clock (Suc i) s h ps | Inr (Some r) \<Rightarrow> Some (Inr r)) = Some y"
  show "\<forall>r. y = Inr r \<longrightarrow> (\<exists>n \<ge> i. sched_try s h (clock n) ps = Inr (Some r))"
  proof (cases "sched_try s h (clock i) ps")
    case (Inl e)
    then show ?thesis using y by auto
  next
    case (Inr res)
    then show ?thesis
      using y ih [of clock "Suc i" s h ps y] by (cases res) (auto, metis Suc_leD)
  qed
qed

text \<open>
  The window of a dispatched process. It starts no earlier than the next quantum boundary and
  ends \<open>SCHEDULER_TICKS\<close> before the slice does. As a quantum (781 ticks) is shorter than
  \<open>SCHEDULER_TICKS\<close>, slices of one or two quanta end before they start.
\<close>

lemma unat_mult_small:
  "unat (a :: u64) * unat b < 2 ^ 64 \<Longrightarrow> unat (a * b) = unat a * unat b"
  by (simp add: unat_word_ariths)

lemma unat_add_small:
  "unat (a :: u64) + unat b < 2 ^ 64 \<Longrightarrow> unat (a + b) = unat a + unat b"
  by (simp add: unat_word_ariths)

lemma unat_TICKS: "unat TICKS = 781"
  by (simp add: TICKS_val)

lemma sched_time_nat: "unat (sched_time now) = unat now div 781 + 1"
proof -
  have "unat now < 2 ^ LENGTH(64)" by (rule unsigned_less)
  then have "unat now div 781 + 1 < 2 ^ 64" by simp
  moreover have "unat (now div TICKS) = unat now div 781" by (simp only: unat_div unat_TICKS)
  ultimately show ?thesis unfolding sched_time_def by (subst unat_add_small) simp_all
qed

lemma slice_end_nat:
  assumes "unat now < 2 ^ 63" "l < 256" "3 \<le> unat now div 781 + 1 + l"
  shows "unat (slice_end (sched_time now) l) = (unat now div 781 + 1 + l) * 781 - 2000"
proof -
  let ?t = "unat now div 781 + 1"
  have "(unat now div 781) * 781 \<le> unat now" by simp
  then have b: "(?t + l) * 781 < 2 ^ 64" using assms(1,2) by (simp add: algebra_simps)
  then have b': "?t + l < 2 ^ 64" by simp
  have l: "unat (of_nat l :: u64) = l" using assms(2) by (simp add: unat_of_nat)
  have s: "unat (sched_time now + of_nat l) = ?t + l"
    using b' by (subst unat_add_small) (simp_all only: sched_time_nat l)
  have m: "unat ((sched_time now + of_nat l) * TICKS) = (?t + l) * 781"
    using b by (subst unat_mult_small) (simp_all only: s unat_TICKS)
  have "2000 \<le> (?t + l) * 781" using assms(3) by simp
  then have "SCHEDULER_TICKS \<le> (sched_time now + of_nat l) * TICKS"
    unfolding word_le_nat_alt m by (simp add: SCHEDULER_TICKS_def)
  then show ?thesis unfolding slice_end_def by (simp only: unat_sub m) (simp add: SCHEDULER_TICKS_def)
qed

lemma sched_time_ticks:
  assumes "unat now < 2 ^ 63"
  shows "unat (sched_time now * TICKS) = (unat now div 781 + 1) * 781"
proof -
  have "(unat now div 781) * 781 \<le> unat now" by simp
  then have "(unat now div 781 + 1) * 781 < 2 ^ 64" using assms by (simp add: algebra_simps)
  then show ?thesis by (subst unat_mult_small) (simp_all only: sched_time_nat unat_TICKS)
qed

lemma dispatch_window:
  assumes "sched_valid s" "hart_ok h" "sched_try s h now ps = Inr (Some (d, ps'))"
    and "unat now < 2 ^ 63" "1562 \<le> unat now"
  shows "\<exists>l. who_runs s (unat h) (unat now div 781 + 1) = Some (d_proc d, l) \<and>
    unat now < unat (d_start d) \<and>
    unat (d_end d) = (unat now div 781 + 1 + l) * 781 - 2000 \<and>
    (d_start d < d_end d \<longleftrightarrow> 3 \<le> l)"
proof -
  obtain p l where r: "runnable s h now ps p l" and d: "d = \<lparr>d_proc = p,
      d_start = max (sched_time now * TICKS) (p_regs (ps p) TIMEOUT), d_end = slice_end (sched_time now) l\<rparr>"
    using sched_try_cases [OF assms(1,2), of now ps] assms(3) by auto
  have w: "who_runs s (unat h) (unat now div 781 + 1) = Some (p, l)"
    using r by (simp add: runnable_def sched_time_nat)
  have e: "unat (slice_end (sched_time now) l) = (unat now div 781 + 1 + l) * 781 - 2000"
    by (rule slice_end_nat) (use assms(4,5) sched_validD(2) [OF assms(1,2) w] in auto)
  have t: "p_regs (ps p) TIMEOUT < slice_end (sched_time now) l" using r by (simp add: runnable_def)
  have m: "unat now < (unat now div 781 + 1) * 781"
    using div_mult_mod_eq [of "unat now" 781] mod_less_divisor [of 781 "unat now"]
    by (simp add: algebra_simps)
  have "d_start d < d_end d \<longleftrightarrow> sched_time now * TICKS < slice_end (sched_time now) l"
    using t by (simp add: d)
  also have "\<dots> \<longleftrightarrow> 3 \<le> l"
    by (simp add: word_less_nat_alt e sched_time_ticks [OF assms(4)]) arith
  finally have "d_start d < d_end d \<longleftrightarrow> 3 \<le> l" .
  moreover have "unat now < unat (d_start d)"
    using m by (simp add: d sched_time_ticks [OF assms(4)] max_def word_le_nat_alt)
  ultimately show ?thesis using w e by (intro exI [of _ l]) (simp add: d)
qed

section \<open>Properties\<close>

lemma sched_entry_eqI:
  "(unat (se_pid e), unat (se_length e)) = (unat (se_pid e'), unat (se_length e')) \<Longrightarrow> e = (e' :: sched_entry_t)"
  by (cases e; cases e') (auto intro: unsigned_word_eqI)

lemma sched_get_entry:
  assumes "unat q < N_QUANTUM" "hart_ok h" "entry_at s (unat q) (unat h) = (p, l)" "p < 256" "l < 256"
  shows "sched_get s q h = Inr \<lparr>se_pid = of_nat p, se_length = of_nat l\<rparr>"
proof -
  obtain e where e: "sched_get s q h = Inr e" "(unat (se_pid e), unat (se_length e)) = (p, l)"
    using sched_get_runs [OF assms(1,2), of s] assms(3) by auto
  have "e = \<lparr>se_pid = of_nat p, se_length = of_nat l\<rparr>"
    by (rule sched_entry_eqI) (use e(2) assms(4,5) in \<open>simp add: unat_of_nat\<close>)
  then show ?thesis using e(1) by simp
qed

text \<open>The schedule after boot, in which process 0 has every quantum of every hart.\<close>

abbreviation boot_schedule :: schedule where "boot_schedule \<equiv> sched_init (\<lambda>_ _. 0)"

lemma boot_schedule_valid: "sched_valid boot_schedule"
  by (auto simp: sched_valid_def sched_init_entries config_defs)

lemma hart_ok_1: "hart_ok 1"
  by (simp add: hart_ok_def config_defs)

lemma boot_runs: "who_runs boot_schedule 1 t = Some (0, N_QUANTUM - t mod N_QUANTUM)"
  by (simp add: who_runs_def sched_init_entries config_defs Let_def)

text \<open>What \<open>sched_set\<close> packs in a table entry, \<open>sched_get\<close> unpacks, and the entries of
  the other quanta and harts are untouched.\<close>

lemma sched_set_get:
  assumes "unat q < N_QUANTUM" "hart_ok h" "p = INVALID_PID \<or> unat p < N_PROC" "unat l < 256"
    and "unat q' < N_QUANTUM" "hart_ok h'"
  shows "\<exists>s'. sched_set s q h p l = Inr s' \<and>
    sched_get s' q' h' = (if q' = q \<and> h' = h then Inr \<lparr>se_pid = ucast p, se_length = ucast l\<rparr>
      else sched_get s q' h')"
proof -
  obtain s' where s': "sched_set s q h p l = Inr s'"
    "\<And>a b. MIN_HARTID \<le> b \<Longrightarrow> entry_at s' a b =
       (if a = unat q \<and> b = unat h then (unat p, unat l) else entry_at s a b)"
    using sched_set_runs [OF assms(1-4), of s] by blast
  have m: "MIN_HARTID \<le> unat h'" using assms(6) by (simp add: hart_ok_def)
  have p: "unat p < 256" using assms(3) by (auto simp: INVALID_PID_def config_defs)
  obtain e' where e': "sched_get s' q' h' = Inr e'"
    "(unat (se_pid e'), unat (se_length e')) = entry_at s' (unat q') (unat h')"
    using sched_get_runs [OF assms(5,6)] by blast
  obtain e where e: "sched_get s q' h' = Inr e"
    "(unat (se_pid e), unat (se_length e)) = entry_at s (unat q') (unat h')"
    using sched_get_runs [OF assms(5,6)] by blast
  have "e' = (if q' = q \<and> h' = h then \<lparr>se_pid = ucast p, se_length = ucast l\<rparr> else e)"
    by (rule sched_entry_eqI)
      (use e(2) e'(2) s'(2) [OF m] p assms(4) in \<open>auto simp: unat_ucast_64_8 unsigned_word_eqI\<close>)
  then show ?thesis using s'(1) e e' by auto
qed

text \<open>\<open>sched_update\<close> gives a live capability's quanta, and no other, to the process, each
  with the length left to the end of the slice; for a deleted capability it changes nothing.
  The lock is free again afterwards.\<close>

lemma sched_update_effect:
  assumes "b < e" "hart_ok hart" "unat e \<le> N_QUANTUM" "unat p < N_PROC" "lock_free l"
    and "unat q < N_QUANTUM" "hart_ok h"
  shows "\<exists>s' l'. sched_update nodes cn hart b e p (s, l) = Inr (s', l') \<and> lock_free l' \<and>
    sched_get s' q h = (if node_live nodes cn \<and> b \<le> q \<and> q < e \<and> h = hart
      then Inr \<lparr>se_pid = ucast p, se_length = ucast (e - q)\<rparr> else sched_get s q h)"
proof -
  obtain s' l' where u: "sched_update nodes cn hart b e p (s, l) = Inr (s', l')" "lock_free l'"
    "\<And>a c. MIN_HARTID \<le> c \<Longrightarrow> entry_at s' a c =
       (if node_live nodes cn \<and> a \<in> {unat b..<unat e} \<and> c = unat hart
        then (unat p, unat e - a) else entry_at s a c)"
    using sched_update_runs [of b e hart p l nodes cn s] assms by blast
  have m: "MIN_HARTID \<le> unat h" using assms(7) by (simp add: hart_ok_def)
  have p: "unat p < 256" using assms(4) by (simp add: config_defs)
  obtain x' where x': "sched_get s' q h = Inr x'"
    "(unat (se_pid x'), unat (se_length x')) = entry_at s' (unat q) (unat h)"
    using sched_get_runs [OF assms(6,7)] by blast
  obtain x where x: "sched_get s q h = Inr x"
    "(unat (se_pid x), unat (se_length x)) = entry_at s (unat q) (unat h)"
    using sched_get_runs [OF assms(6,7)] by blast
  have len: "unat (e - q) = unat e - unat q" "unat e - unat q < 256" if "q < e"
    using that assms(3) by (simp_all add: unat_sub word_less_nat_alt word_le_nat_alt config_defs)
  have "x' = (if node_live nodes cn \<and> b \<le> q \<and> q < e \<and> h = hart
      then \<lparr>se_pid = ucast p, se_length = ucast (e - q)\<rparr> else x)"
  proof (cases "node_live nodes cn \<and> b \<le> q \<and> q < e \<and> h = hart")
    case True
    then have "entry_at s' (unat q) (unat h) = (unat p, unat e - unat q)"
      using u(3) [OF m] by (simp add: word_le_nat_alt word_less_nat_alt)
    then show ?thesis
      using True x'(2) p len by (intro sched_entry_eqI) (simp add: unat_ucast_64_8)
  next
    case False
    then have "entry_at s' (unat q) (unat h) = entry_at s (unat q) (unat h)"
      using u(3) [OF m, of "unat q"] by (auto simp: word_le_nat_alt word_less_nat_alt unsigned_word_eqI)
    then show ?thesis unfolding if_not_P [OF False] using x'(2) x(2) by (intro sched_entry_eqI) simp
  qed
  then show ?thesis using u(1,2) x x' by auto
qed

lemma sched_update_effect_example:
  "\<exists>s' l'. sched_update (boot_heap 0) (Slot 0 3) 1 10 20 4 (boot_schedule, INIT_LOCK) = Inr (s', l') \<and>
    lock_free l' \<and> sched_get s' 12 1 = Inr \<lparr>se_pid = 4, se_length = 8\<rparr>"
  using sched_update_effect [of 10 20 1 4 INIT_LOCK 12 1 "boot_heap 0" "Slot 0 3" boot_schedule]
  by (simp add: hart_ok_def config_defs node_live_def boot_heap_live del: not_None_eq)

text \<open>C30: in every quantum a process is picked on at most one hart.\<close>

theorem schedule_exclusive:
  assumes "hart_ok h" "hart_ok h'" "sched_get_proc s h t = Inr (Some (p, l))"
    "sched_get_proc s h' t = Inr (Some (p, l'))"
  shows "h = h'"
  by (rule sched_exclusive [OF assms])

theorem schedule_exclusive_witness:
  "sched_get_proc boot_schedule 1 0 = Inr (Some (0, 128)) \<and>
   {h. hart_ok h \<and> (\<exists>l. sched_get_proc boot_schedule h 0 = Inr (Some (0, l)))} = {1}"
proof -
  have s: "sched_get_proc boot_schedule 1 0 = Inr (Some (0, 128))"
    using sched_get_proc_runs [OF hart_ok_1, of boot_schedule 0] boot_runs [of 0] by (simp add: config_defs)
  then show ?thesis using schedule_exclusive [OF _ hart_ok_1 _ s] hart_ok_1 by blast
qed

text \<open>C32: what \<open>sched_start\<close> arms when it dispatches a process: the process of the next
  quantum, a start in the future, and an end \<open>SCHEDULER_TICKS\<close> before the end of its slice.
  A quantum is shorter than \<open>SCHEDULER_TICKS\<close>, so the end lies after the start exactly for
  slices of at least three quanta.\<close>

theorem dispatch_times:
  assumes "sched_valid s" "hart_ok h" "sched_try s h now ps = Inr (Some (d, ps'))"
    and "unat now < 2 ^ 63" "1562 \<le> unat now"
  shows "\<exists>l. who_runs s (unat h) (unat now div 781 + 1) = Some (d_proc d, l) \<and>
    unat now < unat (d_start d) \<and>
    unat (d_end d) = (unat now div 781 + 1 + l) * 781 - 2000 \<and>
    (d_start d < d_end d \<longleftrightarrow> 3 \<le> l)"
  by (rule dispatch_window [OF assms])

lemma boot_runnable: "runnable boot_schedule 1 1562 (\<lambda>_. boot_proc) 0 125"
  using boot_runs [of 3] slice_end_nat [of 1562 125]
  by (simp add: runnable_def sched_time_nat boot_proc_def word_less_nat_alt config_defs)

theorem dispatch_times_witness:
  "\<exists>d. (\<exists>ps'. sched_try boot_schedule 1 1562 (\<lambda>_. boot_proc) = Inr (Some (d, ps'))) \<and> d_proc d = 0 \<and>
    1562 < unat (d_start d) \<and> d_start d < d_end d"
proof -
  note t = sched_try_runs(1) [OF boot_schedule_valid hart_ok_1 boot_runnable]
  from dispatch_times [OF boot_schedule_valid hart_ok_1 t] boot_runs [of 3] t show ?thesis
    by (fastforce simp: config_defs)
qed

text \<open>C33: \<open>sched_start\<close> returns. If some later reading of the clock falls into a quantum of a
  ready process whose timeout has not passed the end of its slice, a process is dispatched
  at that reading or before.\<close>

theorem dispatch_live:
  assumes "sched_valid s" "hart_ok h" "runnable s h (clock n) ps p l"
  shows "\<exists>m \<le> n. \<exists>r. sched_start clock 0 s h ps = Some (Inr r) \<and>
    sched_try s h (clock m) ps = Inr (Some r)"
  using sched_start_live [of s h clock n ps p l, OF assms] .

theorem dispatch_live_witness:
  "\<exists>r. sched_start (\<lambda>i. of_nat (i * 781)) 0 boot_schedule 1 (\<lambda>_. boot_proc) = Some (Inr r)"
  using dispatch_live [OF boot_schedule_valid hart_ok_1, of "\<lambda>i. of_nat (i * 781)" 2 "\<lambda>_. boot_proc" 0 125]
    boot_runnable by auto

end
