(* ===== verification/Kernel.thy ===== *)
theory Kernel
  imports Sched
begin

text \<open>
  The system calls of \<open>syscall.c\<close> on the state of the whole kernel. A handler is a function
  of the kernel state that either stops (a failed assertion, a null or out-of-bounds access,
  a lock nobody releases) or gives its outcome, returning a value or calling \<open>sched_yield\<close>,
  which does not return, with the state it leaves. A process pointer is the index of the
  process in \<open>processes\<close>. The handlers run on one hart to completion; where the code
  enables preemption, \<open>irq\<close> says whether a timer interrupt arrives.
\<close>

section \<open>The kernel state\<close>

record kstate =
  ks_nodes :: node_heap
  ks_procs :: "nat \<Rightarrow> proc"
  ks_schedule :: schedule
  ks_sched_lock :: lock_t
  ks_receivers :: "nat \<Rightarrow> nat \<Rightarrow> nat option"
  ks_receivers_lock :: lock_t
  ks_current :: "nat option"
  ks_hartid :: u64
  ks_mtimecmp :: "nat \<Rightarrow> u64"
  ks_preempt :: bool

datatype outcome = Return u64 | Yield

type_synonym handler = "kstate \<Rightarrow> stop + outcome \<times> kstate"

definition upd_proc :: "nat \<Rightarrow> (proc \<Rightarrow> proc) \<Rightarrow> kstate \<Rightarrow> kstate" where
  "upd_proc i f k = k\<lparr>ks_procs := (ks_procs k)(i := f (ks_procs k i))\<rparr>"

definition put_reg :: "nat \<Rightarrow> reg \<Rightarrow> u64 \<Rightarrow> kstate \<Rightarrow> kstate" where
  "put_reg i r v = upd_proc i (\<lambda>p. set_reg p r v)"

definition put_state :: "nat \<Rightarrow> u64 \<Rightarrow> kstate \<Rightarrow> kstate" where
  "put_state i w = upd_proc i (\<lambda>p. p\<lparr>p_state := w\<rparr>)"

definition state_of :: "kstate \<Rightarrow> nat \<Rightarrow> u64" where
  "state_of k i = p_state (ks_procs k i)"

definition set_receiver :: "nat \<Rightarrow> nat \<Rightarrow> nat option \<Rightarrow> kstate \<Rightarrow> kstate" where
  "set_receiver ch i p k = k\<lparr>ks_receivers := (ks_receivers k)(ch := (ks_receivers k ch)(i := p))\<rparr>"

definition preemption_enable :: "kstate \<Rightarrow> kstate" where
  "preemption_enable k = k\<lparr>ks_preempt := True\<rparr>"

definition preemption_disable :: "kstate \<Rightarrow> kstate" where
  "preemption_disable k = k\<lparr>ks_preempt := False\<rparr>"

text \<open>\<open>kassert(current != NULL)\<close>, and a use of \<open>current\<close> without it.\<close>

definition assert_current :: "kstate \<Rightarrow> stop + nat" where
  "assert_current k = (case ks_current k of None \<Rightarrow> Inl Assert_failed | Some c \<Rightarrow> Inr c)"

definition deref_current :: "kstate \<Rightarrow> stop + nat" where
  "deref_current k = (case ks_current k of None \<Rightarrow> Inl Null_deref | Some c \<Rightarrow> Inr c)"

definition cap_node_of :: "kstate \<Rightarrow> nat \<Rightarrow> u64 \<Rightarrow> stop + node_ptr" where
  "cap_node_of k i cid = proc_get_cap_node (ks_procs k i) cid"

section \<open>Internal functions\<close>

text \<open>The receiver and server cases of \<open>cap_update_hook\<close>.\<close>

definition update_receiver :: "nat option \<Rightarrow> node_ptr \<Rightarrow> u64 \<Rightarrow> kstate \<Rightarrow> stop + kstate" where
  "update_receiver proc node channel k =
     ebind (lock_acquire (ks_receivers_lock k)) (\<lambda>l.
     ebind (if cap_node_is_deleted (ks_nodes k) node then Inr k
            else if \<not> unat channel < N_CHANNELS then Inl Out_of_bounds
            else let k1 = set_receiver (unat channel) 0 proc k
                 in Inr (if proc = None then set_receiver (unat channel) 1 None k1 else k1))
       (\<lambda>k. Inr (k\<lparr>ks_receivers_lock := lock_release l\<rparr>)))"

definition cap_update_hook :: "nat option \<Rightarrow> node_ptr \<Rightarrow> cap_t \<Rightarrow> kstate \<Rightarrow> stop + kstate" where
  "cap_update_hook proc node cap k =
     ebind (if cap_is_type cap CAP_TYPE_TIME then
              let pid = (case proc of None \<Rightarrow> INVALID_PID | Some i \<Rightarrow> p_pid (ks_procs k i))
              in ebind (sched_update (ks_nodes k) node (cap_time_get_hartid cap) (cap_time_get_free cap)
                          (cap_time_get_end cap) pid (ks_schedule k, ks_sched_lock k))
                   (\<lambda>(s, l). Inr (k\<lparr>ks_schedule := s, ks_sched_lock := l\<rparr>))
            else Inr k) (\<lambda>k.
     ebind (if cap_is_type cap CAP_TYPE_RECEIVER
            then update_receiver proc node (cap_receiver_get_channel cap) k else Inr k) (\<lambda>k.
     if cap_is_type cap CAP_TYPE_SERVER
     then update_receiver proc node (cap_server_get_channel cap) k else Inr k))"

definition node_insert :: "cap_t \<Rightarrow> node_ptr \<Rightarrow> node_ptr \<Rightarrow> kstate \<Rightarrow> stop + bool \<times> kstate" where
  "node_insert cap n p k =
     ebind (cap_node_insert cap n p (ks_nodes k)) (\<lambda>(ok, h). Inr (ok, k\<lparr>ks_nodes := h\<rparr>))"

definition node_move :: "cap_t \<Rightarrow> node_ptr \<Rightarrow> node_ptr \<Rightarrow> kstate \<Rightarrow> stop + bool \<times> kstate" where
  "node_move cap s d k =
     ebind (cap_node_move cap s d (ks_nodes k)) (\<lambda>(ok, h). Inr (ok, k\<lparr>ks_nodes := h\<rparr>))"

definition node_delete :: "node_ptr \<Rightarrow> kstate \<Rightarrow> stop + bool \<times> kstate" where
  "node_delete n k =
     ebind (cap_node_delete n (ks_nodes k)) (\<lambda>(ok, h). Inr (ok, k\<lparr>ks_nodes := h\<rparr>))"

definition interprocess_move :: "nat \<Rightarrow> u64 \<Rightarrow> nat \<Rightarrow> u64 \<Rightarrow> kstate \<Rightarrow> stop + u64 \<times> kstate" where
  "interprocess_move src_proc src_cidx dest_proc dest_cidx k =
     ebind (cap_node_of k src_proc src_cidx) (\<lambda>src_node.
     let cap = cap_node_get_cap (ks_nodes k) src_node
     in ebind (cap_node_of k dest_proc dest_cidx) (\<lambda>dest_node.
        if cap_node_is_deleted (ks_nodes k) src_node then Inr (err ERROR_EMPTY, k)
        else if \<not> cap_node_is_deleted (ks_nodes k) dest_node then Inr (err ERROR_COLLISION, k)
        else ebind (cap_update_hook (Some dest_proc) src_node cap k) (\<lambda>k.
             ebind (node_move cap src_node dest_node k) (\<lambda>(ok, k).
             Inr (if ok then err ERROR_OK else err ERROR_EMPTY, k)))))"

section \<open>System calls on capabilities\<close>

definition syscall_unimplemented :: handler where
  "syscall_unimplemented k = Inr (Return (err ERROR_UNIMPLEMENTED), k)"

definition syscall_read_cap :: "u64 \<Rightarrow> handler" where
  "syscall_read_cap cidx k =
     ebind (assert_current k) (\<lambda>c.
     ebind (cap_node_of k c cidx) (\<lambda>node.
     let cap = cap_node_get_cap (ks_nodes k) node
     in Inr (Return (err ERROR_OK), put_reg c A2 (word1 cap) (put_reg c A1 (word0 cap) k))))"

definition syscall_move_cap :: "u64 \<Rightarrow> u64 \<Rightarrow> handler" where
  "syscall_move_cap src_cidx dest_cidx k =
     ebind (assert_current k) (\<lambda>c.
     ebind (cap_node_of k c src_cidx) (\<lambda>src_node.
     let cap = cap_node_get_cap (ks_nodes k) src_node
     in ebind (cap_node_of k c dest_cidx) (\<lambda>dest_node.
        if cap_node_is_deleted (ks_nodes k) src_node then Inr (Return (err ERROR_EMPTY), k)
        else if \<not> cap_node_is_deleted (ks_nodes k) dest_node then Inr (Return (err ERROR_COLLISION), k)
        else ebind (node_move cap src_node dest_node k) (\<lambda>(ok, k).
             Inr (Return (if ok then err ERROR_OK else err ERROR_EMPTY), k)))))"

definition syscall_delete_cap :: "u64 \<Rightarrow> handler" where
  "syscall_delete_cap cidx k =
     ebind (assert_current k) (\<lambda>c.
     ebind (cap_node_of k c cidx) (\<lambda>node.
     let cap = cap_node_get_cap (ks_nodes k) node
     in if cap_node_is_deleted (ks_nodes k) node then Inr (Return (err ERROR_EMPTY), k)
        else ebind (node_delete node k) (\<lambda>(ok, k).
             if \<not> ok then Inr (Return (err ERROR_EMPTY), k)
             else ebind (cap_update_hook None node cap k) (\<lambda>k. Inr (Return (err ERROR_OK), k)))))"

text \<open>
  The loop of \<open>syscall_revoke_cap\<close>; the result says whether it was cut short by a timer
  interrupt, which may arrive at the head of every round, where preemption is enabled.
\<close>

partial_function (option) revoke_loop ::
    "(nat \<Rightarrow> bool) \<Rightarrow> nat \<Rightarrow> nat \<Rightarrow> node_ptr \<Rightarrow> cap_t \<Rightarrow> kstate \<Rightarrow> (stop + bool \<times> kstate) option" where
  "revoke_loop irq i c node cap k =
     (if irq i then Some (Inr (True, preemption_disable k))
      else if cap_node_is_deleted (ks_nodes k) node then Some (Inr (False, k))
      else (case cn_next (ks_nodes k node) of
        None \<Rightarrow> Some (Inl Null_deref)
      | Some next_node \<Rightarrow>
          (let next_cap = cn_cap (ks_nodes k next_node)
           in if \<not> cap_is_child cap next_cap then Some (Inr (False, k))
              else (case cap_node_delete2 next_node node (ks_nodes k) of
                Inl e \<Rightarrow> Some (Inl e)
              | Inr (ok, h) \<Rightarrow>
                  (case (let k1 = (preemption_disable k)\<lparr>ks_nodes := h\<rparr>
                         in if ok then cap_update_hook (Some c) node next_cap k1 else Inr k1) of
                     Inl e \<Rightarrow> Some (Inl e)
                   | Inr k2 \<Rightarrow> revoke_loop irq (Suc i) c node cap (preemption_enable k2))))))"

definition syscall_revoke_cap :: "(nat \<Rightarrow> bool) \<Rightarrow> u64 \<Rightarrow> handler" where
  "syscall_revoke_cap irq cidx k =
     ebind (assert_current k) (\<lambda>c.
     let k = preemption_enable (put_reg c A0 (err ERROR_PREEMPTED) k)
     in ebind (cap_node_of k c cidx) (\<lambda>node.
        let cap = cn_cap (ks_nodes k node)
        in if irq 0 then Inr (Yield, preemption_disable k)
           else if \<not> cap_node_is_deleted (ks_nodes k) node then Inr (Return (err ERROR_EMPTY), k)
           else ebind (run_loop (revoke_loop irq 1 c node cap k)) (\<lambda>(preempted, k).
             if preempted then Inr (Yield, k)
             else let k = preemption_disable k
                  in ebind (revoke_update_cap cap) (\<lambda>cap'.
                     ebind (cap_update_hook (Some c) node cap
                              (k\<lparr>ks_nodes := set_cap (ks_nodes k) node cap'\<rparr>)) (\<lambda>k.
                     Inr (Return (err ERROR_OK), k))))))"

definition syscall_derive_cap :: "bool \<Rightarrow> u64 \<Rightarrow> u64 \<Rightarrow> u64 \<Rightarrow> u64 \<Rightarrow> handler" where
  "syscall_derive_cap irq src_cidx dest_cidx w0 w1 k =
     ebind (assert_current k) (\<lambda>c.
     let k = preemption_enable (put_reg c A0 (err ERROR_PREEMPTED) k)
     in ebind (cap_node_of k c src_cidx) (\<lambda>src_node.
        let src_cap = cap_node_get_cap (ks_nodes k) src_node
        in ebind (cap_node_of k c dest_cidx) (\<lambda>dest_node.
           let new_cap = \<lparr>word0 = w0, word1 = w1\<rparr>
           in if irq then Inr (Yield, preemption_disable k)
              else if cap_node_is_deleted (ks_nodes k) src_node then Inr (Return (err ERROR_EMPTY), k)
              else if \<not> cap_node_is_deleted (ks_nodes k) dest_node
                then Inr (Return (err ERROR_COLLISION), k)
              else if \<not> cap_can_derive src_cap new_cap
                then Inr (Return (err ERROR_ILLEGAL_DERIVATION), k)
              else let k = preemption_disable k
                   in ebind (derive_update_cap src_cap new_cap) (\<lambda>src_cap'.
                      ebind (cap_update_hook (Some c) src_node new_cap
                               (k\<lparr>ks_nodes := set_cap (ks_nodes k) src_node src_cap'\<rparr>)) (\<lambda>k.
                      ebind (node_insert new_cap dest_node src_node k) (\<lambda>(ok, k).
                      Inr (Return (if ok then err ERROR_OK else err ERROR_EMPTY), k)))))))"

section \<open>Invoking a capability\<close>

definition with_state :: "nat \<Rightarrow> (u64 \<Rightarrow> bool \<times> u64) \<Rightarrow> kstate \<Rightarrow> bool \<times> kstate" where
  "with_state i f k = (case f (state_of k i) of (ok, w) \<Rightarrow> (ok, put_state i w k))"

text \<open>\<open>if (!proc_supervisor_acquire(supervisee)) return ERROR_SUPERVISEE_BUSY; ... proc_supervisor_release\<close>\<close>

definition with_supervisee :: "nat \<Rightarrow> (kstate \<Rightarrow> stop + u64 \<times> kstate) \<Rightarrow> handler" where
  "with_supervisee i body k =
     (case with_state i proc_supervisor_acquire k of (ok, k) \<Rightarrow>
        if \<not> ok then Inr (Return (err ERROR_SUPERVISEE_BUSY), k)
        else ebind (body k) (\<lambda>(code, k).
             ebind (proc_supervisor_release (state_of k i)) (\<lambda>w.
             Inr (Return code, put_state i w k))))"

definition syscall_invoke_supervisor :: "nat \<Rightarrow> cap_t \<Rightarrow> u64 \<Rightarrow> u64 \<Rightarrow> u64 \<Rightarrow> u64 \<Rightarrow> handler" where
  "syscall_invoke_supervisor c cap pid op arg0 arg1 k =
     ebind (kassert (cap_is_type cap CAP_TYPE_SUPERVISOR)) (\<lambda>_.
     if cap_supervisor_get_free cap > pid \<or> pid \<ge> cap_supervisor_get_end cap
     then Inr (Return (err ERROR_INVALID_SUPERVISEE), k)
     else if \<not> unat pid < N_PROC then Inl Out_of_bounds
     else let i = unat pid
          in if op = sup_num ECALL_SUP_SUSPEND then
               (case with_state i proc_supervisor_suspend k of (ok, k) \<Rightarrow>
                  Inr (Return (if ok then err ERROR_OK else err ERROR_FAILED), k))
             else if op = sup_num ECALL_SUP_RESUME then
               (case with_state i proc_supervisor_resume k of (ok, k) \<Rightarrow>
                  Inr (Return (if ok then err ERROR_OK else err ERROR_FAILED), k))
             else if op = sup_num ECALL_SUP_GET_STATE then
               Inr (Return (err ERROR_OK), put_reg c A1 (state_of k i) k)
             else if op = sup_num ECALL_SUP_READ_REG then
               with_supervisee i (\<lambda>k.
                 Inr (err ERROR_OK, put_reg c A1 (proc_read_register (ks_procs k i) arg0) k)) k
             else if op = sup_num ECALL_SUP_WRITE_REG then
               with_supervisee i (\<lambda>k.
                 Inr (err ERROR_OK, upd_proc i (\<lambda>p. snd (proc_write_register p arg0 arg1)) k)) k
             else if op = sup_num ECALL_SUP_READ_CAP then
               with_supervisee i (\<lambda>k.
                 ebind (cap_node_of k i arg0) (\<lambda>node.
                 let cap = cap_node_get_cap (ks_nodes k) node
                 in Inr (err ERROR_OK, put_reg c A2 (word1 cap) (put_reg c A1 (word0 cap) k)))) k
             else if op = sup_num ECALL_SUP_GIVE_CAP then
               with_supervisee i (interprocess_move c arg0 i arg1) k
             else if op = sup_num ECALL_SUP_TAKE_CAP then
               with_supervisee i (interprocess_move i arg0 c arg1) k
             else Inr (Return (err ERROR_UNIMPLEMENTED), k))"

text \<open>\<open>proc_receiver_wait(current, channel); sched_yield();\<close>\<close>

definition wait_and_yield :: "nat \<Rightarrow> u64 \<Rightarrow> handler" where
  "wait_and_yield c channel k =
     Inr (Yield, snd (with_state c (\<lambda>w. proc_receiver_wait w channel) k))"

definition syscall_invoke_receiver :: "nat \<Rightarrow> cap_t \<Rightarrow> u64 \<Rightarrow> u64 \<Rightarrow> u64 \<Rightarrow> u64 \<Rightarrow> handler" where
  "syscall_invoke_receiver c cap msg0 msg1 msg2 msg3 k =
     ebind (kassert (cap_is_type cap CAP_TYPE_RECEIVER)) (\<lambda>_.
     wait_and_yield c (cap_receiver_get_channel cap) k)"

text \<open>The capability and the four message words handed to a process acquired by a sender.\<close>

definition deliver :: "nat \<Rightarrow> nat \<Rightarrow> u64 \<Rightarrow> u64 \<Rightarrow> u64 \<Rightarrow> u64 \<Rightarrow> u64 \<Rightarrow> kstate \<Rightarrow> stop + kstate" where
  "deliver c r msg0 msg1 msg2 msg3 src_cidx k =
     (let dest = p_regs (ks_procs k r) DEST_CIDX
      in ebind (if unat src_cidx < N_CAPS \<and> unat dest < N_CAPS
                then ebind (interprocess_move c src_cidx r dest k) (\<lambda>(_, k). Inr k) else Inr k) (\<lambda>k.
         Inr (put_reg r A4 msg3 (put_reg r A3 msg2 (put_reg r A2 msg1 (put_reg r A1 msg0
           (put_reg r A0 (err ERROR_OK) k)))))))"

definition receiver_at :: "u64 \<Rightarrow> nat \<Rightarrow> kstate \<Rightarrow> stop + nat option" where
  "receiver_at channel i k =
     (if unat channel < N_CHANNELS then Inr (ks_receivers k (unat channel) i) else Inl Out_of_bounds)"

definition syscall_invoke_sender ::
    "nat \<Rightarrow> cap_t \<Rightarrow> u64 \<Rightarrow> u64 \<Rightarrow> u64 \<Rightarrow> u64 \<Rightarrow> u64 \<Rightarrow> handler" where
  "syscall_invoke_sender c cap msg0 msg1 msg2 msg3 src_cidx k =
     ebind (kassert (cap_is_type cap CAP_TYPE_SENDER)) (\<lambda>_.
     let channel = cap_sender_get_channel cap
     in ebind (receiver_at channel 0 k) (\<lambda>receiver.
        case receiver of
          None \<Rightarrow> Inr (Return (err ERROR_NO_RECEIVER), k)
        | Some r \<Rightarrow>
            (case with_state r (\<lambda>w. proc_sender_acquire w channel) k of (ok, k) \<Rightarrow>
               if \<not> ok then Inr (Return (err ERROR_NO_RECEIVER), k)
               else ebind (deliver c r msg0 msg1 msg2 msg3 src_cidx k) (\<lambda>k.
                 Inr (Return (err ERROR_OK), put_state r (proc_sender_release (state_of k r)) k)))))"

definition syscall_invoke_server ::
    "nat \<Rightarrow> cap_t \<Rightarrow> u64 \<Rightarrow> u64 \<Rightarrow> u64 \<Rightarrow> u64 \<Rightarrow> u64 \<Rightarrow> u64 \<Rightarrow> handler" where
  "syscall_invoke_server c cap msg0 msg1 msg2 msg3 src_cidx do_receive k =
     ebind (kassert (cap_is_type cap CAP_TYPE_SERVER)) (\<lambda>_.
     let channel = cap_server_get_channel cap
     in ebind (receiver_at channel 1 k) (\<lambda>client.
        ebind (case client of
            None \<Rightarrow> Inr k
          | Some r \<Rightarrow>
              (case with_state r (\<lambda>w. proc_sender_acquire w channel) k of (ok, k) \<Rightarrow>
                 if \<not> ok then Inr k
                 else ebind (deliver c r msg0 msg1 msg2 msg3 src_cidx k) (\<lambda>k.
                   Inr (put_state r (proc_sender_release (state_of k r)) k)))) (\<lambda>k.
        wait_and_yield c channel k)))"

definition syscall_invoke_client ::
    "nat \<Rightarrow> cap_t \<Rightarrow> u64 \<Rightarrow> u64 \<Rightarrow> u64 \<Rightarrow> u64 \<Rightarrow> u64 \<Rightarrow> handler" where
  "syscall_invoke_client c cap msg0 msg1 msg2 msg3 src_cidx k =
     ebind (kassert (cap_is_type cap CAP_TYPE_CLIENT)) (\<lambda>_.
     let channel = cap_client_get_channel cap
     in ebind (receiver_at channel 0 k) (\<lambda>server.
        case server of
          None \<Rightarrow> Inr (Return (err ERROR_NO_RECEIVER), k)
        | Some r \<Rightarrow>
            (case with_state r (\<lambda>w. proc_sender_acquire w channel) k of (ok, k) \<Rightarrow>
               if \<not> ok then Inr (Return (err ERROR_NO_RECEIVER), k)
               else ebind (deliver c r msg0 msg1 msg2 msg3 src_cidx k) (\<lambda>k.
                 let k = set_receiver (unat channel) 1
                           (snd (compare_and_swap (ks_receivers k (unat channel) 1) None (Some c))) k;
                     k = snd (with_state c (\<lambda>w. proc_receiver_wait w channel) k);
                     k = put_reg c A0 (err ERROR_INTERRUPTED) k
                 in Inr (Yield, put_state r (proc_sender_release (state_of k r)) k)))))"

definition syscall_invoke_cap ::
    "u64 \<Rightarrow> u64 \<Rightarrow> u64 \<Rightarrow> u64 \<Rightarrow> u64 \<Rightarrow> u64 \<Rightarrow> u64 \<Rightarrow> u64 \<Rightarrow> handler" where
  "syscall_invoke_cap cidx arg1 arg2 arg3 arg4 arg5 arg6 arg7 k =
     ebind (deref_current k) (\<lambda>c.
     ebind (cap_node_of k c cidx) (\<lambda>node.
     let cap = cap_node_get_cap (ks_nodes k) node
     in if cap_is_type cap CAP_TYPE_EMPTY then Inr (Return (err ERROR_EMPTY), k)
        else if cap_is_type cap CAP_TYPE_SUPERVISOR
          then syscall_invoke_supervisor c cap arg1 arg2 arg3 arg4 k
        else if cap_is_type cap CAP_TYPE_RECEIVER
          then syscall_invoke_receiver c cap arg1 arg2 arg3 arg4 k
        else if cap_is_type cap CAP_TYPE_SENDER
          then syscall_invoke_sender c cap arg1 arg2 arg3 arg4 arg5 k
        else if cap_is_type cap CAP_TYPE_SERVER
          then syscall_invoke_server c cap arg1 arg2 arg3 arg4 arg5 arg6 k
        else if cap_is_type cap CAP_TYPE_CLIENT
          then syscall_invoke_client c cap arg1 arg2 arg3 arg4 arg5 k
        else Inr (Return (err ERROR_UNIMPLEMENTED), k)))"

section \<open>The other system calls\<close>

definition syscall_get_pid :: handler where
  "syscall_get_pid k = ebind (deref_current k) (\<lambda>c. Inr (Return (p_pid (ks_procs k c)), k))"

definition syscall_read_reg :: "u64 \<Rightarrow> handler" where
  "syscall_read_reg regnr k =
     ebind (deref_current k) (\<lambda>c. Inr (Return (proc_read_register (ks_procs k c) regnr), k))"

definition syscall_write_reg :: "u64 \<Rightarrow> u64 \<Rightarrow> handler" where
  "syscall_write_reg regnr val k =
     ebind (deref_current k) (\<lambda>c.
     Inr (Return (fst (proc_write_register (ks_procs k c) regnr val)),
          upd_proc c (\<lambda>p. snd (proc_write_register p regnr val)) k))"

definition syscall_yield :: handler where
  "syscall_yield k =
     ebind (deref_current k) (\<lambda>c.
     Inr (Yield, put_reg c A0 (err ERROR_OK)
       (put_reg c TIMEOUT (ks_mtimecmp k (unat (ks_hartid k))) k)))"

end
