(* ===== verification/Separation.thy ===== *)
theory Separation
  imports Kernel
begin

text \<open>
  The separation invariant of the kernel and that every system call keeps it. \<open>caps_inv\<close> is
  about the capability tables: well linked, well-formed capabilities, and no two live
  capabilities with a common exclusive resource (a quantum of a hart, receiving on a
  channel, supervising a process). \<open>owners_inv\<close> ties the tables the kernel acts on to the
  capabilities: the schedule gives every quantum of a live time capability to its holder,
  and the receiver of a channel is the holder of its receiver or server capability.
\<close>

section \<open>The capability tables\<close>

fun exclusive :: "resource \<Rightarrow> bool" where
  "exclusive (Page i r) = False"
| "exclusive (Slice h q) = True"
| "exclusive (Receive ch) = True"
| "exclusive (Send ch) = False"
| "exclusive (Supervise p) = True"

definition slot_in_range :: "node_ptr \<Rightarrow> bool" where
  "slot_in_range n \<longleftrightarrow> (\<exists>i j. n = Slot i j \<and> i < N_PROC \<and> j < N_CAPS)"

definition cap_at :: "node_heap \<Rightarrow> node_ptr \<Rightarrow> cap_t \<Rightarrow> bool" where
  "cap_at h n c \<longleftrightarrow> is_slot n \<and> node_live h n \<and> cn_cap (h n) = c"

definition caps_inv :: "node_heap \<Rightarrow> bool" where
  "caps_inv h \<longleftrightarrow> nodes_ok h \<and>
     (\<forall>n c. cap_at h n c \<longrightarrow> slot_in_range n \<and> cap_ok c \<and> \<not> cap_is_type c CAP_TYPE_MEMORY) \<and>
     (\<forall>n n' c c'. cap_at h n c \<longrightarrow> cap_at h n' c' \<longrightarrow> n \<noteq> n' \<longrightarrow>
        authority c \<inter> authority c' \<inter> Collect exclusive = {})"

lemma caps_invD:
  assumes "caps_inv h"
  shows "nodes_ok h" "cap_at h n c \<Longrightarrow> slot_in_range n" "cap_at h n c \<Longrightarrow> cap_ok c"
    "cap_at h n c \<Longrightarrow> \<not> cap_is_type c CAP_TYPE_MEMORY"
    "cap_at h n c \<Longrightarrow> cap_at h n' c' \<Longrightarrow> n \<noteq> n' \<Longrightarrow> authority c \<inter> authority c' \<inter> Collect exclusive = {}"
  using assms unfolding caps_inv_def by blast+

lemma caps_invI:
  assumes "nodes_ok h"
    "\<And>n c. cap_at h n c \<Longrightarrow> slot_in_range n \<and> cap_ok c \<and> \<not> cap_is_type c CAP_TYPE_MEMORY"
    "\<And>n n' c c'. cap_at h n c \<Longrightarrow> cap_at h n' c' \<Longrightarrow> n \<noteq> n' \<Longrightarrow>
      authority c \<inter> authority c' \<inter> Collect exclusive = {}"
  shows "caps_inv h"
  using assms unfolding caps_inv_def by blast

text \<open>The resources some live capability commands.\<close>

definition all_authority :: "node_heap \<Rightarrow> resource set" where
  "all_authority h = \<Union> {authority c |n c. cap_at h n c}"

lemma slot_in_range_slot: "slot_in_range n \<Longrightarrow> is_slot n"
  by (auto simp: slot_in_range_def)

lemma caps_move:
  assumes "caps_inv h" "node_live h s" "\<not> node_live h d" "slot_in_range s" "slot_in_range d"
  shows "\<exists>h'. cap_node_move (cn_cap (h s)) s d h = Inr (True, h') \<and> caps_inv h' \<and>
    (\<forall>n c. cap_at h' n c \<longleftrightarrow> (if n = d then c = cn_cap (h s) else n \<noteq> s \<and> cap_at h n c)) \<and>
    (\<forall>n. cn_cap (h' n) = (if n = d then cn_cap (h s) else cn_cap (h n)))"
proof -
  have sl: "is_slot s" "is_slot d" using assms slot_in_range_slot by blast+
  obtain h' where h': "cap_node_move (cn_cap (h s)) s d h = Inr (True, h')" "nodes_ok h'"
    "\<And>x. node_live h' x \<longleftrightarrow> x \<noteq> s \<and> (x = d \<or> node_live h x)"
    "\<And>x. cn_cap (h' x) = (if x = d then cn_cap (h s) else cn_cap (h x))"
    using cs.move_effect [OF caps_invD(1) [OF assms(1)] sl assms(2,3), of "cn_cap (h s)"]
    unfolding cap_node_move_def by blast
  have ds: "d \<noteq> s" using assms(2,3) by auto
  have at: "cap_at h' n c \<longleftrightarrow> (if n = d then c = cn_cap (h s) else n \<noteq> s \<and> cap_at h n c)" for n c
    using sl ds by (auto simp: cap_at_def h'(3,4))
  have old: "cap_at h s (cn_cap (h s))" using assms(2) sl by (simp add: cap_at_def)
  have "caps_inv h'"
  proof (rule caps_invI)
    show "nodes_ok h'" by (rule h'(2))
    show "slot_in_range n \<and> cap_ok c \<and> \<not> cap_is_type c CAP_TYPE_MEMORY" if "cap_at h' n c" for n c
      using that assms(5) caps_invD(2-4) [OF assms(1)] old unfolding at by (auto split: if_splits)
    show "authority c \<inter> authority c' \<inter> Collect exclusive = {}"
      if nn: "cap_at h' n c" "cap_at h' n' c'" "n \<noteq> n'" for n n' c c'
    proof -
      have o: "authority (cn_cap (h s)) \<inter> authority y \<inter> Collect exclusive = {}"
        if "cap_at h m y" "m \<noteq> s" for m y
        using caps_invD(5) [OF assms(1) old that(1)] that(2) by blast
      consider "n = d" "n' \<noteq> d" | "n \<noteq> d" "n' = d" | "n \<noteq> d" "n' \<noteq> d" using nn(3) by blast
      then show ?thesis
      proof cases
        case 1
        then show ?thesis using nn o [of n' c'] unfolding at by simp
      next
        case 2
        then show ?thesis using nn o [of n c] unfolding at by (simp add: Int_commute)
      next
        case 3
        then have "cap_at h n c" "cap_at h n' c'" using nn unfolding at by simp_all
        then show ?thesis using caps_invD(5) [OF assms(1)] nn(3) by blast
      qed
    qed
  qed
  then show ?thesis using h' at by auto
qed

lemma caps_delete:
  assumes "caps_inv h" "node_live h s" "slot_in_range s"
  shows "\<exists>h'. cap_node_delete s h = Inr (True, h') \<and> caps_inv h' \<and>
    (\<forall>n c. cap_at h' n c \<longleftrightarrow> n \<noteq> s \<and> cap_at h n c) \<and> (\<forall>n. cn_cap (h' n) = cn_cap (h n)) \<and>
    \<not> node_live h' s"
proof -
  obtain h' where h': "cap_node_delete s h = Inr (True, h')" "nodes_ok h'"
    "\<And>x. node_live h' x \<longleftrightarrow> x \<noteq> s \<and> node_live h x" "\<And>x. cn_cap (h' x) = cn_cap (h x)"
    using cs.del_live [OF caps_invD(1) [OF assms(1)] slot_in_range_slot [OF assms(3)] assms(2)]
    by blast
  have at: "cap_at h' n c \<longleftrightarrow> n \<noteq> s \<and> cap_at h n c" for n c
    by (auto simp: cap_at_def h'(3,4))
  have "caps_inv h'"
    using assms(1) h'(2) unfolding caps_inv_def at by blast
  then show ?thesis using h' at by simp
qed

lemma authority_exclusive:
  assumes "cap_can_derive p c" "\<not> splits_parent c"
  shows "authority c \<inter> Collect exclusive = {}"
  using assms(1)
proof (cases rule: cap_can_derive_cases)
  case pmp
  then show ?thesis by (auto simp: authority_simps)
next
  case sender
  then show ?thesis by (auto simp: authority_simps)
next
  case client
  then show ?thesis by (auto simp: authority_simps)
qed (use assms(2) in \<open>auto simp: splits_parent_def\<close>)

lemma derive_not_memory:
  assumes "cap_can_derive p c" "\<not> cap_is_type p CAP_TYPE_MEMORY"
  shows "\<not> cap_is_type c CAP_TYPE_MEMORY" "\<not> cap_is_type c CAP_TYPE_PMP"
  using assms by (cases rule: cap_can_derive_cases; auto dest: cap_is_type_unique)+

lemma caps_derive:
  assumes "caps_inv h" "node_live h s" "\<not> node_live h d" "slot_in_range s" "slot_in_range d"
    and "cap_can_derive (cn_cap (h s)) c" "derive_update_cap (cn_cap (h s)) c = Inr p'"
  shows "\<exists>h'. cap_node_insert c d s (set_cap h s p') = Inr (True, h') \<and> caps_inv h' \<and>
    (\<forall>n x. cap_at h' n x \<longleftrightarrow> (if n = d then x = c else if n = s then x = p' else cap_at h n x)) \<and>
    all_authority h' \<subseteq> all_authority h"
proof -
  have sl: "is_slot s" "is_slot d" using assms slot_in_range_slot by blast+
  obtain h' where h': "cap_node_insert c d s (set_cap h s p') = Inr (True, h')" "nodes_ok h'"
    "\<And>x. node_live h' x \<longleftrightarrow> x = d \<or> node_live h x"
    "\<And>x. cn_cap (h' x) = (if x = d then c else if x = s then p' else cn_cap (h x))"
    using cs.derive_effect [OF caps_invD(1) [OF assms(1)] sl assms(2,3), of c p'] by blast
  have ds: "d \<noteq> s" using assms(2,3) by auto
  have at: "cap_at h' n x \<longleftrightarrow> (if n = d then x = c else if n = s then x = p' else cap_at h n x)" for n x
    using sl ds assms(2) by (auto simp: cap_at_def h'(3,4))
  have old: "cap_at h s (cn_cap (h s))" using assms(2) sl by (simp add: cap_at_def)
  note inv = caps_invD [OF assms(1)]
  have nm: "\<not> cap_is_type (cn_cap (h s)) CAP_TYPE_MEMORY" by (rule inv(4) [OF old])
  note nc = derive_not_memory [OF assms(6) nm]
  have fi: "frame_inside (cn_cap (h s)) c" using nc by (simp add: frame_inside_def)
  note da = derive_authority [OF assms(6,7) fi] and dok = derive_ok [OF inv(3) [OF old] assms(6,7)]
  have nm': "\<not> cap_is_type p' CAP_TYPE_MEMORY"
    using derive_update_total [OF assms(6)] assms(7) nm by (auto simp: cap_is_type_def)
  have disj: "authority c \<inter> authority p' \<inter> Collect exclusive = {}"
    using da(2) authority_exclusive [OF assms(6)] by blast
  have other: "authority x \<inter> authority y \<inter> Collect exclusive = {}"
    if "x = c \<or> x = p'" "cap_at h n y" "n \<noteq> s" for x y n
    using inv(5) [OF old that(2)] that(1,3) da(1) by blast
  have "caps_inv h'"
  proof (rule caps_invI)
    show "nodes_ok h'" by (rule h'(2))
    show "slot_in_range n \<and> cap_ok x \<and> \<not> cap_is_type x CAP_TYPE_MEMORY" if "cap_at h' n x" for n x
      using that assms(4,5) inv(2-4) dok nc(1) nm' unfolding at by (auto split: if_splits)
    show "authority x \<inter> authority x' \<inter> Collect exclusive = {}"
      if nn: "cap_at h' n x" "cap_at h' n' x'" "n \<noteq> n'" for n n' x x'
    proof -
      have new: "n = d \<or> n = s \<Longrightarrow> x = c \<or> x = p'" "n' = d \<or> n' = s \<Longrightarrow> x' = c \<or> x' = p'"
        "n \<noteq> d \<Longrightarrow> n \<noteq> s \<Longrightarrow> cap_at h n x" "n' \<noteq> d \<Longrightarrow> n' \<noteq> s \<Longrightarrow> cap_at h n' x'"
        using nn(1,2) unfolding at by (auto split: if_splits)
      consider "n \<in> {d, s}" "n' \<in> {d, s}" | "n \<in> {d, s}" "n' \<notin> {d, s}" | "n \<notin> {d, s}" "n' \<in> {d, s}"
        | "n \<notin> {d, s}" "n' \<notin> {d, s}" by blast
      then show ?thesis
      proof cases
        case 1
        then show ?thesis using nn disj ds unfolding at by (auto split: if_splits)
      next
        case 2
        then show ?thesis using new other by blast
      next
        case 3
        then show ?thesis using new other by blast
      next
        case 4
        then show ?thesis using new inv(5) [OF _ _ nn(3)] by blast
      qed
    qed
  qed
  moreover have "all_authority h' \<subseteq> all_authority h"
    using da(1) old unfolding all_authority_def at by (force split: if_splits)
  ultimately show ?thesis using h'(1) at by auto
qed

section \<open>The kernel tables\<close>

definition owns :: "nat \<Rightarrow> cap_t \<Rightarrow> schedule \<Rightarrow> (nat \<Rightarrow> nat \<Rightarrow> nat option) \<Rightarrow> bool" where
  "owns i c s r \<longleftrightarrow>
     (cap_is_type c CAP_TYPE_TIME \<longrightarrow>
        (\<forall>q \<in> {unat (cap_time_get_free c)..<unat (cap_time_get_end c)}.
           entry_at s q (unat (cap_time_get_hartid c)) = (i, unat (cap_time_get_end c) - q))) \<and>
     (cap_is_type c CAP_TYPE_RECEIVER \<longrightarrow> r (unat (cap_receiver_get_channel c)) 0 = Some i) \<and>
     (cap_is_type c CAP_TYPE_SERVER \<longrightarrow> r (unat (cap_server_get_channel c)) 0 = Some i)"

definition owners_inv :: "node_heap \<Rightarrow> schedule \<Rightarrow> (nat \<Rightarrow> nat \<Rightarrow> nat option) \<Rightarrow> bool" where
  "owners_inv h s r \<longleftrightarrow> (\<forall>i j c. cap_at h (Slot i j) c \<longrightarrow> owns i c s r)"

text \<open>What \<open>cap_update_hook\<close> does to the tables for a live node.\<close>

definition hook_effect ::
    "nat \<Rightarrow> cap_t \<Rightarrow> schedule \<Rightarrow> (nat \<Rightarrow> nat \<Rightarrow> nat option) \<Rightarrow> schedule \<Rightarrow> (nat \<Rightarrow> nat \<Rightarrow> nat option) \<Rightarrow> bool" where
  "hook_effect d c s r s' r' \<longleftrightarrow>
     (\<forall>q h. MIN_HARTID \<le> h \<longrightarrow> entry_at s' q h =
        (if cap_is_type c CAP_TYPE_TIME \<and> Slice h q \<in> authority c
         then (d, unat (cap_time_get_end c) - q) else entry_at s q h)) \<and>
     (\<forall>ch i. r' ch i =
        (if i = 0 \<and> (cap_is_type c CAP_TYPE_RECEIVER \<or> cap_is_type c CAP_TYPE_SERVER) \<and>
            Receive ch \<in> authority c then Some d else r ch i))"

definition spent_time :: "cap_t \<Rightarrow> bool" where
  "spent_time c \<longleftrightarrow> cap_is_type c CAP_TYPE_TIME \<and> \<not> cap_time_get_free c < cap_time_get_end c"

definition tables_ok :: "kstate \<Rightarrow> bool" where
  "tables_ok k \<longleftrightarrow> lock_free (ks_sched_lock k) \<and> lock_free (ks_receivers_lock k) \<and>
     sched_valid (ks_schedule k) \<and>
     (\<forall>ch i p. ks_receivers k ch i = Some p \<longrightarrow> p < N_PROC) \<and>
     (\<forall>i < N_PROC. p_pid (ks_procs k i) = of_nat i \<and> p_cap_table (ks_procs k i) = Some i)"

abbreviation with_tables ::
    "kstate \<Rightarrow> schedule \<Rightarrow> lock_t \<Rightarrow> (nat \<Rightarrow> nat \<Rightarrow> nat option) \<Rightarrow> lock_t \<Rightarrow> kstate" where
  "with_tables k s l1 r l2 \<equiv>
     k\<lparr>ks_schedule := s, ks_sched_lock := l1, ks_receivers := r, ks_receivers_lock := l2\<rparr>"

lemma receiver_live:
  assumes "lock_free (ks_receivers_lock k)" "node_live (ks_nodes k) n" "unat ch < N_CHANNELS"
  shows "\<exists>l. update_receiver (Some d) n ch k =
      Inr (k\<lparr>ks_receivers := (ks_receivers k)(unat ch := (ks_receivers k (unat ch))(0 := Some d)),
             ks_receivers_lock := l\<rparr>) \<and> lock_free l"
proof -
  obtain l where l: "lock_acquire (ks_receivers_lock k) = Inr l" "lock_free (lock_release l)"
    using ticket.critical_section [OF assms(1)] .
  then show ?thesis
    using assms by (intro exI [of _ "lock_release l"]) (simp add: update_receiver_def node_live_deleted set_receiver_def)
qed

lemma receiver_dead:
  assumes "lock_free (ks_receivers_lock k)" "\<not> node_live (ks_nodes k) n"
  shows "\<exists>l. update_receiver p n ch k = Inr (k\<lparr>ks_receivers_lock := l\<rparr>) \<and> lock_free l"
proof -
  obtain l where l: "lock_acquire (ks_receivers_lock k) = Inr l" "lock_free (lock_release l)"
    using ticket.critical_section [OF assms(1)] .
  then show ?thesis
    using assms by (intro exI [of _ "lock_release l"]) (simp add: update_receiver_def node_live_deleted)
qed

lemma unat_pid: "d < N_PROC \<Longrightarrow> unat (of_nat d :: u64) = d"
  by (simp add: config_defs unat_of_nat)

lemma hook_live:
  assumes "tables_ok k" "d < N_PROC" "cap_ok c" "\<not> spent_time c" "node_live (ks_nodes k) n"
  shows "\<exists>s l1 r l2. cap_update_hook (Some d) n c k = Inr (with_tables k s l1 r l2) \<and>
    lock_free l1 \<and> lock_free l2 \<and> hook_effect d c (ks_schedule k) (ks_receivers k) s r"
proof -
  have t: "lock_free (ks_sched_lock k)" "lock_free (ks_receivers_lock k)"
    "p_pid (ks_procs k d) = of_nat d"
    using assms(1,2) by (simp_all add: tables_ok_def)
  consider "cap_is_type c CAP_TYPE_TIME" | "cap_is_type c CAP_TYPE_RECEIVER"
    | "cap_is_type c CAP_TYPE_SERVER"
    | "\<not> cap_is_type c CAP_TYPE_TIME" "\<not> cap_is_type c CAP_TYPE_RECEIVER" "\<not> cap_is_type c CAP_TYPE_SERVER"
    by blast
  then show ?thesis
  proof cases
    case 1
    note ok = assms(3) [unfolded cap_ok_simps(3) [OF 1]]
    have h: "hart_ok (cap_time_get_hartid c)" using ok by (simp add: hart_ok_def)
    have lt: "cap_time_get_free c < cap_time_get_end c"
      using 1 assms(4) by (simp add: spent_time_def)
    have e: "unat (cap_time_get_end c) \<le> N_QUANTUM" using ok by simp
    have p: "of_nat d = INVALID_PID \<or> unat (of_nat d :: u64) < N_PROC"
      using assms(2) by (simp add: unat_pid)
    obtain s l where u: "sched_update (ks_nodes k) n (cap_time_get_hartid c) (cap_time_get_free c)
        (cap_time_get_end c) (of_nat d) (ks_schedule k, ks_sched_lock k) = Inr (s, l)" "lock_free l"
      "\<And>q h. MIN_HARTID \<le> h \<Longrightarrow> entry_at s q h =
        (if node_live (ks_nodes k) n \<and> q \<in> {unat (cap_time_get_free c)..<unat (cap_time_get_end c)} \<and>
            h = unat (cap_time_get_hartid c)
         then (unat (of_nat d :: u64), unat (cap_time_get_end c) - q) else entry_at (ks_schedule k) q h)"
      using sched_update_runs [OF lt h e p t(1)] by blast
    have "cap_update_hook (Some d) n c k = Inr (k\<lparr>ks_schedule := s, ks_sched_lock := l\<rparr>)"
      using u(1) t(3) 1 by (simp add: cap_update_hook_def type_eqs)
    moreover have "hook_effect d c (ks_schedule k) (ks_receivers k) s (ks_receivers k)"
      using 1 u(3) assms(5) unat_pid [OF assms(2)]
      by (auto simp: hook_effect_def authority_simps type_eqs)
    ultimately show ?thesis
      using u(2) t(2) by (intro exI [of _ s] exI [of _ l] exI [of _ "ks_receivers k"]
          exI [of _ "ks_receivers_lock k"]) simp
  next
    case 2
    have ch: "unat (cap_receiver_get_channel c) < N_CHANNELS" using assms(3) 2 by (simp add: cap_ok_simps)
    let ?r = "(ks_receivers k)(unat (cap_receiver_get_channel c) :=
      (ks_receivers k (unat (cap_receiver_get_channel c)))(0 := Some d))"
    obtain l where l: "update_receiver (Some d) n (cap_receiver_get_channel c) k =
        Inr (k\<lparr>ks_receivers := ?r, ks_receivers_lock := l\<rparr>)" "lock_free l"
      using receiver_live [OF t(2) assms(5) ch] by blast
    have "cap_update_hook (Some d) n c k = Inr (k\<lparr>ks_receivers := ?r, ks_receivers_lock := l\<rparr>)"
      using l(1) 2 by (simp add: cap_update_hook_def type_eqs)
    moreover have "hook_effect d c (ks_schedule k) (ks_receivers k) (ks_schedule k) ?r"
      using 2 by (auto simp: hook_effect_def authority_simps type_eqs)
    ultimately show ?thesis
      using l(2) t(1) by (intro exI [of _ "ks_schedule k"] exI [of _ "ks_sched_lock k"] exI [of _ ?r]
          exI [of _ l]) simp
  next
    case 3
    have ch: "unat (cap_server_get_channel c) < N_CHANNELS" using assms(3) 3 by (simp add: cap_ok_simps)
    let ?r = "(ks_receivers k)(unat (cap_server_get_channel c) :=
      (ks_receivers k (unat (cap_server_get_channel c)))(0 := Some d))"
    obtain l where l: "update_receiver (Some d) n (cap_server_get_channel c) k =
        Inr (k\<lparr>ks_receivers := ?r, ks_receivers_lock := l\<rparr>)" "lock_free l"
      using receiver_live [OF t(2) assms(5) ch] by blast
    have "cap_update_hook (Some d) n c k = Inr (k\<lparr>ks_receivers := ?r, ks_receivers_lock := l\<rparr>)"
      using l(1) 3 by (simp add: cap_update_hook_def type_eqs)
    moreover have "hook_effect d c (ks_schedule k) (ks_receivers k) (ks_schedule k) ?r"
      using 3 by (auto simp: hook_effect_def authority_simps type_eqs)
    ultimately show ?thesis
      using l(2) t(1) by (intro exI [of _ "ks_schedule k"] exI [of _ "ks_sched_lock k"] exI [of _ ?r]
          exI [of _ l]) simp
  next
    case 4
    then have "cap_update_hook (Some d) n c k = Inr k" by (simp add: cap_update_hook_def)
    moreover have "hook_effect d c (ks_schedule k) (ks_receivers k) (ks_schedule k) (ks_receivers k)"
      using 4 by (auto simp: hook_effect_def)
    ultimately show ?thesis
      using t by (intro exI [of _ "ks_schedule k"] exI [of _ "ks_sched_lock k"]
          exI [of _ "ks_receivers k"] exI [of _ "ks_receivers_lock k"]) simp
  qed
qed

lemma hook_dead:
  assumes "tables_ok k" "cap_ok c" "\<not> spent_time c" "\<not> node_live (ks_nodes k) n"
    "\<forall>d. p = Some d \<longrightarrow> d < N_PROC"
  shows "\<exists>l1 l2. cap_update_hook p n c k =
      Inr (k\<lparr>ks_sched_lock := l1, ks_receivers_lock := l2\<rparr>) \<and> lock_free l1 \<and> lock_free l2"
proof -
  have t: "lock_free (ks_sched_lock k)" "lock_free (ks_receivers_lock k)"
    using assms(1) by (simp_all add: tables_ok_def)
  consider "cap_is_type c CAP_TYPE_TIME" | "cap_is_type c CAP_TYPE_RECEIVER"
    | "cap_is_type c CAP_TYPE_SERVER"
    | "\<not> cap_is_type c CAP_TYPE_TIME" "\<not> cap_is_type c CAP_TYPE_RECEIVER" "\<not> cap_is_type c CAP_TYPE_SERVER"
    by blast
  then show ?thesis
  proof cases
    case 1
    note ok = assms(2) [unfolded cap_ok_simps(3) [OF 1]]
    obtain l1 where l: "lock_acquire (ks_sched_lock k) = Inr l1" "lock_free (lock_release l1)"
      using ticket.critical_section [OF t(1)] .
    let ?pid = "case p of None \<Rightarrow> INVALID_PID | Some i \<Rightarrow> p_pid (ks_procs k i)"
    have "?pid = INVALID_PID \<or> unat ?pid < N_PROC"
      using assms(1,5) by (cases p) (auto simp: tables_ok_def unat_pid)
    then have "cap_update_hook p n c k = Inr (k\<lparr>ks_sched_lock := lock_release l1\<rparr>)"
      using 1 ok assms(3,4) l(1)
      by (simp add: cap_update_hook_def type_eqs sched_update_def hart_ok_def spent_time_def
          node_live_deleted)
    then show ?thesis
      using l(2) t(2) by (intro exI [of _ "lock_release l1"] exI [of _ "ks_receivers_lock k"]) simp
  next
    case 2
    obtain l where "update_receiver p n (cap_receiver_get_channel c) k = Inr (k\<lparr>ks_receivers_lock := l\<rparr>)"
      "lock_free l" using receiver_dead [OF t(2) assms(4)] by blast
    then show ?thesis
      using 2 t(1) by (intro exI [of _ "ks_sched_lock k"] exI [of _ l])
        (simp add: cap_update_hook_def type_eqs)
  next
    case 3
    obtain l where "update_receiver p n (cap_server_get_channel c) k = Inr (k\<lparr>ks_receivers_lock := l\<rparr>)"
      "lock_free l" using receiver_dead [OF t(2) assms(4)] by blast
    then show ?thesis
      using 3 t(1) by (intro exI [of _ "ks_sched_lock k"] exI [of _ l])
        (simp add: cap_update_hook_def type_eqs)
  next
    case 4
    then show ?thesis
      using t by (intro exI [of _ "ks_sched_lock k"] exI [of _ "ks_receivers_lock k"])
        (simp add: cap_update_hook_def)
  qed
qed


section \<open>Keeping the owners\<close>

lemma owns_after_hook: "cap_ok c \<Longrightarrow> hook_effect d c s r s' r' \<Longrightarrow> owns d c s' r'"
  by (auto simp: owns_def hook_effect_def authority_simps cap_ok_simps type_eqs)

lemma owns_other:
  assumes "owns i c' s r" "hook_effect d c s r s' r'" "cap_ok c'"
    "authority c \<inter> authority c' \<inter> Collect exclusive = {}"
  shows "owns i c' s' r'"
proof -
  have no: "x \<notin> authority c" if "x \<in> authority c'" "exclusive x" for x
    using assms(4) that by blast
  have "entry_at s' q (unat (cap_time_get_hartid c')) = (i, unat (cap_time_get_end c') - q)"
    if "cap_is_type c' CAP_TYPE_TIME" "q \<in> {unat (cap_time_get_free c')..<unat (cap_time_get_end c')}" for q
  proof -
    have "Slice (unat (cap_time_get_hartid c')) q \<notin> authority c"
      using no that by (simp add: authority_simps)
    moreover have "MIN_HARTID \<le> unat (cap_time_get_hartid c')"
      using assms(3) that(1) by (simp add: cap_ok_simps)
    ultimately show ?thesis
      using assms(1,2) that by (simp add: hook_effect_def owns_def)
  qed
  moreover have "r' ch 0 = Some i" if "r ch 0 = Some i" "Receive ch \<in> authority c'" for ch
    using no [OF that(2)] that(1) assms(2) by (simp add: hook_effect_def)
  ultimately show ?thesis
    using assms(1) by (simp add: owns_def authority_simps)
qed

lemma owns_derive_update:
  assumes "owns i p s r" "cap_can_derive p c" "derive_update_cap p c = Inr p'"
    "\<not> cap_is_type p CAP_TYPE_MEMORY"
  shows "owns i p' s r"
  using assms(2)
proof (cases rule: cap_can_derive_cases)
  case time
  have p': "p' = cap_time_set_free p (cap_time_get_end c)"
    using assms(3) time by (simp add: derive_update_simps)
  note d = rtime.derive [OF time assms(2)] rtime.derived_parent [OF time assms(3)]
  have "cap_time_get_hartid p' = cap_time_get_hartid p"
    by (simp add: p' time_end.get_fits)
  then show ?thesis
    using assms(1) d time by (auto simp: owns_def type_eqs word_le_nat_alt word_less_nat_alt)
next
  case channels
  then show ?thesis
    using rchan.derived_parent [OF channels assms(3)] by (auto simp: owns_def type_eqs)
next
  case receiver
  then show ?thesis
    using derived_receiver(1) [OF receiver assms(2,3)] by (auto simp: owns_def type_eqs)
next
  case server
  then show ?thesis
    using derived_server(1) [OF server assms(2,3)] by (auto simp: owns_def type_eqs)
next
  case supervisor
  then show ?thesis
    using rsup.derived_parent [OF supervisor assms(3)] by (auto simp: owns_def type_eqs)
qed (use assms in \<open>simp_all add: derive_update_simps\<close>)

lemma hook_effect_valid:
  assumes "sched_valid s" "hook_effect d c s r s' r'" "d < N_PROC"
  shows "sched_valid s'"
proof -
  have "fst (entry_at s' q h) = 255 \<or> fst (entry_at s' q h) < N_PROC"
    if "q < N_QUANTUM" "h \<in> {MIN_HARTID..MAX_HARTID}" for q h
    using assms that by (auto simp: sched_valid_def hook_effect_def)
  then show ?thesis by (simp add: sched_valid_def)
qed

lemma hook_effect_receivers:
  "hook_effect d c s r s' r' \<Longrightarrow> d < N_PROC \<Longrightarrow> \<forall>ch i p. r ch i = Some p \<longrightarrow> p < N_PROC \<Longrightarrow>
    \<forall>ch i p. r' ch i = Some p \<longrightarrow> p < N_PROC"
  by (auto simp: hook_effect_def)

section \<open>The invariant\<close>

definition raw_ok :: "node_heap \<Rightarrow> bool" where
  "raw_ok h \<longleftrightarrow> (\<forall>n. is_slot n \<longrightarrow> cap_ok (cn_cap (h n)))"

definition kinv :: "kstate \<Rightarrow> bool" where
  "kinv k \<longleftrightarrow> caps_inv (ks_nodes k) \<and> raw_ok (ks_nodes k) \<and>
     owners_inv (ks_nodes k) (ks_schedule k) (ks_receivers k) \<and> tables_ok k \<and>
     hart_ok (ks_hartid k) \<and> (\<forall>c. ks_current k = Some c \<longrightarrow> c < N_PROC)"

text \<open>
  The capabilities the code cannot handle: a time capability all of whose time has been
  derived away, and a channels capability left behind in an emptied slot.
\<close>

definition calm :: "node_heap \<Rightarrow> bool" where
  "calm h \<longleftrightarrow> (\<forall>n. is_slot n \<longrightarrow> \<not> spent_time (cn_cap (h n)) \<and>
     (\<not> node_live h n \<longrightarrow> \<not> cap_is_type (cn_cap (h n)) CAP_TYPE_CHANNELS))"

lemma not_calm:
  "spent_time (cn_cap (h n)) \<Longrightarrow> is_slot n \<Longrightarrow> \<not> calm h"
  "cap_is_type (cn_cap (h n)) CAP_TYPE_CHANNELS \<Longrightarrow> \<not> node_live h n \<Longrightarrow> is_slot n \<Longrightarrow> \<not> calm h"
  by (auto simp: calm_def)

text \<open>
  What every step of a system call promises: it keeps the invariant, creates no authority
  and replaces no subscribed client, or it fails an assertion in a state that is not calm.
\<close>

definition clients_kept :: "kstate \<Rightarrow> kstate \<Rightarrow> bool" where
  "clients_kept k k' \<longleftrightarrow> (\<forall>ch a. ks_receivers k ch 1 = Some a \<longrightarrow> ks_receivers k' ch 1 = Some a)"

fun keeps :: "kstate \<Rightarrow> stop + 'a \<times> kstate \<Rightarrow> bool" where
  "keeps k (Inl e) \<longleftrightarrow> e = Assert_failed \<and> \<not> calm (ks_nodes k)"
| "keeps k (Inr (x, k')) \<longleftrightarrow> kinv k' \<and> all_authority (ks_nodes k') \<subseteq> all_authority (ks_nodes k) \<and>
     ks_current k' = ks_current k \<and> ks_hartid k' = ks_hartid k \<and> clients_kept k k'"

lemma clients_kept_eq [simp]: "ks_receivers k' = ks_receivers k \<Longrightarrow> clients_kept k k'"
  by (simp add: clients_kept_def)

lemma clients_kept_trans: "clients_kept k k1 \<Longrightarrow> clients_kept k1 k2 \<Longrightarrow> clients_kept k k2"
  by (simp add: clients_kept_def)

lemma clients_kept_hook:
  "hook_effect d c s (ks_receivers k) s' (ks_receivers k') \<Longrightarrow> clients_kept k k'"
  by (simp add: clients_kept_def hook_effect_def)

lemma clients_kept_shift:
  "ks_receivers k1 = ks_receivers k \<Longrightarrow> clients_kept k1 k' \<longleftrightarrow> clients_kept k k'"
  "ks_receivers k2 = ks_receivers k' \<Longrightarrow> clients_kept k k2 \<longleftrightarrow> clients_kept k k'"
  by (simp_all add: clients_kept_def)

lemma kinvD:
  assumes "kinv k"
  shows "caps_inv (ks_nodes k)" "raw_ok (ks_nodes k)"
    "owners_inv (ks_nodes k) (ks_schedule k) (ks_receivers k)" "tables_ok k"
    "hart_ok (ks_hartid k)" "ks_current k = Some c \<Longrightarrow> c < N_PROC"
  using assms by (simp_all add: kinv_def)

lemma cap_node_of_runs:
  "kinv k \<Longrightarrow> i < N_PROC \<Longrightarrow>
    cap_node_of k i cid = Inr (Slot i (unat (cid mod of_nat N_CAPS)))"
  by (simp add: kinv_def tables_ok_def cap_node_of_def proc_get_cap_node_def)

lemma slot_of_range [simp]: "i < N_PROC \<Longrightarrow> slot_in_range (Slot i (unat ((cid :: u64) mod of_nat N_CAPS)))"
  by (simp add: slot_in_range_def)

text \<open>Steps that touch neither the tables nor the identity of a process.\<close>

lemma kinv_upd_proc:
  assumes "\<And>p. p_pid (f p) = p_pid p" "\<And>p. p_cap_table (f p) = p_cap_table p"
  shows "kinv (upd_proc i f k) \<longleftrightarrow> kinv k"
proof -
  have "p_pid (ks_procs (upd_proc i f k) j) = p_pid (ks_procs k j)"
    "p_cap_table (ks_procs (upd_proc i f k) j) = p_cap_table (ks_procs k j)" for j
    using assms by (simp_all add: upd_proc_def)
  moreover have "kinv (upd_proc i f k) = kinv (k\<lparr>ks_procs := ks_procs (upd_proc i f k)\<rparr>)"
    by (simp add: upd_proc_def)
  ultimately show ?thesis by (simp add: kinv_def tables_ok_def)
qed

lemma kinv_put [simp]:
  "kinv (put_reg i r v k) \<longleftrightarrow> kinv k" "kinv (put_state i w k) \<longleftrightarrow> kinv k"
  "kinv (preemption_enable k) \<longleftrightarrow> kinv k" "kinv (preemption_disable k) \<longleftrightarrow> kinv k"
  by (simp_all add: put_reg_def put_state_def kinv_upd_proc)
    (simp_all add: kinv_def tables_ok_def preemption_enable_def preemption_disable_def)

lemma put_frame [simp]:
  "ks_nodes (upd_proc i f k) = ks_nodes k" "ks_nodes (put_reg i r v k) = ks_nodes k"
  "ks_nodes (put_state i w k) = ks_nodes k" "ks_nodes (preemption_enable k) = ks_nodes k"
  "ks_nodes (preemption_disable k) = ks_nodes k" "ks_nodes (set_receiver ch j p k) = ks_nodes k"
  "ks_current (upd_proc i f k) = ks_current k" "ks_current (put_reg i r v k) = ks_current k"
  "ks_current (put_state i w k) = ks_current k" "ks_current (preemption_enable k) = ks_current k"
  "ks_current (preemption_disable k) = ks_current k" "ks_current (set_receiver ch j p k) = ks_current k"
  "ks_hartid (upd_proc i f k) = ks_hartid k" "ks_hartid (put_reg i r v k) = ks_hartid k"
  "ks_hartid (put_state i w k) = ks_hartid k" "ks_hartid (preemption_enable k) = ks_hartid k"
  "ks_hartid (preemption_disable k) = ks_hartid k" "ks_hartid (set_receiver ch j p k) = ks_hartid k"
  "ks_procs (preemption_enable k) = ks_procs k" "ks_procs (preemption_disable k) = ks_procs k"
  "ks_receivers (upd_proc i f k) = ks_receivers k" "ks_receivers (put_reg i r v k) = ks_receivers k"
  "ks_receivers (put_state i w k) = ks_receivers k" "ks_receivers (preemption_enable k) = ks_receivers k"
  "ks_receivers (preemption_disable k) = ks_receivers k"
  by (simp_all add: upd_proc_def put_reg_def put_state_def preemption_enable_def
      preemption_disable_def set_receiver_def)

lemma clients_kept_frame [simp]:
  "clients_kept k (upd_proc i f k') \<longleftrightarrow> clients_kept k k'" "clients_kept (upd_proc i f k) k' \<longleftrightarrow> clients_kept k k'"
  "clients_kept k (put_reg i r v k') \<longleftrightarrow> clients_kept k k'" "clients_kept (put_reg i r v k) k' \<longleftrightarrow> clients_kept k k'"
  "clients_kept k (put_state i w k') \<longleftrightarrow> clients_kept k k'" "clients_kept (put_state i w k) k' \<longleftrightarrow> clients_kept k k'"
  "clients_kept k (preemption_enable k') \<longleftrightarrow> clients_kept k k'"
  "clients_kept (preemption_enable k) k' \<longleftrightarrow> clients_kept k k'"
  "clients_kept k (preemption_disable k') \<longleftrightarrow> clients_kept k k'"
  "clients_kept (preemption_disable k) k' \<longleftrightarrow> clients_kept k k'"
  by (simp_all add: clients_kept_def)

lemma clients_kept_set:
  "clients_kept k (set_receiver ch 1 (snd (compare_and_swap (ks_receivers k ch 1) None p)) k)"
  by (auto simp: clients_kept_def set_receiver_def compare_and_swap_def)

lemma state_of_put [simp]:
  "state_of (put_reg i r v k) j = state_of k j"
  "state_of (put_state i w k) j = (if j = i then w else state_of k j)"
  "state_of (preemption_enable k) j = state_of k j"
  by (simp_all add: state_of_def put_reg_def put_state_def upd_proc_def preemption_enable_def)

lemma owns_cong: "(\<And>ch. r' ch 0 = r ch 0) \<Longrightarrow> owns i c s r' \<longleftrightarrow> owns i c s r"
  by (simp add: owns_def)

lemma kinv_set_client:
  assumes "kinv k" "\<forall>c. p = Some c \<longrightarrow> c < N_PROC"
  shows "kinv (set_receiver ch 1 p k)"
proof -
  have "ks_receivers (set_receiver ch 1 p k) x 0 = ks_receivers k x 0" for x
    by (simp add: set_receiver_def)
  then have "owners_inv (ks_nodes k) (ks_schedule k) (ks_receivers (set_receiver ch 1 p k))"
    using kinvD(3) [OF assms(1)] owns_cong [of "ks_receivers (set_receiver ch 1 p k)" "ks_receivers k"]
    by (simp add: owners_inv_def)
  moreover have "\<forall>x i q. ks_receivers (set_receiver ch 1 p k) x i = Some q \<longrightarrow> q < N_PROC"
    using assms by (auto simp: set_receiver_def kinv_def tables_ok_def)
  ultimately show ?thesis
    using assms(1) by (simp add: kinv_def tables_ok_def) (simp add: set_receiver_def)
qed

lemma kinv_locks:
  "kinv k \<Longrightarrow> lock_free l1 \<Longrightarrow> lock_free l2 \<Longrightarrow>
    kinv (k\<lparr>ks_sched_lock := l1, ks_receivers_lock := l2\<rparr>)"
  by (simp add: kinv_def tables_ok_def)

lemma hook_spent: "spent_time c \<Longrightarrow> cap_update_hook p n c k = Inl Assert_failed"
  by (simp add: cap_update_hook_def spent_time_def sched_update_empty)

section \<open>Moving and deriving keep it\<close>

lemma raw_ok_upd: "raw_ok h \<Longrightarrow> (\<And>n. cn_cap (h' n) = (if n = d then c else cn_cap (h n))) \<Longrightarrow> cap_ok c \<Longrightarrow> raw_ok h'"
  by (simp add: raw_ok_def)

lemma all_authority_move:
  assumes "\<And>n c. cap_at h' n c \<longleftrightarrow> (if n = d then c = c0 else n \<noteq> s \<and> cap_at h n c)" "cap_at h s c0"
  shows "all_authority h' \<subseteq> all_authority h"
  using assms(2) unfolding all_authority_def assms(1) by (force split: if_splits)

lemma interprocess_move_keeps:
  assumes inv: "kinv k" and p: "s < N_PROC" "d < N_PROC"
  shows "keeps k (interprocess_move s sc d dc k)"
    and "interprocess_move s sc d dc k = Inr (v, k') \<Longrightarrow> ks_procs k' = ks_procs k"
proof -
  let ?sn = "Slot s (unat (sc mod of_nat N_CAPS))" and ?dn = "Slot d (unat (dc mod of_nat N_CAPS))"
  let ?h = "ks_nodes k"
  let ?c = "cn_cap (?h ?sn)"
  note n = cap_node_of_runs [OF inv p(1), of sc] cap_node_of_runs [OF inv p(2), of dc]
  have "keeps k (interprocess_move s sc d dc k) \<and>
    (\<forall>v k'. interprocess_move s sc d dc k = Inr (v, k') \<longrightarrow> ks_procs k' = ks_procs k)"
  proof (cases "node_live ?h ?sn \<and> \<not> node_live ?h ?dn")
    case False
    then have "\<exists>v. interprocess_move s sc d dc k = Inr (v, k)"
      by (cases "node_live ?h ?sn") (simp_all add: interprocess_move_def n node_live_deleted)
    then show ?thesis using inv by auto
  next
    case True
    then have live: "node_live ?h ?sn" "\<not> node_live ?h ?dn" by simp_all
    have at: "cap_at ?h ?sn ?c" using live by (simp add: cap_at_def)
    note ok = caps_invD(3) [OF kinvD(1) [OF inv] at]
    have m: "interprocess_move s sc d dc k =
      ebind (cap_update_hook (Some d) ?sn ?c k) (\<lambda>k. ebind (node_move ?c ?sn ?dn k) (\<lambda>(ok, k).
        Inr (if ok then err ERROR_OK else err ERROR_EMPTY, k)))"
      using live by (simp add: interprocess_move_def n node_live_deleted get_cap_live Let_def)
    show ?thesis
    proof (cases "spent_time ?c")
      case True
      then show ?thesis using not_calm(1) [of ?h ?sn] by (simp add: m hook_spent [OF True])
    next
      case False
      obtain s' l1 r' l2 where hk: "cap_update_hook (Some d) ?sn ?c k = Inr (with_tables k s' l1 r' l2)"
        "lock_free l1" "lock_free l2" "hook_effect d ?c (ks_schedule k) (ks_receivers k) s' r'"
        using hook_live [OF kinvD(4) [OF inv] p(2) ok False live(1)] by blast
      obtain h' where h': "cap_node_move ?c ?sn ?dn ?h = Inr (True, h')" "caps_inv h'"
        "\<And>n c. cap_at h' n c \<longleftrightarrow> (if n = ?dn then c = ?c else n \<noteq> ?sn \<and> cap_at ?h n c)"
        "\<And>n. cn_cap (h' n) = (if n = ?dn then ?c else cn_cap (?h n))"
        using caps_move [OF kinvD(1) [OF inv] live] p by auto
      let ?k = "(with_tables k s' l1 r' l2)\<lparr>ks_nodes := h'\<rparr>"
      have run: "interprocess_move s sc d dc k = Inr (err ERROR_OK, ?k)"
        by (simp add: m hk(1) node_move_def h'(1))
      have own: "owns i c s' r'" if "cap_at h' (Slot i j) c" for i j c
      proof (cases "Slot i j = ?dn")
        case True
        then show ?thesis using that owns_after_hook [OF ok hk(4)] by (auto simp: h'(3))
      next
        case False
        then have o: "cap_at ?h (Slot i j) c" "Slot i j \<noteq> ?sn" using that by (auto simp: h'(3))
        show ?thesis
          using kinvD(3) [OF inv] o(1) caps_invD(3) [OF kinvD(1) [OF inv] o(1)]
            caps_invD(5) [OF kinvD(1) [OF inv] at o(1)] o(2)
          by (intro owns_other [OF _ hk(4)]) (auto simp: owners_inv_def)
      qed
      have "kinv ?k"
        using inv h'(2) own hk p(2) raw_ok_upd [OF kinvD(2) [OF inv] h'(4) ok]
          hook_effect_valid [OF _ hk(4)] hook_effect_receivers [OF hk(4)]
        by (simp add: kinv_def owners_inv_def tables_ok_def)
      then show ?thesis
        using run all_authority_move [OF h'(3) at] clients_kept_hook [of d ?c _ k s' ?k] hk(4) by simp
    qed
  qed
  then show "keeps k (interprocess_move s sc d dc k)"
    and "interprocess_move s sc d dc k = Inr (v, k') \<Longrightarrow> ks_procs k' = ks_procs k"
    by blast+
qed

lemma move_cap_keeps:
  assumes inv: "kinv k" and c: "ks_current k = Some c"
  shows "keeps k (syscall_move_cap sc dc k)"
proof -
  have p: "c < N_PROC" by (rule kinvD(6) [OF inv c])
  let ?sn = "Slot c (unat (sc mod of_nat N_CAPS))" and ?dn = "Slot c (unat (dc mod of_nat N_CAPS))"
  let ?h = "ks_nodes k"
  let ?c = "cn_cap (?h ?sn)"
  note n = cap_node_of_runs [OF inv p]
  show ?thesis
  proof (cases "node_live ?h ?sn \<and> \<not> node_live ?h ?dn")
    case False
    then have "\<exists>v. syscall_move_cap sc dc k = Inr (v, k)"
      by (cases "node_live ?h ?sn")
        (simp_all add: syscall_move_cap_def assert_current_def c n node_live_deleted)
    then show ?thesis using inv by auto
  next
    case True
    then have live: "node_live ?h ?sn" "\<not> node_live ?h ?dn" by simp_all
    have at: "cap_at ?h ?sn ?c" using live by (simp add: cap_at_def)
    obtain h' where h': "cap_node_move ?c ?sn ?dn ?h = Inr (True, h')" "caps_inv h'"
      "\<And>n c. cap_at h' n c \<longleftrightarrow> (if n = ?dn then c = ?c else n \<noteq> ?sn \<and> cap_at ?h n c)"
      "\<And>n. cn_cap (h' n) = (if n = ?dn then ?c else cn_cap (?h n))"
      using caps_move [OF kinvD(1) [OF inv] live] p by auto
    have run: "syscall_move_cap sc dc k = Inr (Return (err ERROR_OK), k\<lparr>ks_nodes := h'\<rparr>)"
      using live by (simp add: syscall_move_cap_def assert_current_def c n node_live_deleted
          get_cap_live node_move_def h'(1) Let_def)
    have "owners_inv h' (ks_schedule k) (ks_receivers k)"
      using kinvD(3) [OF inv] at unfolding owners_inv_def h'(3) by (auto split: if_splits)
    then have "kinv (k\<lparr>ks_nodes := h'\<rparr>)"
      using inv h'(2) raw_ok_upd [OF kinvD(2) [OF inv] h'(4) caps_invD(3) [OF kinvD(1) [OF inv] at]]
      by (simp add: kinv_def tables_ok_def)
    then show ?thesis using run all_authority_move [OF h'(3) at] by simp
  qed
qed

lemma delete_cap_keeps:
  assumes inv: "kinv k" and c: "ks_current k = Some c"
  shows "keeps k (syscall_delete_cap sc k)"
proof -
  have p: "c < N_PROC" by (rule kinvD(6) [OF inv c])
  let ?sn = "Slot c (unat (sc mod of_nat N_CAPS))"
  let ?h = "ks_nodes k"
  let ?c = "cn_cap (?h ?sn)"
  note n = cap_node_of_runs [OF inv p]
  show ?thesis
  proof (cases "node_live ?h ?sn")
    case False
    then have "syscall_delete_cap sc k = Inr (Return (err ERROR_EMPTY), k)"
      by (simp add: syscall_delete_cap_def assert_current_def c n node_live_deleted)
    then show ?thesis using inv by simp
  next
    case True
    have at: "cap_at ?h ?sn ?c" using True by (simp add: cap_at_def)
    note ok = caps_invD(3) [OF kinvD(1) [OF inv] at]
    obtain h' where h': "cap_node_delete ?sn ?h = Inr (True, h')" "caps_inv h'"
      "\<And>n c. cap_at h' n c \<longleftrightarrow> n \<noteq> ?sn \<and> cap_at ?h n c" "\<And>n. cn_cap (h' n) = cn_cap (?h n)"
      "\<not> node_live h' ?sn"
      using caps_delete [OF kinvD(1) [OF inv] True] p by auto
    have run: "syscall_delete_cap sc k = ebind (cap_update_hook None ?sn ?c (k\<lparr>ks_nodes := h'\<rparr>))
        (\<lambda>k. Inr (Return (err ERROR_OK), k))"
      using True by (simp add: syscall_delete_cap_def assert_current_def c n node_live_deleted
          get_cap_live node_delete_def h'(1) Let_def)
    have "owners_inv h' (ks_schedule k) (ks_receivers k)"
      using kinvD(3) [OF inv] unfolding owners_inv_def h'(3) by blast
    then have kd: "kinv (k\<lparr>ks_nodes := h'\<rparr>)"
      using inv h'(2,4) by (simp add: kinv_def tables_ok_def raw_ok_def)
    show ?thesis
    proof (cases "spent_time ?c")
      case True
      then show ?thesis using not_calm(1) [of ?h ?sn] by (simp add: run hook_spent [OF True])
    next
      case False
      obtain l1 l2 where "cap_update_hook None ?sn ?c (k\<lparr>ks_nodes := h'\<rparr>) =
          Inr (k\<lparr>ks_nodes := h', ks_sched_lock := l1, ks_receivers_lock := l2\<rparr>)"
        "lock_free l1" "lock_free l2"
        using hook_dead [OF kinvD(4) [OF kd] ok False, of ?sn None] h'(5) by auto
      moreover have "all_authority h' \<subseteq> all_authority ?h"
        unfolding all_authority_def h'(3) by blast
      ultimately show ?thesis using run kinv_locks [OF kd] by simp
    qed
  qed
qed

lemma derive_not_spent: "cap_can_derive p c \<Longrightarrow> \<not> spent_time c"
proof
  assume d: "cap_can_derive p c" and s: "spent_time c"
  then have t: "cap_is_type c CAP_TYPE_TIME" by (simp add: spent_time_def)
  from d have "cap_is_type p CAP_TYPE_TIME"
    by (cases rule: cap_can_derive_cases) (use t in \<open>auto dest: cap_is_type_unique\<close>)
  from rtime.derive [OF this t d] s show False by (simp add: spent_time_def)
qed

lemma caps_inv_set_raw:
  assumes "caps_inv h" "\<not> node_live h n"
  shows "caps_inv (set_cap h n c)"
proof -
  have "cap_at (set_cap h n c) m x \<longleftrightarrow> cap_at h m x" for m x
    using assms(2) by (auto simp: cap_at_def node_live_def)
  moreover have "nodes_ok (set_cap h n c)"
    using caps_invD(1) [OF assms(1)] by (auto simp: nodes_ok_def intro: rep_set_cap)
  ultimately show ?thesis using assms(1) by (simp add: caps_inv_def)
qed

lemma node_live_set_cap [simp]: "node_live (set_cap h n c) x \<longleftrightarrow> node_live h x"
  by (simp add: node_live_def)

text \<open>The body of a derivation, after the checks and with preemption off.\<close>

definition derive_body :: "nat \<Rightarrow> node_ptr \<Rightarrow> node_ptr \<Rightarrow> cap_t \<Rightarrow> cap_t \<Rightarrow> handler" where
  "derive_body c sn dn src_cap new_cap k =
     ebind (derive_update_cap src_cap new_cap) (\<lambda>src_cap'.
     ebind (cap_update_hook (Some c) sn new_cap
              (k\<lparr>ks_nodes := set_cap (ks_nodes k) sn src_cap'\<rparr>)) (\<lambda>k.
     ebind (node_insert new_cap dn sn k) (\<lambda>(ok, k).
     Inr (Return (if ok then err ERROR_OK else err ERROR_EMPTY), k))))"

lemma derive_body_runs:
  assumes inv: "kinv k" and c: "c < N_PROC" and sn: "sn = Slot c i" "slot_in_range sn" "node_live (ks_nodes k) sn"
    and dn: "dn = Slot c j" "slot_in_range dn" "\<not> node_live (ks_nodes k) dn"
    and d: "cap_can_derive (cn_cap (ks_nodes k sn)) new"
  shows "\<exists>k' p'. derive_body c sn dn (cn_cap (ks_nodes k sn)) new k = Inr (Return (err ERROR_OK), k') \<and>
    keeps k (Inr ((), k')) \<and> derive_update_cap (cn_cap (ks_nodes k sn)) new = Inr p' \<and>
    (\<forall>n x. cap_at (ks_nodes k') n x \<longleftrightarrow>
       (if n = dn then x = new else if n = sn then x = p' else cap_at (ks_nodes k) n x)) \<and>
    ks_procs k' = ks_procs k \<and> hook_effect c new (ks_schedule k) (ks_receivers k) (ks_schedule k') (ks_receivers k') \<and>
    ks_mtimecmp k' = ks_mtimecmp k \<and>
    (\<forall>n. cn_cap (ks_nodes k' n) = (if n = dn then new else if n = sn then p' else cn_cap (ks_nodes k n)))"
proof -
  let ?h = "ks_nodes k"
  let ?p = "cn_cap (?h sn)"
  have at: "cap_at ?h sn ?p" using sn by (simp add: cap_at_def)
  note ic = kinvD(1) [OF inv]
  have nm: "\<not> cap_is_type ?p CAP_TYPE_MEMORY" by (rule caps_invD(4) [OF ic at])
  obtain p' where u: "derive_update_cap ?p new = Inr p'" using derive_update_total [OF d] by blast
  note ok = derive_ok [OF caps_invD(3) [OF ic at] d u]
  let ?k = "k\<lparr>ks_nodes := set_cap ?h sn p'\<rparr>"
  have t: "tables_ok ?k" using kinvD(4) [OF inv] by (simp add: tables_ok_def)
  obtain s' l1 r' l2 where hk: "cap_update_hook (Some c) sn new ?k = Inr (with_tables ?k s' l1 r' l2)"
    "lock_free l1" "lock_free l2" "hook_effect c new (ks_schedule k) (ks_receivers k) s' r'"
    using hook_live [OF t c conjunct1 [OF ok] derive_not_spent [OF d], of sn] sn(3) by auto
  obtain h' where h': "cap_node_insert new dn sn (set_cap ?h sn p') = Inr (True, h')" "caps_inv h'"
    "\<And>n x. cap_at h' n x \<longleftrightarrow> (if n = dn then x = new else if n = sn then x = p' else cap_at ?h n x)"
    "all_authority h' \<subseteq> all_authority ?h"
    using caps_derive [OF ic sn(3) dn(3) sn(2) dn(2) d u] by blast
  have h'_raw: "cn_cap (h' n) = (if n = dn then new else if n = sn then p' else cn_cap (?h n))" for n
  proof -
    obtain h2 where "cap_node_insert new dn sn (set_cap ?h sn p') = Inr (True, h2)"
      "\<And>x. cn_cap (h2 x) = (if x = dn then new else if x = sn then p' else cn_cap (?h x))"
      using cs.derive_effect [OF caps_invD(1) [OF ic] slot_in_range_slot [OF sn(2)]
          slot_in_range_slot [OF dn(2)] sn(3) dn(3), of new p'] by blast
    then show ?thesis using h'(1) by simp
  qed
  let ?k' = "(with_tables k s' l1 r' l2)\<lparr>ks_nodes := h'\<rparr>"
  have run: "derive_body c sn dn ?p new k = Inr (Return (err ERROR_OK), ?k')"
    by (simp add: derive_body_def u hk(1) node_insert_def h'(1))
  have new: "cap_at h' dn new" by (simp add: h'(3))
  have own: "owns m x s' r'" if "cap_at h' (Slot m j') x" for m j' x
  proof (cases "Slot m j' = dn")
    case True
    then show ?thesis using that owns_after_hook [OF _ hk(4)] ok dn(1) by (auto simp: h'(3))
  next
    case False
    have "owns m x (ks_schedule k) (ks_receivers k)"
    proof (cases "Slot m j' = sn")
      case True
      have "owns c ?p (ks_schedule k) (ks_receivers k)"
        using kinvD(3) [OF inv] at sn(1) by (auto simp: owners_inv_def)
      then show ?thesis
        using True False that owns_derive_update [OF _ d u nm] sn(1) by (auto simp: h'(3))
    next
      case ne: False
      then show ?thesis
        using False that kinvD(3) [OF inv] by (auto simp: h'(3) owners_inv_def)
    qed
    then show ?thesis
      using caps_invD(3) [OF h'(2) that] caps_invD(5) [OF h'(2) new that] False
      by (intro owns_other [OF _ hk(4)]) auto
  qed
  have "raw_ok h'" using kinvD(2) [OF inv] ok by (simp add: raw_ok_def h'_raw)
  then have "kinv ?k'"
    using inv h'(2) own hk(2,3) c hook_effect_valid [OF _ hk(4)] hook_effect_receivers [OF hk(4)]
    by (simp add: kinv_def owners_inv_def tables_ok_def)
  then show ?thesis
    using run u h'(3,4) hk(4) clients_kept_hook [of c new _ k s' ?k']
    by (intro exI [of _ ?k'] exI [of _ p']) (simp add: h'_raw)
qed

lemma derive_cap_keeps:
  assumes inv: "kinv k" and c: "ks_current k = Some c"
  shows "keeps k (syscall_derive_cap irq sc dc w0 w1 k)"
proof -
  have p: "c < N_PROC" by (rule kinvD(6) [OF inv c])
  let ?sn = "Slot c (unat (sc mod of_nat N_CAPS))" and ?dn = "Slot c (unat (dc mod of_nat N_CAPS))"
  let ?h = "ks_nodes k" and ?new = "\<lparr>word0 = w0, word1 = w1\<rparr>"
  let ?k = "preemption_enable (put_reg c A0 (err ERROR_PREEMPTED) k)"
  have k: "kinv ?k" using inv by simp
  note n = cap_node_of_runs inv p
  show ?thesis
  proof (cases "irq \<or> \<not> node_live ?h ?sn \<or> node_live ?h ?dn \<or> \<not> cap_can_derive (cn_cap (?h ?sn)) ?new")
    case True
    then have "\<exists>x k'. syscall_derive_cap irq sc dc w0 w1 k = Inr (x, k') \<and> (k' = ?k \<or> k' = preemption_disable ?k)"
      by (auto simp: syscall_derive_cap_def assert_current_def c n node_live_deleted get_cap_live Let_def)
    then show ?thesis using inv by auto
  next
    case False
    then have live: "node_live ?h ?sn" "\<not> node_live ?h ?dn" "cap_can_derive (cn_cap (?h ?sn)) ?new" "\<not> irq"
      by simp_all
    have "syscall_derive_cap irq sc dc w0 w1 k =
      derive_body c ?sn ?dn (cn_cap (?h ?sn)) ?new (preemption_disable ?k)"
      using live by (simp add: syscall_derive_cap_def derive_body_def assert_current_def c n
          node_live_deleted get_cap_live Let_def)
    moreover have "kinv (preemption_disable ?k)" using inv by simp
    from derive_body_runs [OF this p refl _ _ refl, of "unat (sc mod of_nat N_CAPS)"
        "unat (dc mod of_nat N_CAPS)" ?new] live p
    obtain k' where "derive_body c ?sn ?dn (cn_cap (?h ?sn)) ?new (preemption_disable ?k) =
      Inr (Return (err ERROR_OK), k')" "keeps (preemption_disable ?k) (Inr ((), k'))"
      by auto
    ultimately show ?thesis by simp
  qed
qed

lemma revoke_cap_keeps:
  assumes inv: "kinv k" and c: "ks_current k = Some c"
  shows "keeps k (syscall_revoke_cap irq sc k)"
proof -
  have p: "c < N_PROC" by (rule kinvD(6) [OF inv c])
  let ?sn = "Slot c (unat (sc mod of_nat N_CAPS))"
  let ?h = "ks_nodes k"
  let ?c = "cn_cap (?h ?sn)"
  let ?k = "preemption_enable (put_reg c A0 (err ERROR_PREEMPTED) k)"
  have k: "kinv ?k" "kinv (preemption_disable ?k)" using inv by simp_all
  note n = cap_node_of_runs inv p
  show ?thesis
  proof (cases "irq 0 \<or> irq 1 \<or> node_live ?h ?sn")
    case True
    then have "\<exists>x k'. syscall_revoke_cap irq sc k = Inr (x, k') \<and> (k' = ?k \<or> k' = preemption_disable ?k)"
      by (auto simp: syscall_revoke_cap_def assert_current_def c n node_live_deleted Let_def
          revoke_loop.simps)
    then show ?thesis using inv by auto
  next
    case False
    have ok: "cap_ok ?c" using kinvD(2) [OF inv] by (simp add: raw_ok_def)
    have run: "syscall_revoke_cap irq sc k = ebind (revoke_update_cap ?c) (\<lambda>cap'.
        ebind (cap_update_hook (Some c) ?sn ?c
          ((preemption_disable ?k)\<lparr>ks_nodes := set_cap ?h ?sn cap'\<rparr>)) (\<lambda>k.
        Inr (Return (err ERROR_OK), k)))"
      using False by (simp add: syscall_revoke_cap_def assert_current_def c n node_live_deleted Let_def
          revoke_loop.simps)
    show ?thesis
    proof (cases "cap_is_type ?c CAP_TYPE_CHANNELS \<or> spent_time ?c")
      case True
      then have "\<not> calm ?h"
        using not_calm [of ?h ?sn] False by auto
      moreover have "syscall_revoke_cap irq sc k = Inl Assert_failed"
      proof (cases "cap_is_type ?c CAP_TYPE_CHANNELS")
        case True
        then have "revoke_update_cap ?c = Inl Assert_failed" by (simp add: revoke_update_stops)
        then show ?thesis unfolding run by simp
      next
        case nc: False
        then have "spent_time ?c" using True by simp
        moreover obtain c' where "revoke_update_cap ?c = Inr c'"
          using revoke_update_stops [of ?c] nc by (cases "revoke_update_cap ?c") auto
        ultimately show ?thesis unfolding run by (simp add: hook_spent)
      qed
      ultimately show ?thesis by simp
    next
      case ns: False
      then obtain c' where u: "revoke_update_cap ?c = Inr c'"
        using revoke_update_stops [of ?c] by (cases "revoke_update_cap ?c") auto
      let ?k2 = "(preemption_disable ?k)\<lparr>ks_nodes := set_cap ?h ?sn c'\<rparr>"
      have at: "cap_at (set_cap ?h ?sn c') m x \<longleftrightarrow> cap_at ?h m x" for m x
        using False by (auto simp: cap_at_def)
      have "raw_ok (set_cap ?h ?sn c')"
        using kinvD(2) [OF inv] revoke_update_ok [OF ok u] by (simp add: raw_ok_def)
      moreover have "owners_inv (set_cap ?h ?sn c') (ks_schedule ?k2) (ks_receivers ?k2)"
        using kinvD(3) [OF k(2)] unfolding owners_inv_def at by simp
      ultimately have k2: "kinv ?k2"
        using k(2) caps_inv_set_raw [OF kinvD(1) [OF inv], of ?sn c'] False
        by (simp add: kinv_def tables_ok_def)
      obtain l1 l2 where "cap_update_hook (Some c) ?sn ?c ?k2 =
          Inr (?k2\<lparr>ks_sched_lock := l1, ks_receivers_lock := l2\<rparr>)" "lock_free l1" "lock_free l2"
        using hook_dead [OF kinvD(4) [OF k2] ok, of ?sn "Some c"] ns False p by auto
      moreover have "all_authority (set_cap ?h ?sn c') = all_authority ?h"
        unfolding all_authority_def at ..
      ultimately show ?thesis using run u kinv_locks [OF k2] by simp
    qed
  qed
qed

end
