(* ===== verification/Handlers.thy ===== *)
theory Handlers
  imports Separation
begin

text \<open>
  Every system call keeps the separation invariant: the handlers that invoke a capability,
  message delivery, and the calls that only read or write the registers of the caller.
\<close>

section \<open>Composing steps\<close>

lemma keeps_shift:
  "keeps k1 r \<Longrightarrow> ks_nodes k1 = ks_nodes k \<Longrightarrow> ks_current k1 = ks_current k \<Longrightarrow>
    ks_hartid k1 = ks_hartid k \<Longrightarrow> ks_receivers k1 = ks_receivers k \<Longrightarrow> keeps k r"
  by (cases r) (auto simp: clients_kept_def)

lemma keeps_bind:
  assumes "keeps k m"
    and "\<And>x k1. m = Inr (x, k1) \<Longrightarrow> kinv k1 \<Longrightarrow> \<exists>y k2. f (x, k1) = Inr (y, k2) \<and> keeps k1 (Inr (y, k2))"
  shows "keeps k (ebind m f)"
proof (cases m)
  case (Inl e)
  then show ?thesis using assms(1) by simp
next
  case (Inr r)
  obtain x k1 where r: "r = (x, k1)" by (cases r)
  then obtain y k2 where "f (x, k1) = Inr (y, k2)" "keeps k1 (Inr (y, k2))"
    using assms Inr by auto
  then show ?thesis using assms(1) Inr r clients_kept_trans [of k k1 k2] by auto
qed

lemma keeps_if: "(b \<Longrightarrow> keeps k x) \<Longrightarrow> (\<not> b \<Longrightarrow> keeps k y) \<Longrightarrow> keeps k (if b then x else y)"
  by simp

lemma keeps_procs:
  "kinv k' \<Longrightarrow> ks_nodes k' = ks_nodes k \<Longrightarrow> ks_current k' = ks_current k \<Longrightarrow>
    ks_hartid k' = ks_hartid k \<Longrightarrow> ks_receivers k' = ks_receivers k \<Longrightarrow> keeps k (Inr (x, k'))"
  by simp

lemma with_state_frame [simp]:
  "kinv (snd (with_state i f k)) \<longleftrightarrow> kinv k" "ks_nodes (snd (with_state i f k)) = ks_nodes k"
  "ks_receivers (snd (with_state i f k)) = ks_receivers k"
  "ks_current (snd (with_state i f k)) = ks_current k" "ks_hartid (snd (with_state i f k)) = ks_hartid k"
  by (simp_all add: with_state_def split: prod.split)

lemma clients_kept_with_state [simp]:
  "clients_kept k (snd (with_state i f k')) \<longleftrightarrow> clients_kept k k'"
  by (rule clients_kept_shift) simp

lemma with_stateE:
  assumes "with_state i f k = (ok, k1)"
  shows "kinv k1 \<longleftrightarrow> kinv k" "ks_nodes k1 = ks_nodes k" "ks_current k1 = ks_current k"
    "ks_hartid k1 = ks_hartid k" "ks_receivers k1 = ks_receivers k" "f (state_of k i) = (ok, state_of k1 i)"
    "j \<noteq> i \<Longrightarrow> state_of k1 j = state_of k j"
  using assms by (auto simp: with_state_def split: prod.splits)

text \<open>A supervisor operation is bracketed by acquire and release, whose assertion holds.\<close>

lemma with_supervisee_keeps:
  assumes inv: "kinv k"
    and body: "\<And>k1. kinv k1 \<Longrightarrow> ks_current k1 = ks_current k \<Longrightarrow> keeps k1 (body k1)"
    and st: "\<And>k1 v k2. kinv k1 \<Longrightarrow> body k1 = Inr (v, k2) \<Longrightarrow> state_of k2 i = state_of k1 i"
  shows "keeps k (with_supervisee i body k)"
proof -
  obtain ok k1 where w: "with_state i proc_supervisor_acquire k = (ok, k1)"
    by (cases "with_state i proc_supervisor_acquire k")
  note e = with_stateE [OF w]
  show ?thesis
  proof (cases ok)
    case False
    then show ?thesis using inv e by (simp add: with_supervisee_def w)
  next
    case True
    have s: "state_of k1 i = 6"
      using e(6) True by (auto simp: proc_supervisor_acquire_def split: if_splits)
    have "keeps k1 (ebind (body k1) (\<lambda>(code, k).
        ebind (proc_supervisor_release (state_of k i)) (\<lambda>w. Inr (Return code, put_state i w k))))"
    proof (rule keeps_bind)
      show "keeps k1 (body k1)" using body e inv by simp
      fix x k2
      assume b: "body k1 = Inr (x, k2)" and k2: "kinv k2"
      have "state_of k2 i = 6" using st [OF _ b] e(1) inv s by simp
      then show "\<exists>y k3. (case (x, k2) of (code, k) \<Rightarrow> ebind (proc_supervisor_release (state_of k i))
          (\<lambda>w. Inr (Return code, put_state i w k))) = Inr (y, k3) \<and> keeps k2 (Inr (y, k3))"
        using k2 by (simp add: proc_supervisor_release_def)
    qed
    then show ?thesis
      using True e by (simp add: with_supervisee_def w keeps_shift)
  qed
qed

lemma move_state: "kinv k \<Longrightarrow> s < N_PROC \<Longrightarrow> d < N_PROC \<Longrightarrow>
    interprocess_move s sc d dc k = Inr (v, k') \<Longrightarrow> state_of k' j = state_of k j"
  using interprocess_move_keeps(2) by (simp add: state_of_def)

lemma write_register_kinv [simp]:
  "kinv (upd_proc i (\<lambda>p. snd (proc_write_register p r v)) k) \<longleftrightarrow> kinv k"
  by (simp add: kinv_upd_proc register_write_other)

lemma write_register_state [simp]:
  "state_of (upd_proc i (\<lambda>p. snd (proc_write_register p r v)) k) j = state_of k j"
  by (simp add: state_of_def upd_proc_def register_write_other)

lemma supervisor_keeps:
  assumes inv: "kinv k" and c: "ks_current k = Some c" and cap: "cap_is_type cap CAP_TYPE_SUPERVISOR" "cap_ok cap"
  shows "keeps k (syscall_invoke_supervisor c cap pid op a0 a1 k)"
proof (cases "cap_supervisor_get_free cap > pid \<or> pid \<ge> cap_supervisor_get_end cap")
  case True
  then show ?thesis using inv cap by (simp add: syscall_invoke_supervisor_def)
next
  case False
  have p: "c < N_PROC" by (rule kinvD(6) [OF inv c])
  have "unat pid < unat (cap_supervisor_get_end cap)" using False by (simp add: word_le_nat_alt)
  then have i: "unat pid < N_PROC" using cap by (simp add: cap_ok_simps)
  have give: "keeps k (with_supervisee (unat pid) (interprocess_move c a0 (unat pid) a1) k)"
    using interprocess_move_keeps(1) p i move_state by (intro with_supervisee_keeps [OF inv]) blast+
  have take: "keeps k (with_supervisee (unat pid) (interprocess_move (unat pid) a0 c a1) k)"
    using interprocess_move_keeps(1) p i move_state by (intro with_supervisee_keeps [OF inv]) blast+
  have rreg: "keeps k (with_supervisee (unat pid) (\<lambda>k. Inr (err ERROR_OK,
      put_reg c A1 (proc_read_register (ks_procs k (unat pid)) a0) k)) k)"
    by (rule with_supervisee_keeps [OF inv]) auto
  have wreg: "keeps k (with_supervisee (unat pid) (\<lambda>k. Inr (err ERROR_OK,
      upd_proc (unat pid) (\<lambda>p. snd (proc_write_register p a0 a1)) k)) k)"
    by (rule with_supervisee_keeps [OF inv]) auto
  have rcap: "keeps k (with_supervisee (unat pid) (\<lambda>k. ebind (cap_node_of k (unat pid) a0) (\<lambda>node.
      let cap = cap_node_get_cap (ks_nodes k) node
      in Inr (err ERROR_OK, put_reg c A2 (word1 cap) (put_reg c A1 (word0 cap) k)))) k)"
    by (rule with_supervisee_keeps [OF inv]) (auto simp: cap_node_of_runs [OF _ i] Let_def)
  obtain ok1 k1 where s1: "with_state (unat pid) proc_supervisor_suspend k = (ok1, k1)" by fastforce
  obtain ok2 k2 where s2: "with_state (unat pid) proc_supervisor_resume k = (ok2, k2)" by fastforce
  show ?thesis
    using False i cap(1) inv give take rreg wreg rcap with_stateE(1-5) [OF s1] with_stateE(1-5) [OF s2]
    unfolding syscall_invoke_supervisor_def
    by (simp add: s1 s2 Let_def del: sup_num.simps err.simps)
qed

lemma deliver_runs:
  assumes inv: "kinv k" and p: "c < N_PROC" "r < N_PROC"
  shows "(deliver c r m0 m1 m2 m3 src k = Inl Assert_failed \<and> \<not> calm (ks_nodes k)) \<or>
    (\<exists>k'. deliver c r m0 m1 m2 m3 src k = Inr k' \<and> keeps k (Inr ((), k')) \<and>
       (\<forall>j. state_of k' j = state_of k j))"
proof (cases "unat src < N_CAPS \<and> unat (p_regs (ks_procs k r) DEST_CIDX) < N_CAPS")
  case False
  then show ?thesis using inv by (auto simp: deliver_def Let_def)
next
  case True
  let ?m = "interprocess_move c src r (p_regs (ks_procs k r) DEST_CIDX) k"
  note kp = interprocess_move_keeps(1) [OF inv p, of src "p_regs (ks_procs k r) DEST_CIDX"]
  show ?thesis
  proof (cases ?m)
    case (Inl e)
    then show ?thesis using True kp by (simp add: deliver_def Let_def)
  next
    case (Inr x)
    obtain v k1 where x: "x = (v, k1)" by (cases x)
    then show ?thesis
      using True kp Inr move_state [OF inv p, of src _ v k1] by (auto simp: deliver_def Let_def)
  qed
qed

lemma tables_receiver: "kinv k \<Longrightarrow> ks_receivers k ch i = Some r \<Longrightarrow> r < N_PROC"
  by (auto simp: kinv_def tables_ok_def)

lemma sender_keeps:
  assumes inv: "kinv k" and c: "ks_current k = Some c" and cap: "cap_is_type cap CAP_TYPE_SENDER" "cap_ok cap"
  shows "keeps k (syscall_invoke_sender c cap m0 m1 m2 m3 src k)"
proof -
  have p: "c < N_PROC" by (rule kinvD(6) [OF inv c])
  let ?ch = "cap_sender_get_channel cap"
  have ch: "unat ?ch < N_CHANNELS" using cap by (simp add: cap_ok_simps)
  show ?thesis
  proof (cases "ks_receivers k (unat ?ch) 0")
    case None
    then show ?thesis using inv cap ch by (simp add: syscall_invoke_sender_def receiver_at_def Let_def)
  next
    case (Some r)
    obtain ok k1 where w: "with_state r (\<lambda>w. proc_sender_acquire w ?ch) k = (ok, k1)" by fastforce
    note e = with_stateE(1-5) [OF w]
    have r: "r < N_PROC" using tables_receiver [OF inv Some] .
    have k1: "kinv k1" using e inv by simp
    show ?thesis
      using deliver_runs [OF k1 p r, of m0 m1 m2 m3 src] e clients_kept_shift(1) [OF e(5)] k1 ch cap Some
      by (auto simp: syscall_invoke_sender_def receiver_at_def Let_def w)
  qed
qed

lemma server_keeps:
  assumes inv: "kinv k" and c: "ks_current k = Some c" and cap: "cap_is_type cap CAP_TYPE_SERVER" "cap_ok cap"
  shows "keeps k (syscall_invoke_server c cap m0 m1 m2 m3 src f k)"
proof -
  have p: "c < N_PROC" by (rule kinvD(6) [OF inv c])
  let ?ch = "cap_server_get_channel cap"
  have ch: "unat ?ch < N_CHANNELS" using cap by (simp add: cap_ok_simps)
  show ?thesis
  proof (cases "ks_receivers k (unat ?ch) 1")
    case None
    then show ?thesis
      using inv cap ch by (simp add: syscall_invoke_server_def receiver_at_def Let_def wait_and_yield_def)
  next
    case (Some r)
    obtain ok k1 where w: "with_state r (\<lambda>w. proc_sender_acquire w ?ch) k = (ok, k1)" by fastforce
    note e = with_stateE(1-5) [OF w]
    have r: "r < N_PROC" using tables_receiver [OF inv Some] .
    have k1: "kinv k1" using e inv by simp
    show ?thesis
      using deliver_runs [OF k1 p r, of m0 m1 m2 m3 src] e clients_kept_shift(1) [OF e(5)] k1 ch cap Some
      by (auto simp: syscall_invoke_server_def receiver_at_def Let_def w wait_and_yield_def)
  qed
qed

lemma client_keeps:
  assumes inv: "kinv k" and c: "ks_current k = Some c" and cap: "cap_is_type cap CAP_TYPE_CLIENT" "cap_ok cap"
  shows "keeps k (syscall_invoke_client c cap m0 m1 m2 m3 src k)"
proof -
  have p: "c < N_PROC" by (rule kinvD(6) [OF inv c])
  let ?ch = "cap_client_get_channel cap"
  have ch: "unat ?ch < N_CHANNELS" using cap by (simp add: cap_ok_simps)
  show ?thesis
  proof (cases "ks_receivers k (unat ?ch) 0")
    case None
    then show ?thesis using inv cap ch by (simp add: syscall_invoke_client_def receiver_at_def Let_def)
  next
    case (Some r)
    obtain ok k1 where w: "with_state r (\<lambda>w. proc_sender_acquire w ?ch) k = (ok, k1)" by fastforce
    note e = with_stateE(1-5) [OF w]
    have r: "r < N_PROC" using tables_receiver [OF inv Some] .
    have k1: "kinv k1" using e inv by simp
    have set_client: "kinv (set_receiver (unat ?ch) 1
        (snd (compare_and_swap (ks_receivers k2 (unat ?ch) 1) None (Some c))) k2)" if "kinv k2" for k2
      using that p tables_receiver [OF that]
      by (intro kinv_set_client) (auto simp: compare_and_swap_def split: if_splits)
    have run: "syscall_invoke_client c cap m0 m1 m2 m3 src k =
      (if \<not> ok then Inr (Return (err ERROR_NO_RECEIVER), k1)
       else ebind (deliver c r m0 m1 m2 m3 src k1) (\<lambda>k.
         let k = set_receiver (unat ?ch) 1
                   (snd (compare_and_swap (ks_receivers k (unat ?ch) 1) None (Some c))) k;
             k = snd (with_state c (\<lambda>w. proc_receiver_wait w ?ch) k);
             k = put_reg c A0 (err ERROR_INTERRUPTED) k
         in Inr (Yield, put_state r (proc_sender_release (state_of k r)) k)))"
      using cap ch Some by (simp add: syscall_invoke_client_def receiver_at_def w Let_def del: err.simps)
    show ?thesis
    proof (cases "\<exists>k2. deliver c r m0 m1 m2 m3 src k1 = Inr k2 \<and> keeps k1 (Inr ((), k2))")
      case True
      then obtain k2 where "deliver c r m0 m1 m2 m3 src k1 = Inr k2" "keeps k1 (Inr ((), k2))" by blast
      moreover from this have "clients_kept k (set_receiver (unat ?ch) 1
          (snd (compare_and_swap (ks_receivers k2 (unat ?ch) 1) None (Some c))) k2)"
        using clients_kept_trans [OF _ clients_kept_set] clients_kept_shift(1) [OF e(5)] by simp
      ultimately show ?thesis unfolding run using e k1 set_client [of k2] by (simp add: Let_def)
    next
      case False
      then show ?thesis
        unfolding run using deliver_runs [OF k1 p r, of m0 m1 m2 m3 src] e k1 by auto
    qed
  qed
qed

lemma receiver_keeps:
  "kinv k \<Longrightarrow> cap_is_type cap CAP_TYPE_RECEIVER \<Longrightarrow>
    keeps k (syscall_invoke_receiver c cap m0 m1 m2 m3 k)"
  by (simp add: syscall_invoke_receiver_def wait_and_yield_def)

lemma invoke_cap_keeps:
  assumes inv: "kinv k" and c: "ks_current k = Some c"
  shows "keeps k (syscall_invoke_cap cidx a1 a2 a3 a4 a5 a6 a7 k)"
proof -
  have p: "c < N_PROC" by (rule kinvD(6) [OF inv c])
  let ?n = "Slot c (unat (cidx mod of_nat N_CAPS))"
  let ?cap = "cap_node_get_cap (ks_nodes k) ?n"
  have ok: "cap_ok ?cap"
    using kinvD(2) [OF inv] by (auto simp: cap_node_get_cap_def raw_ok_def Let_def)
  define cap where "cap = ?cap"
  have run: "syscall_invoke_cap cidx a1 a2 a3 a4 a5 a6 a7 k =
    (if cap_is_type cap CAP_TYPE_EMPTY then Inr (Return (err ERROR_EMPTY), k)
     else if cap_is_type cap CAP_TYPE_SUPERVISOR then syscall_invoke_supervisor c cap a1 a2 a3 a4 k
     else if cap_is_type cap CAP_TYPE_RECEIVER then syscall_invoke_receiver c cap a1 a2 a3 a4 k
     else if cap_is_type cap CAP_TYPE_SENDER then syscall_invoke_sender c cap a1 a2 a3 a4 a5 k
     else if cap_is_type cap CAP_TYPE_SERVER then syscall_invoke_server c cap a1 a2 a3 a4 a5 a6 k
     else if cap_is_type cap CAP_TYPE_CLIENT then syscall_invoke_client c cap a1 a2 a3 a4 a5 k
     else Inr (Return (err ERROR_UNIMPLEMENTED), k))"
    by (simp only: syscall_invoke_cap_def deref_current_def c option.case ebind_simps
        cap_node_of_runs [OF inv p] Let_def cap_def)
  have cok: "cap_ok cap" using ok by (simp add: cap_def)
  have "keeps k (Inr (x, k))" for x :: outcome using inv by simp
  then show ?thesis
    unfolding run
    by (intro keeps_if; blast intro: supervisor_keeps [OF inv c _ cok] sender_keeps [OF inv c _ cok]
        server_keeps [OF inv c _ cok] client_keeps [OF inv c _ cok] receiver_keeps [OF inv])
qed

section \<open>The remaining system calls\<close>

lemma read_cap_keeps: "kinv k \<Longrightarrow> ks_current k = Some c \<Longrightarrow> keeps k (syscall_read_cap cidx k)"
  by (simp add: syscall_read_cap_def assert_current_def cap_node_of_runs kinvD(6) Let_def)

lemma register_keeps:
  "kinv k \<Longrightarrow> ks_current k = Some c \<Longrightarrow> keeps k (syscall_read_reg r k)"
  "kinv k \<Longrightarrow> ks_current k = Some c \<Longrightarrow> keeps k (syscall_write_reg r v k)"
  "kinv k \<Longrightarrow> ks_current k = Some c \<Longrightarrow> keeps k (syscall_get_pid k)"
  "kinv k \<Longrightarrow> ks_current k = Some c \<Longrightarrow> keeps k (syscall_yield k)"
  "kinv k \<Longrightarrow> keeps k (syscall_unimplemented k)"
  by (simp_all add: syscall_read_reg_def syscall_write_reg_def syscall_get_pid_def syscall_yield_def
      syscall_unimplemented_def deref_current_def)

lemmas handler_keeps = read_cap_keeps register_keeps invoke_cap_keeps move_cap_keeps delete_cap_keeps
  revoke_cap_keeps derive_cap_keeps

end
