(* ===== verification/Trap.thy ===== *)
theory Trap
  imports Handlers
begin

text \<open>
  Entering and leaving the kernel: the trap handler of \<open>trap.S\<close> with its system call table,
  the exception handler of \<open>exception.c\<close>, the dispatch of the next process, and the boot of
  \<open>init.S\<close>. \<open>kstep\<close> is one trap of some hart, from entry to the return to user mode; the
  harts enter one at a time. Every state reachable from boot satisfies the separation
  invariant.
\<close>

section \<open>exception.c\<close>

definition MRET :: u64 where "MRET = 0x0320000073"

definition ILLEGAL_INSTRUCTION :: u64 where "ILLEGAL_INSTRUCTION = 2"

definition exception_handler :: "u64 \<Rightarrow> u64 \<Rightarrow> u64 \<Rightarrow> proc \<Rightarrow> proc" where
  "exception_handler mcause mtval mepc p =
     (let r = p_regs p
      in if mcause = ILLEGAL_INSTRUCTION \<and> mtval = MRET
         then p\<lparr>p_regs := r(SP := r PSP, PC := r PPC, A0 := r PA0, A1 := r PA1)\<rparr>
         else p\<lparr>p_regs := r(PPC := mepc, PSP := r SP, PA0 := r A0, PA1 := r A1,
                PC := r TPC, SP := r TSP, A0 := mcause, A1 := mtval)\<rparr>)"

section \<open>trap.S\<close>

text \<open>The registers \<open>save_context\<close> stores, with \<open>mepc\<close> as \<open>pc\<close> and the user's \<open>tp\<close>.\<close>

definition saved_regs :: "reg set" where
  "saved_regs = set (take 32 reg_order)"

definition save_context :: "regs \<Rightarrow> proc \<Rightarrow> proc" where
  "save_context hw p = p\<lparr>p_regs := (\<lambda>r. if r \<in> saved_regs then hw r else p_regs p r)\<rparr>"

text \<open>\<open>syscall_vector\<close>, indexed by the number in \<open>t0\<close>; the arguments are in \<open>a0\<close> .. \<open>a7\<close>.\<close>

definition syscall_vector :: "(nat \<Rightarrow> bool) \<Rightarrow> nat \<Rightarrow> regs \<Rightarrow> handler" where
  "syscall_vector irq n r =
     (if n = call_num ECALL_READ_CAP then syscall_read_cap (r A0)
      else if n = call_num ECALL_MOVE_CAP then syscall_move_cap (r A0) (r A1)
      else if n = call_num ECALL_DELETE_CAP then syscall_delete_cap (r A0)
      else if n = call_num ECALL_REVOKE_CAP then syscall_revoke_cap irq (r A0)
      else if n = call_num ECALL_DERIVE_CAP then syscall_derive_cap (irq 0) (r A0) (r A1) (r A2) (r A3)
      else if n = call_num ECALL_INVOKE_CAP
        then syscall_invoke_cap (r A0) (r A1) (r A2) (r A3) (r A4) (r A5) (r A6) (r A7)
      else if n = call_num ECALL_GET_PID then syscall_get_pid
      else if n = call_num ECALL_READ_REG then syscall_read_reg (r A0)
      else if n = call_num ECALL_WRITE_REG then syscall_write_reg (r A0) (r A1)
      else if n = call_num ECALL_YIELD then syscall_yield
      else syscall_unimplemented)"

text \<open>
  The result says whether the trap resumes the current process (\<open>trap_resume_proc\<close>) or
  ends in \<open>sched_yield\<close>.
\<close>

definition trap_syscall :: "(nat \<Rightarrow> bool) \<Rightarrow> kstate \<Rightarrow> stop + bool \<times> kstate" where
  "trap_syscall irq k =
     ebind (deref_current k) (\<lambda>c.
     let k = put_reg c PC (p_regs (ks_procs k c) PC + 4) k;
         r = p_regs (ks_procs k c);
         n = unat (r T0)
     in ebind (if n \<ge> NUM_OF_SYSNR then syscall_unimplemented k else syscall_vector irq n r k)
          (\<lambda>(out, k). case out of Return v \<Rightarrow> Inr (True, put_reg c A0 v k) | Yield \<Rightarrow> Inr (False, k)))"

definition MCAUSE_U_ECALL :: u64 where "MCAUSE_U_ECALL = 8"

definition trap_entry :: "regs \<Rightarrow> u64 \<Rightarrow> u64 \<Rightarrow> (nat \<Rightarrow> bool) \<Rightarrow> kstate \<Rightarrow> stop + bool \<times> kstate" where
  "trap_entry hw mcause mtval irq k =
     ebind (deref_current k) (\<lambda>c.
     let k = upd_proc c (save_context hw) k
     in if bit mcause 63 then Inr (False, k)
        else if mcause = MCAUSE_U_ECALL then trap_syscall irq k
        else Inr (True, upd_proc c (exception_handler mcause mtval (hw PC)) k))"

section \<open>Dispatching\<close>

definition sched_dispatch :: "(nat \<Rightarrow> u64) \<Rightarrow> kstate \<Rightarrow> stop + kstate" where
  "sched_dispatch clock k =
     ebind (run_loop (sched_start clock 0 (ks_schedule k) (ks_hartid k) (ks_procs k))) (\<lambda>(d, procs).
     Inr (k\<lparr>ks_procs := procs, ks_current := Some (d_proc d),
            ks_mtimecmp := (ks_mtimecmp k)(unat (ks_hartid k) := d_end d)\<rparr>))"

definition sched_yield :: "(nat \<Rightarrow> u64) \<Rightarrow> kstate \<Rightarrow> stop + kstate" where
  "sched_yield clock k =
     ebind (deref_current k) (\<lambda>c.
     sched_dispatch clock (put_state c (proc_release (state_of k c)) k))"

section \<open>Boot\<close>

definition bss :: "u64 \<Rightarrow> kstate" where
  "bss hartid = \<lparr>ks_nodes = (\<lambda>_. boot_node), ks_procs = (\<lambda>_. boot_proc), ks_schedule = (\<lambda>_ _. 0),
     ks_sched_lock = INIT_LOCK, ks_receivers = (\<lambda>_ _. None), ks_receivers_lock = INIT_LOCK,
     ks_current = None, ks_hartid = hartid, ks_mtimecmp = (\<lambda>_. 0), ks_preempt = False\<rparr>"

text \<open>
  \<open>initialize_kernel\<close>: the zeroed memory, then \<open>proc_init\<close> and \<open>sched_init\<close>. The call of
  \<open>print_info\<close> that follows in a debug build writes to the UART and to nothing of the
  kernel state; the theory \<open>Console\<close> models it, and \<open>Start\<close> has the call.
\<close>

definition initialize_kernel :: "u64 \<Rightarrow> u64 \<Rightarrow> stop + kstate" where
  "initialize_kernel root_payload hartid =
     (let k = bss hartid
      in ebind (proc_init root_payload (ks_procs k) (ks_nodes k)) (\<lambda>(procs, h).
         Inr (k\<lparr>ks_procs := procs, ks_nodes := h, ks_schedule := sched_init (ks_schedule k)\<rparr>)))"

section \<open>Steps of the whole system\<close>

text \<open>
  \<open>enter\<close> makes another hart, with the process it runs, the one whose trap comes next; the
  other rules are its trap.
\<close>

inductive kstep :: "kstate \<Rightarrow> kstate \<Rightarrow> bool" where
  enter: "hart_ok h \<Longrightarrow> \<forall>c. cur = Some c \<longrightarrow> c < N_PROC \<Longrightarrow>
    kstep k (k\<lparr>ks_hartid := h, ks_current := cur\<rparr>)"
| start: "ks_current k = None \<Longrightarrow> sched_dispatch clock k = Inr k' \<Longrightarrow> kstep k k'"
| resume: "trap_entry hw mcause mtval irq k = Inr (True, k') \<Longrightarrow> kstep k k'"
| yield: "trap_entry hw mcause mtval irq k = Inr (False, k1) \<Longrightarrow> sched_yield clock k1 = Inr k' \<Longrightarrow>
    kstep k k'"

definition reachable :: "kstate \<Rightarrow> bool" where
  "reachable k \<longleftrightarrow> (\<exists>p h k0. hart_ok h \<and> initialize_kernel p h = Inr k0 \<and> kstep\<^sup>*\<^sup>* k0 k)"

section \<open>Exceptions\<close>

lemma exception_round_trip:
  assumes "\<not> (mcause = ILLEGAL_INSTRUCTION \<and> mtval = MRET)"
    and "r \<notin> {PPC, PSP, PA0, PA1, PC}"
  shows "p_regs (exception_handler ILLEGAL_INSTRUCTION MRET mepc'
      (exception_handler mcause mtval mepc p)) r = p_regs p r"
    and "p_regs (exception_handler ILLEGAL_INSTRUCTION MRET mepc'
      (exception_handler mcause mtval mepc p)) PC = mepc"
  using assms by (auto simp: exception_handler_def Let_def)

text \<open>No 32-bit instruction is the one the handler takes for a return.\<close>

lemma exception_no_return:
  assumes "unat mtval < 2 ^ 32"
  shows "exception_handler mcause mtval mepc p =
    p\<lparr>p_regs := (p_regs p)(PPC := mepc, PSP := p_regs p SP, PA0 := p_regs p A0, PA1 := p_regs p A1,
      PC := p_regs p TPC, SP := p_regs p TSP, A0 := mcause, A1 := mtval)\<rparr>"
proof -
  have "mtval \<noteq> MRET" using assms by (auto simp: MRET_def)
  then show ?thesis by (simp add: exception_handler_def Let_def)
qed

lemma exception_frame [simp]:
  "p_pid (exception_handler a b c p) = p_pid p" "p_cap_table (exception_handler a b c p) = p_cap_table p"
  "p_state (exception_handler a b c p) = p_state p"
  "p_pid (save_context hw p) = p_pid p" "p_cap_table (save_context hw p) = p_cap_table p"
  "p_state (save_context hw p) = p_state p"
  by (simp_all add: exception_handler_def save_context_def Let_def)

section \<open>Traps keep the invariant\<close>

lemma kinv_context [simp]:
  "kinv (upd_proc c (save_context hw) k) \<longleftrightarrow> kinv k"
  "kinv (upd_proc c (exception_handler a b e) k) \<longleftrightarrow> kinv k"
  by (simp_all add: kinv_upd_proc)

lemma vector_keeps:
  assumes "kinv k" "ks_current k = Some c"
  shows "keeps k (syscall_vector irq n r k)"
  unfolding syscall_vector_def if_distrib [where f = "\<lambda>f. f k"]
  by (intro keeps_if; rule handler_keeps; rule assms)

lemma trap_syscall_keeps:
  assumes "kinv k" "ks_current k = Some c"
  shows "keeps k (trap_syscall irq k)"
proof -
  let ?k = "put_reg c PC (p_regs (ks_procs k c) PC + 4) k"
  let ?r = "p_regs (ks_procs ?k c)"
  have k: "kinv ?k" "ks_current ?k = Some c" using assms by simp_all
  have "keeps ?k (if unat (?r T0) \<ge> NUM_OF_SYSNR then syscall_unimplemented ?k
      else syscall_vector irq (unat (?r T0)) ?r ?k)"
    using vector_keeps [OF k] register_keeps(5) [OF k(1)] by (intro keeps_if)
  then have "keeps ?k (trap_syscall irq k)"
    unfolding trap_syscall_def Let_def deref_current_def assms(2) option.case ebind_simps
    by (rule keeps_bind) (auto split: outcome.splits)
  then show ?thesis by (rule keeps_shift) simp_all
qed

lemma trap_entry_keeps:
  assumes "kinv k" "ks_current k = Some c"
  shows "keeps k (trap_entry hw mcause mtval irq k)"
proof -
  let ?k = "upd_proc c (save_context hw) k"
  have k: "kinv ?k" "ks_current ?k = Some c" using assms by simp_all
  have "keeps ?k (trap_entry hw mcause mtval irq k)"
    using trap_syscall_keeps [OF k] k
    by (simp add: trap_entry_def deref_current_def assms(2) Let_def)
  then show ?thesis by (rule keeps_shift) simp_all
qed

lemma sched_dispatch_kinv:
  assumes inv: "kinv k" and d: "sched_dispatch clock k = Inr k'"
  shows "kinv k'" "ks_nodes k' = ks_nodes k" "ks_receivers k' = ks_receivers k"
proof -
  obtain dd ps where s: "sched_start clock 0 (ks_schedule k) (ks_hartid k) (ks_procs k) = Some (Inr (dd, ps))"
    and k': "k' = k\<lparr>ks_procs := ps, ks_current := Some (d_proc dd),
      ks_mtimecmp := (ks_mtimecmp k)(unat (ks_hartid k) := d_end dd)\<rparr>"
    using d by (auto simp: sched_dispatch_def ebind_Inr_iff run_loop_def split: option.splits)
  have v: "sched_valid (ks_schedule k)" "hart_ok (ks_hartid k)"
    using inv by (simp_all add: kinv_def tables_ok_def)
  obtain now where t: "sched_try (ks_schedule k) (ks_hartid k) now (ks_procs k) = Inr (Some (dd, ps))"
    using sched_start_result [OF s] by blast
  then obtain p l where r: "runnable (ks_schedule k) (ks_hartid k) now (ks_procs k) p l" "d_proc dd = p"
    "ps = (ks_procs k)(p := (ks_procs k p)\<lparr>p_state := pstate PROC_STATE_RUNNING\<rparr>)"
    using sched_try_cases [OF v, of now "ks_procs k"] by auto
  have "p < N_PROC"
    using sched_validD(1) [OF v, of "unat (sched_time now)" p l] r(1) by (simp add: runnable_def)
  moreover have "kinv (put_state p (pstate PROC_STATE_RUNNING) k)" using inv by simp
  ultimately show "kinv k'"
    using r(2,3) by (simp add: k' put_state_def upd_proc_def kinv_def tables_ok_def)
  show "ks_nodes k' = ks_nodes k" "ks_receivers k' = ks_receivers k" by (simp_all add: k')
qed

lemma kstep_keeps:
  assumes "kstep k k'" "kinv k"
  shows "kinv k'" "all_authority (ks_nodes k') \<subseteq> all_authority (ks_nodes k)" "clients_kept k k'"
proof -
  have "kinv k' \<and> all_authority (ks_nodes k') \<subseteq> all_authority (ks_nodes k) \<and> clients_kept k k'"
    using assms
  proof (cases rule: kstep.cases)
    case (enter h cur)
    then show ?thesis using assms(2) by (simp add: kinv_def tables_ok_def)
  next
    case (start clock)
    then show ?thesis using sched_dispatch_kinv [OF assms(2)] by simp
  next
    case (resume hw mcause mtval irq)
    then obtain c where "ks_current k = Some c"
      by (cases "ks_current k") (auto simp: trap_entry_def deref_current_def)
    then show ?thesis using trap_entry_keeps [OF assms(2), of c hw mcause mtval irq] resume by simp
  next
    case (yield hw mcause mtval irq k1 clock)
    then obtain c where c: "ks_current k = Some c"
      by (cases "ks_current k") (auto simp: trap_entry_def deref_current_def)
    then have k1: "kinv k1" "all_authority (ks_nodes k1) \<subseteq> all_authority (ks_nodes k)"
      "ks_current k1 = Some c" "clients_kept k k1"
      using trap_entry_keeps [OF assms(2) c, of hw mcause mtval irq] yield by simp_all
    then have "sched_dispatch clock (put_state c (proc_release (state_of k1 c)) k1) = Inr k'"
      using yield by (simp add: sched_yield_def deref_current_def)
    from sched_dispatch_kinv [OF _ this] k1 show ?thesis by (simp add: clients_kept_def)
  qed
  then show "kinv k'" "all_authority (ks_nodes k') \<subseteq> all_authority (ks_nodes k)" "clients_kept k k'"
    by blast+
qed

section \<open>Boot establishes it\<close>

lemma boot_cap_kinds:
  assumes "fits 32 (drop_bit 12 p)"
  shows "cap_is_type (boot_cap p 0) CAP_TYPE_PMP"
    "cap_is_type (boot_cap p 1) CAP_TYPE_CHANNELS"
    "cap_is_type (boot_cap p 2) CAP_TYPE_SUPERVISOR"
    "3 \<le> j \<Longrightarrow> j < 7 \<Longrightarrow> cap_is_type (boot_cap p j) CAP_TYPE_TIME"
  using mk_pmp_get(1) [OF assms, of 7] mk_channels_get(1) [of 0 "of_nat N_CHANNELS" 0]
    mk_supervisor_get(1) [of 0 "of_nat N_PROC" 0]
    mk_time_get(1) [of "of_nat (j - 2)" 0 "of_nat N_QUANTUM" 0]
  by (simp_all add: cap_is_type_def boot_cap_def fits_unat config_defs unat_of_nat del: of_nat_diff)

lemma boot_cap_fields:
  "cap_channels_get_begin (boot_cap p 1) = 0" "cap_channels_get_free (boot_cap p 1) = 0"
  "cap_channels_get_end (boot_cap p 1) = of_nat N_CHANNELS"
  "cap_supervisor_get_begin (boot_cap p 2) = 0" "cap_supervisor_get_free (boot_cap p 2) = 0"
  "cap_supervisor_get_end (boot_cap p 2) = of_nat N_PROC"
  "3 \<le> j \<Longrightarrow> j < 7 \<Longrightarrow> cap_time_get_hartid (boot_cap p j) = of_nat (j - 2)"
  "3 \<le> j \<Longrightarrow> j < 7 \<Longrightarrow> cap_time_get_begin (boot_cap p j) = 0"
  "3 \<le> j \<Longrightarrow> j < 7 \<Longrightarrow> cap_time_get_free (boot_cap p j) = 0"
  "3 \<le> j \<Longrightarrow> j < 7 \<Longrightarrow> cap_time_get_end (boot_cap p j) = of_nat N_QUANTUM"
  using mk_channels_get(2-4) [of 0 "of_nat N_CHANNELS" 0] mk_supervisor_get(2-4) [of 0 "of_nat N_PROC" 0]
    mk_time_get(2-5) [of "of_nat (j - 2)" 0 "of_nat N_QUANTUM" 0]
  by (simp_all add: boot_cap_def fits_unat config_defs unat_of_nat del: of_nat_diff)

lemma boot_index: "j < 7 \<Longrightarrow> j = 0 \<or> j = 1 \<or> j = 2 \<or> (3 \<le> j \<and> j < (7 :: nat))"
  by arith

lemma boot_cap_ok:
  assumes "fits 32 (drop_bit 12 p)" "j < 7"
  shows "cap_ok (boot_cap p j)" "\<not> cap_is_type (boot_cap p j) CAP_TYPE_MEMORY"
proof -
  note k = boot_cap_kinds [OF assms(1)]
  have h: "unat (of_nat (j - 2) :: u64) = j - 2" using assms(2) by (simp add: unat_of_nat del: of_nat_diff)
  consider "j = 0" | "j = 1" | "j = 2" | "3 \<le> j" "j < 7" using boot_index [OF assms(2)] by blast
  then have "cap_ok (boot_cap p j) \<and> \<not> cap_is_type (boot_cap p j) CAP_TYPE_MEMORY"
  proof cases
    case 1
    then show ?thesis using k(1) by (simp add: cap_ok_simps type_eqs)
  next
    case 2
    then show ?thesis
      using k(2) cap_ok_simps(4) [OF k(2)] by (simp add: boot_cap_fields type_eqs config_defs del: One_nat_def)
  next
    case 3
    then show ?thesis
      using k(3) cap_ok_simps(9) [OF k(3)] by (simp add: boot_cap_fields type_eqs config_defs)
  next
    case 4
    note t = k(4) [OF 4]
    have "MIN_HARTID \<le> j - 2" "j - 2 \<le> MAX_HARTID" using 4 by (simp_all add: config_defs)
    then show ?thesis
      using cap_ok_simps(3) [OF t] t h 4
      by (simp add: boot_cap_fields type_eqs config_defs del: of_nat_diff)
  qed
  then show "cap_ok (boot_cap p j)" "\<not> cap_is_type (boot_cap p j) CAP_TYPE_MEMORY" by blast+
qed

lemma boot_authority:
  assumes "fits 32 (drop_bit 12 p)" "j < 7" "x \<in> authority (boot_cap p j)" "exclusive x"
  shows "(j = 1 \<and> (\<exists>ch. x = Receive ch)) \<or> (j = 2 \<and> (\<exists>q. x = Supervise q)) \<or>
    (3 \<le> j \<and> (\<exists>q. x = Slice (j - 2) q))"
proof -
  note k = boot_cap_kinds [OF assms(1)]
  consider "j = 0" | "j = 1" | "j = 2" | "3 \<le> j" "j < 7" using boot_index [OF assms(2)] by blast
  then show ?thesis
  proof cases
    case 1
    then show ?thesis using assms(3,4) k(1) by (auto simp: authority_simps)
  next
    case 2
    then show ?thesis using assms(3,4) authority_simps(4) [OF k(2)] by auto
  next
    case 3
    then show ?thesis using assms(3,4) authority_simps(9) [OF k(3)] by auto
  next
    case 4
    have h: "unat (of_nat (j - 2) :: u64) = j - 2" using assms(2) by (simp add: unat_of_nat del: of_nat_diff)
    show ?thesis
      using assms(3) authority_simps(3) [OF k(4) [OF 4]] 4 h by (simp add: boot_cap_fields del: of_nat_diff) blast
  qed
qed

lemma boot_exclusive:
  assumes "fits 32 (drop_bit 12 p)" "i < 7" "j < 7" "i \<noteq> j"
  shows "authority (boot_cap p i) \<inter> authority (boot_cap p j) \<inter> Collect exclusive = {}"
proof -
  have False if x: "x \<in> authority (boot_cap p i)" "x \<in> authority (boot_cap p j)" "exclusive x" for x
    using boot_authority [OF assms(1,2) x(1,3)] boot_authority [OF assms(1,3) x(2,3)] assms(4) by auto
  then show ?thesis by blast
qed

lemma boot_cap_at: "cap_at (boot_heap p) n c \<longleftrightarrow> (\<exists>j < 7. n = Slot 0 j \<and> c = boot_cap p j)"
  by (cases n) (auto simp: cap_at_def node_live_def boot_heap_live boot_heap_cap simp del: not_None_eq)

lemma boot_kinv:
  assumes "initialize_kernel p h = Inr k" "hart_ok h"
  shows "kinv k" "fits 32 (drop_bit 12 p)"
proof -
  show f: "fits 32 (drop_bit 12 p)"
  proof (rule ccontr)
    assume "\<not> fits 32 (drop_bit 12 p)"
    then have "proc_init p (\<lambda>_. boot_proc) (\<lambda>_. boot_node) = Inl Assert_failed"
    proof -
      have "0 < N_PROC" by (simp add: config_defs)
      moreover have "proc_init_root (proc_init_proc 0 boot_proc) p (\<lambda>_. boot_node) = Inl Assert_failed"
        using \<open>\<not> fits 32 (drop_bit 12 p)\<close>
        by (simp add: proc_init_root_def proc_get_cap_node_def proc_init_proc_def
            proc_init_memory_def insert_cap_def gen_mk_pmp_def)
      ultimately show ?thesis by (simp add: proc_init_def init_procs_fold)
    qed
    then show False using assms(1) by (simp add: initialize_kernel_def bss_def)
  qed
  have k: "k = (bss h)\<lparr>ks_procs := boot_procs p, ks_nodes := boot_heap p,
      ks_schedule := sched_init (\<lambda>_ _. 0)\<rparr>"
    using assms(1) proc_init_boot [OF f] by (simp add: initialize_kernel_def bss_def)
  note at = boot_cap_at
  have "caps_inv (boot_heap p)"
  proof (rule caps_invI)
    show "nodes_ok (boot_heap p)" using boot_rep by (auto simp: nodes_ok_def)
    show "slot_in_range n \<and> cap_ok c \<and> \<not> cap_is_type c CAP_TYPE_MEMORY" if "cap_at (boot_heap p) n c" for n c
      using that boot_cap_ok [OF f] by (auto simp: at slot_in_range_def config_defs)
    show "authority c \<inter> authority c' \<inter> Collect exclusive = {}"
      if "cap_at (boot_heap p) n c" "cap_at (boot_heap p) n' c'" "n \<noteq> n'" for n n' c c'
      using that boot_exclusive [OF f] by (auto simp: at)
  qed
  moreover have "raw_ok (boot_heap p)"
  proof -
    have "cap_ok (boot_cap p j)" for j
      using boot_cap_ok(1) [OF f, of j] by (cases "j < 7") (simp_all add: boot_cap_def)
    then have "cap_ok (cn_cap (boot_heap p n))" if "is_slot n" for n
      using that by (cases n) (simp_all add: boot_heap_cap)
    then show ?thesis by (simp add: raw_ok_def)
  qed
  moreover have "owners_inv (boot_heap p) (sched_init (\<lambda>_ _. 0)) (\<lambda>_ _. None)"
  proof -
    have "owns 0 (boot_cap p j) (sched_init (\<lambda>_ _. 0)) (\<lambda>_ _. None)" if j: "j < 7" for j
    proof -
      have h: "unat (of_nat (j - 2) :: u64) = j - 2" using j by (simp add: unat_of_nat del: of_nat_diff)
      have e: "entry_at (sched_init (\<lambda>_ _. 0)) q (j - 2) = (0, N_QUANTUM - q)" if "q < N_QUANTUM" "3 \<le> j" for q
        using that j by (intro sched_init_entries) (simp_all add: config_defs)
      have n: "unat (of_nat N_QUANTUM :: u64) = N_QUANTUM" by (simp add: config_defs)
      consider "j = 0" | "j = 1" | "j = 2" | "3 \<le> j" "j < 7" using boot_index [OF j] by blast
      then show ?thesis
      proof cases
        case 4
        then show ?thesis
          using boot_cap_kinds(4) [OF f 4] e h n
          by (simp add: owns_def boot_cap_fields type_eqs del: of_nat_diff)
      qed (use boot_cap_kinds(1-3) [OF f] in \<open>simp_all add: owns_def type_eqs\<close>)
    qed
    then show ?thesis by (auto simp: owners_inv_def at)
  qed
  moreover have "tables_ok k"
    by (auto simp: k tables_ok_def bss_def sched_valid_def sched_init_entries boot_procs_def
        boot_proc_def config_defs)
  ultimately show "kinv k" using assms(2) by (simp add: kinv_def k bss_def)
qed

lemma reachable_kinv: "reachable k \<Longrightarrow> kinv k"
proof -
  assume "reachable k"
  then obtain p h k0 where k0: "hart_ok h" "initialize_kernel p h = Inr k0" "kstep\<^sup>*\<^sup>* k0 k"
    by (auto simp: reachable_def)
  from k0(3) show ?thesis
    by (induction rule: rtranclp_induct) (use boot_kinv(1) [OF k0(2,1)] kstep_keeps(1) in auto)
qed

lemma reachable_authority:
  assumes "hart_ok h" "initialize_kernel p h = Inr k0" "kstep\<^sup>*\<^sup>* k0 k"
  shows "all_authority (ks_nodes k) \<subseteq> all_authority (ks_nodes k0)"
  using assms(3)
proof (induction rule: rtranclp_induct)
  case base
  then show ?case by simp
next
  case (step y z)
  have "kinv y" using reachable_kinv assms(1,2) step(1) by (auto simp: reachable_def)
  then show ?case using kstep_keeps(2) [OF step(2)] step.IH by blast
qed

lemma reachable_step: "reachable k \<Longrightarrow> kstep k k' \<Longrightarrow> reachable k'"
  unfolding reachable_def by (meson rtranclp.rtrancl_into_rtrancl)

lemma reachable_clients:
  assumes "reachable k" "kstep\<^sup>*\<^sup>* k k'"
  shows "clients_kept k k'"
  using assms(2)
proof (induction rule: rtranclp_induct)
  case base
  then show ?case by simp
next
  case (step y z)
  have "reachable y"
    using step(1) assms(1) unfolding reachable_def by (meson rtranclp_trans)
  then show ?case
    using kstep_keeps(3) [OF step(2) reachable_kinv] step.IH clients_kept_trans by blast
qed

text \<open>The state after boot, and with process 0 running on a hart.\<close>

definition boot_state :: "u64 \<Rightarrow> u64 \<Rightarrow> kstate" where
  "boot_state p h = (bss h)\<lparr>ks_procs := boot_procs p, ks_nodes := boot_heap p,
     ks_schedule := sched_init (\<lambda>_ _. 0)\<rparr>"

definition root_running :: "u64 \<Rightarrow> u64 \<Rightarrow> kstate" where
  "root_running p h = (boot_state p h)\<lparr>ks_current := Some 0\<rparr>"

lemma initialize_kernel_boots:
  "fits 32 (drop_bit 12 p) \<Longrightarrow> initialize_kernel p h = Inr (boot_state p h)"
  by (simp add: initialize_kernel_def bss_def boot_state_def proc_init_boot)

lemma reachable_boot:
  assumes "fits 32 (drop_bit 12 p)" "hart_ok h"
  shows "reachable (boot_state p h)" "reachable (root_running p h)"
proof -
  show b: "reachable (boot_state p h)"
    using assms initialize_kernel_boots unfolding reachable_def by blast
  have "kstep (boot_state p h) ((boot_state p h)\<lparr>ks_hartid := h, ks_current := Some 0\<rparr>)"
    using assms(2) by (intro kstep.enter) (simp_all add: config_defs)
  moreover have "(boot_state p h)\<lparr>ks_hartid := h, ks_current := Some 0\<rparr> = root_running p h"
    by (simp add: root_running_def boot_state_def bss_def)
  ultimately show "reachable (root_running p h)" using reachable_step [OF b] by simp
qed

lemma root_running_simps [simp]:
  "ks_current (root_running p h) = Some 0" "ks_nodes (root_running p h) = boot_heap p"
  "ks_schedule (root_running p h) = sched_init (\<lambda>_ _. 0)" "ks_hartid (root_running p h) = h"
  "ks_receivers (root_running p h) = (\<lambda>_ _. None)" "ks_procs (root_running p h) = boot_procs p"
  by (simp_all add: root_running_def boot_state_def bss_def)

lemma root_running_kinv: "fits 32 (drop_bit 12 p) \<Longrightarrow> hart_ok h \<Longrightarrow> kinv (root_running p h)"
  using reachable_boot(2) reachable_kinv by blast

section \<open>System calls as traps\<close>

lemma saved_regs_simps [simp]:
  "T0 \<in> saved_regs" "PC \<in> saved_regs" "A0 \<in> saved_regs" "A1 \<in> saved_regs" "A2 \<in> saved_regs"
  "A3 \<in> saved_regs" "A4 \<in> saved_regs" "A5 \<in> saved_regs" "A6 \<in> saved_regs" "A7 \<in> saved_regs"
  by (simp_all add: saved_regs_def reg_order_def)

text \<open>An \<open>ecall\<close>, with the number in \<open>t0\<close> and the arguments in the saved registers.\<close>

definition entered :: "nat \<Rightarrow> regs \<Rightarrow> kstate \<Rightarrow> kstate" where
  "entered c hw k = put_reg c PC (hw PC + 4) (upd_proc c (save_context hw) k)"

lemma trap_any_ecall:
  assumes "ks_current k = Some c"
  shows "trap_entry hw MCAUSE_U_ECALL mtval irq k =
    ebind (if NUM_OF_SYSNR \<le> unat (hw T0) then syscall_unimplemented (entered c hw k)
           else syscall_vector irq (unat (hw T0)) (p_regs (ks_procs (entered c hw k) c)) (entered c hw k))
      (\<lambda>(out, k). case out of Return v \<Rightarrow> Inr (True, put_reg c A0 v k) | Yield \<Rightarrow> Inr (False, k))"
proof -
  let ?k = "upd_proc c (save_context hw) k"
  have "p_regs (ks_procs ?k c) PC = hw PC"
    by (simp add: upd_proc_def save_context_def)
  then have e: "put_reg c PC (p_regs (ks_procs ?k c) PC + 4) ?k = entered c hw k"
    by (simp add: entered_def)
  have t: "p_regs (ks_procs (entered c hw k) c) T0 = hw T0"
    by (simp add: entered_def put_reg_def upd_proc_def save_context_def)
  have "\<not> bit MCAUSE_U_ECALL 63"
    using bit_push_mask [of 3 1 63] by (simp add: MCAUSE_U_ECALL_def)
  then show ?thesis
    using assms e t by (simp add: trap_entry_def trap_syscall_def deref_current_def Let_def)
qed

lemma trap_ecall:
  assumes "ks_current k = Some c" "unat (hw T0) < NUM_OF_SYSNR"
  shows "trap_entry hw MCAUSE_U_ECALL mtval irq k =
    ebind (syscall_vector irq (unat (hw T0)) (p_regs (ks_procs (entered c hw k) c)) (entered c hw k))
      (\<lambda>(out, k). case out of Return v \<Rightarrow> Inr (True, put_reg c A0 v k) | Yield \<Rightarrow> Inr (False, k))"
  using trap_any_ecall [OF assms(1), where hw = hw] assms(2) by simp

lemma entered_frame [simp]:
  "ks_nodes (entered c hw k) = ks_nodes k" "ks_current (entered c hw k) = ks_current k"
  "kinv (entered c hw k) \<longleftrightarrow> kinv k"
  by (simp_all add: entered_def)

lemma entered_args [simp]:
  "r \<in> {A0, A1, A2, A3, A4, A5, A6, A7} \<Longrightarrow> p_regs (ks_procs (entered c hw k) c) r = hw r"
  by (auto simp: entered_def put_reg_def upd_proc_def save_context_def)

section \<open>The root process running\<close>

lemma root_reachable: "reachable (root_running 0 1)"
  by (rule reachable_boot(2)) (simp_all add: hart_ok_def config_defs)

lemma root_kinv: "kinv (root_running 0 1)"
  by (rule reachable_kinv [OF root_reachable])

lemma root_free: "8 \<le> j \<Longrightarrow> \<not> node_live (ks_nodes (root_running 0 1)) (Slot i j)"
  by (simp add: node_live_def boot_heap_live del: not_None_eq)

text \<open>Where the time of hart 1 starts out: slot 3 of process 0.\<close>

lemma root_time:
  "cap_at (ks_nodes (root_running 0 1)) (Slot 0 3) (boot_cap 0 3)"
  "cap_is_type (boot_cap 0 3) CAP_TYPE_TIME" "cap_time_get_hartid (boot_cap 0 3) = 1"
  "cap_time_get_free (boot_cap 0 3) = 0" "cap_time_get_end (boot_cap 0 3) = 128"
  using boot_cap_kinds(4) [of 0 3] boot_cap_fields(7,9,10) [of 3 0]
  by (simp_all add: boot_cap_at config_defs)

lemma root_not_spent: "\<not> spent_time (boot_cap 0 3)"
  by (simp add: spent_time_def root_time)

end
