(* ===== verification/Effects.thy ===== *)
theory Effects
  imports Trap
begin

text \<open>
  What the system calls do, branch by branch: which slots change, who is scheduled and who
  receives afterwards, and what is delivered; also the branches on which a call refuses,
  stops the kernel or does less than its name says.
\<close>

section \<open>Capability system calls\<close>

abbreviation slot_of :: "nat \<Rightarrow> u64 \<Rightarrow> node_ptr" where
  "slot_of c cid \<equiv> Slot c (unat (cid mod of_nat N_CAPS))"

lemma slot_of_numeral:
  "slot_of c 1 = Slot c 1" "slot_of c 2 = Slot c 2" "slot_of c 3 = Slot c 3" "slot_of c 8 = Slot c 8" "slot_of c 9 = Slot c 9" "slot_of c 0 = Slot c 0"
  by (simp_all add: config_defs unat_mod)

lemma move_cap_effect:
  assumes inv: "kinv k" and c: "ks_current k = Some c"
  shows "\<not> node_live (ks_nodes k) (slot_of c sc) \<Longrightarrow>
      syscall_move_cap sc dc k = Inr (Return (err ERROR_EMPTY), k)"
    and "node_live (ks_nodes k) (slot_of c sc) \<Longrightarrow> node_live (ks_nodes k) (slot_of c dc) \<Longrightarrow>
      syscall_move_cap sc dc k = Inr (Return (err ERROR_COLLISION), k)"
    and "cap_at (ks_nodes k) (slot_of c sc) x \<Longrightarrow> \<not> node_live (ks_nodes k) (slot_of c dc) \<Longrightarrow>
      \<exists>h'. syscall_move_cap sc dc k = Inr (Return (err ERROR_OK), k\<lparr>ks_nodes := h'\<rparr>) \<and>
        (\<forall>n y. cap_at h' n y \<longleftrightarrow>
           (if n = slot_of c dc then y = x else n \<noteq> slot_of c sc \<and> cap_at (ks_nodes k) n y))"
proof -
  have p: "c < N_PROC" by (rule kinvD(6) [OF inv c])
  note d = syscall_move_cap_def assert_current_def c cap_node_of_runs [OF inv p] node_live_deleted
    get_cap_live node_move_def Let_def
  show "\<not> node_live (ks_nodes k) (slot_of c sc) \<Longrightarrow>
      syscall_move_cap sc dc k = Inr (Return (err ERROR_EMPTY), k)" by (simp add: d)
  show "node_live (ks_nodes k) (slot_of c sc) \<Longrightarrow> node_live (ks_nodes k) (slot_of c dc) \<Longrightarrow>
      syscall_move_cap sc dc k = Inr (Return (err ERROR_COLLISION), k)" by (simp add: d)
  assume x: "cap_at (ks_nodes k) (slot_of c sc) x" and nd: "\<not> node_live (ks_nodes k) (slot_of c dc)"
  then have live: "node_live (ks_nodes k) (slot_of c sc)" "cn_cap (ks_nodes k (slot_of c sc)) = x"
    by (simp_all add: cap_at_def)
  obtain h' where h': "cap_node_move x (slot_of c sc) (slot_of c dc) (ks_nodes k) = Inr (True, h')"
    "\<forall>n y. cap_at h' n y \<longleftrightarrow>
      (if n = slot_of c dc then y = x else n \<noteq> slot_of c sc \<and> cap_at (ks_nodes k) n y)"
    using caps_move [OF kinvD(1) [OF inv] live(1) nd] p live(2) by auto
  then show "\<exists>h'. syscall_move_cap sc dc k = Inr (Return (err ERROR_OK), k\<lparr>ks_nodes := h'\<rparr>) \<and>
        (\<forall>n y. cap_at h' n y \<longleftrightarrow>
           (if n = slot_of c dc then y = x else n \<noteq> slot_of c sc \<and> cap_at (ks_nodes k) n y))"
    using live nd by (intro exI [of _ h'] conjI) (simp_all add: d)
qed

text \<open>Deleting leaves the schedule and the receivers as they are.\<close>

lemma delete_cap_effect:
  assumes inv: "kinv k" and c: "ks_current k = Some c"
  shows "\<not> node_live (ks_nodes k) (slot_of c sc) \<Longrightarrow>
      syscall_delete_cap sc k = Inr (Return (err ERROR_EMPTY), k)"
    and "cap_at (ks_nodes k) (slot_of c sc) x \<Longrightarrow> spent_time x \<Longrightarrow>
      syscall_delete_cap sc k = Inl Assert_failed"
    and "cap_at (ks_nodes k) (slot_of c sc) x \<Longrightarrow> \<not> spent_time x \<Longrightarrow>
      \<exists>k'. syscall_delete_cap sc k = Inr (Return (err ERROR_OK), k') \<and>
        (\<forall>n y. cap_at (ks_nodes k') n y \<longleftrightarrow> n \<noteq> slot_of c sc \<and> cap_at (ks_nodes k) n y) \<and>
        ks_schedule k' = ks_schedule k \<and> ks_receivers k' = ks_receivers k \<and> ks_procs k' = ks_procs k"
proof -
  have p: "c < N_PROC" by (rule kinvD(6) [OF inv c])
  let ?sn = "slot_of c sc"
  note d = syscall_delete_cap_def assert_current_def c cap_node_of_runs [OF inv p] node_live_deleted
    get_cap_live node_delete_def Let_def
  show "\<not> node_live (ks_nodes k) ?sn \<Longrightarrow> syscall_delete_cap sc k = Inr (Return (err ERROR_EMPTY), k)"
    by (simp add: d)
  have run: "\<exists>h'. syscall_delete_cap sc k = ebind (cap_update_hook None ?sn x (k\<lparr>ks_nodes := h'\<rparr>))
        (\<lambda>k. Inr (Return (err ERROR_OK), k)) \<and> caps_inv h' \<and> \<not> node_live h' ?sn \<and>
      (\<forall>n y. cap_at h' n y \<longleftrightarrow> n \<noteq> ?sn \<and> cap_at (ks_nodes k) n y)"
    if x: "cap_at (ks_nodes k) ?sn x"
  proof -
    have live: "node_live (ks_nodes k) ?sn" "cn_cap (ks_nodes k ?sn) = x"
      using x by (simp_all add: cap_at_def)
    obtain h' where "cap_node_delete ?sn (ks_nodes k) = Inr (True, h')" "caps_inv h'" "\<not> node_live h' ?sn"
      "\<forall>n y. cap_at h' n y \<longleftrightarrow> n \<noteq> ?sn \<and> cap_at (ks_nodes k) n y"
      using caps_delete [OF kinvD(1) [OF inv] live(1)] p by auto
    then show ?thesis using live by (intro exI [of _ h'] conjI) (simp_all add: d)
  qed
  show "syscall_delete_cap sc k = Inl Assert_failed"
    if "cap_at (ks_nodes k) ?sn x" "spent_time x"
    using run [OF that(1)] hook_spent [OF that(2)] by auto
  show "\<exists>k'. syscall_delete_cap sc k = Inr (Return (err ERROR_OK), k') \<and>
        (\<forall>n y. cap_at (ks_nodes k') n y \<longleftrightarrow> n \<noteq> ?sn \<and> cap_at (ks_nodes k) n y) \<and>
        ks_schedule k' = ks_schedule k \<and> ks_receivers k' = ks_receivers k \<and> ks_procs k' = ks_procs k"
    if x: "cap_at (ks_nodes k) ?sn x" and ns: "\<not> spent_time x"
  proof -
    obtain h' where h': "syscall_delete_cap sc k = ebind (cap_update_hook None ?sn x (k\<lparr>ks_nodes := h'\<rparr>))
        (\<lambda>k. Inr (Return (err ERROR_OK), k))" "\<not> node_live h' ?sn"
      "\<forall>n y. cap_at h' n y \<longleftrightarrow> n \<noteq> ?sn \<and> cap_at (ks_nodes k) n y"
      using run [OF x] by blast
    have t: "tables_ok (k\<lparr>ks_nodes := h'\<rparr>)" using kinvD(4) [OF inv] by (simp add: tables_ok_def)
    obtain l1 l2 where "cap_update_hook None ?sn x (k\<lparr>ks_nodes := h'\<rparr>) =
        Inr (k\<lparr>ks_nodes := h', ks_sched_lock := l1, ks_receivers_lock := l2\<rparr>)"
      using hook_dead [OF t caps_invD(3) [OF kinvD(1) [OF inv] x] ns, of ?sn None] h'(2) by auto
    then show ?thesis using h'(1,3) by simp
  qed
qed

lemma derive_cap_effect:
  assumes inv: "kinv k" and c: "ks_current k = Some c"
    and x: "cap_at (ks_nodes k) (slot_of c sc) x" and nd: "\<not> node_live (ks_nodes k) (slot_of c dc)"
    and d: "cap_can_derive x \<lparr>word0 = w0, word1 = w1\<rparr>"
  shows "\<exists>k' x'. syscall_derive_cap False sc dc w0 w1 k = Inr (Return (err ERROR_OK), k') \<and>
    derive_update_cap x \<lparr>word0 = w0, word1 = w1\<rparr> = Inr x' \<and>
    (\<forall>n y. cap_at (ks_nodes k') n y \<longleftrightarrow>
       (if n = slot_of c dc then y = \<lparr>word0 = w0, word1 = w1\<rparr>
        else if n = slot_of c sc then y = x' else cap_at (ks_nodes k) n y)) \<and>
    hook_effect c \<lparr>word0 = w0, word1 = w1\<rparr> (ks_schedule k) (ks_receivers k) (ks_schedule k') (ks_receivers k')"
proof -
  have p: "c < N_PROC" by (rule kinvD(6) [OF inv c])
  let ?k = "preemption_disable (preemption_enable (put_reg c A0 (err ERROR_PREEMPTED) k))"
  let ?new = "\<lparr>word0 = w0, word1 = w1\<rparr>"
  have live: "node_live (ks_nodes k) (slot_of c sc)" "cn_cap (ks_nodes k (slot_of c sc)) = x"
    using x by (simp_all add: cap_at_def)
  have run: "syscall_derive_cap False sc dc w0 w1 k = derive_body c (slot_of c sc) (slot_of c dc) x ?new ?k"
    using live nd d by (simp add: syscall_derive_cap_def derive_body_def assert_current_def c
        cap_node_of_runs inv p node_live_deleted get_cap_live Let_def)
  have k: "kinv ?k" using inv by simp
  have e: "ks_schedule ?k = ks_schedule k"
    by (simp add: preemption_disable_def preemption_enable_def put_reg_def upd_proc_def)
  from derive_body_runs [OF k p refl _ _ refl, of "unat (sc mod of_nat N_CAPS)" "unat (dc mod of_nat N_CAPS)" ?new]
  obtain k' x' where "derive_body c (slot_of c sc) (slot_of c dc) x ?new ?k = Inr (Return (err ERROR_OK), k')"
    "derive_update_cap x ?new = Inr x'"
    "\<forall>n y. cap_at (ks_nodes k') n y \<longleftrightarrow>
       (if n = slot_of c dc then y = ?new else if n = slot_of c sc then y = x' else cap_at (ks_nodes k) n y)"
    "hook_effect c ?new (ks_schedule k) (ks_receivers k) (ks_schedule k') (ks_receivers k')"
    using live nd d p e by auto
  then show ?thesis unfolding run by blast
qed

text \<open>The refusals of a derivation, in the order they are checked.\<close>

lemma derive_cap_refuses:
  assumes inv: "kinv k" and c: "ks_current k = Some c"
    and r: "syscall_derive_cap False sc dc w0 w1 k = Inr (Return v, k')"
  shows "\<not> node_live (ks_nodes k) (slot_of c sc) \<Longrightarrow> v = err ERROR_EMPTY \<and> ks_nodes k' = ks_nodes k"
    and "cap_at (ks_nodes k) (slot_of c sc) x \<Longrightarrow> node_live (ks_nodes k) (slot_of c dc) \<Longrightarrow>
      v = err ERROR_COLLISION \<and> ks_nodes k' = ks_nodes k"
    and "cap_at (ks_nodes k) (slot_of c sc) x \<Longrightarrow> \<not> node_live (ks_nodes k) (slot_of c dc) \<Longrightarrow>
      \<not> cap_can_derive x \<lparr>word0 = w0, word1 = w1\<rparr> \<Longrightarrow>
      v = err ERROR_ILLEGAL_DERIVATION \<and> ks_nodes k' = ks_nodes k"
proof -
  have p: "c < N_PROC" by (rule kinvD(6) [OF inv c])
  note d = syscall_derive_cap_def assert_current_def c cap_node_of_runs inv p node_live_deleted
    get_cap_live Let_def cap_at_def
  show "\<not> node_live (ks_nodes k) (slot_of c sc) \<Longrightarrow> v = err ERROR_EMPTY \<and> ks_nodes k' = ks_nodes k"
    using r by (simp add: d) (metis put_frame(2,4))
  show "cap_at (ks_nodes k) (slot_of c sc) x \<Longrightarrow> node_live (ks_nodes k) (slot_of c dc) \<Longrightarrow>
      v = err ERROR_COLLISION \<and> ks_nodes k' = ks_nodes k"
    using r by (simp add: d) (metis put_frame(2,4))
  show "cap_at (ks_nodes k) (slot_of c sc) x \<Longrightarrow> \<not> node_live (ks_nodes k) (slot_of c dc) \<Longrightarrow>
      \<not> cap_can_derive x \<lparr>word0 = w0, word1 = w1\<rparr> \<Longrightarrow>
      v = err ERROR_ILLEGAL_DERIVATION \<and> ks_nodes k' = ks_nodes k"
    using r by (simp add: d) (metis put_frame(2,4))
qed

text \<open>Revoking a capability that is there returns at once.\<close>

lemma revoke_live:
  assumes inv: "kinv k" and c: "ks_current k = Some c"
    and live: "node_live (ks_nodes k) (slot_of c sc)" and irq: "\<not> irq 0"
  shows "syscall_revoke_cap irq sc k =
    Inr (Return (err ERROR_EMPTY), preemption_enable (put_reg c A0 (err ERROR_PREEMPTED) k))"
  using live irq kinvD(6) [OF inv c]
  by (simp add: syscall_revoke_cap_def assert_current_def c cap_node_of_runs inv node_live_deleted Let_def)

lemma revoke_emptied_channels:
  assumes inv: "kinv k" and c: "ks_current k = Some c"
    and dead: "\<not> node_live (ks_nodes k) (slot_of c sc)"
    and ch: "cap_is_type (cn_cap (ks_nodes k (slot_of c sc))) CAP_TYPE_CHANNELS"
    and irq: "\<not> irq 0" "\<not> irq 1"
  shows "syscall_revoke_cap irq sc k = Inl Assert_failed"
proof -
  have "revoke_update_cap (cn_cap (ks_nodes k (slot_of c sc))) = Inl Assert_failed"
    using ch by (simp add: revoke_update_stops)
  then show ?thesis
    using dead irq kinvD(6) [OF inv c]
    by (simp add: syscall_revoke_cap_def assert_current_def c cap_node_of_runs inv node_live_deleted
        revoke_loop.simps Let_def)
qed

section \<open>Capabilities between processes\<close>

lemma interprocess_move_effect:
  assumes inv: "kinv k" and p: "s < N_PROC" "d < N_PROC"
    and x: "cap_at (ks_nodes k) (slot_of s sc) x" and nd: "\<not> node_live (ks_nodes k) (slot_of d dc)"
    and ns: "\<not> spent_time x"
  shows "\<exists>k'. interprocess_move s sc d dc k = Inr (err ERROR_OK, k') \<and>
    (\<forall>n y. cap_at (ks_nodes k') n y \<longleftrightarrow>
       (if n = slot_of d dc then y = x else n \<noteq> slot_of s sc \<and> cap_at (ks_nodes k) n y)) \<and>
    hook_effect d x (ks_schedule k) (ks_receivers k) (ks_schedule k') (ks_receivers k') \<and>
    ks_procs k' = ks_procs k"
proof -
  have live: "node_live (ks_nodes k) (slot_of s sc)" "cn_cap (ks_nodes k (slot_of s sc)) = x"
    using x by (simp_all add: cap_at_def)
  obtain s' l1 r' l2 where hk: "cap_update_hook (Some d) (slot_of s sc) x k = Inr (with_tables k s' l1 r' l2)"
    "hook_effect d x (ks_schedule k) (ks_receivers k) s' r'"
    using hook_live [OF kinvD(4) [OF inv] p(2) caps_invD(3) [OF kinvD(1) [OF inv] x] ns live(1)] by blast
  obtain h' where h': "cap_node_move x (slot_of s sc) (slot_of d dc) (ks_nodes k) = Inr (True, h')"
    "\<forall>n y. cap_at h' n y \<longleftrightarrow>
       (if n = slot_of d dc then y = x else n \<noteq> slot_of s sc \<and> cap_at (ks_nodes k) n y)"
    using caps_move [OF kinvD(1) [OF inv] live(1) nd] p live(2) by auto
  have "interprocess_move s sc d dc k =
    Inr (err ERROR_OK, (with_tables k s' l1 r' l2)\<lparr>ks_nodes := h'\<rparr>)"
    using live nd hk(1) h'(1) by (simp add: interprocess_move_def cap_node_of_runs inv p
        node_live_deleted get_cap_live node_move_def Let_def)
  then show ?thesis using hk(2) h'(2)
    by (intro exI [of _ "(with_tables k s' l1 r' l2)\<lparr>ks_nodes := h'\<rparr>"] conjI) simp_all
qed

section \<open>Messages\<close>

lemma owner_of_channel:
  assumes "kinv k" "cap_at (ks_nodes k) (Slot r j) x"
    "cap_is_type x CAP_TYPE_RECEIVER \<and> cap_receiver_get_channel x = ch \<or>
     cap_is_type x CAP_TYPE_SERVER \<and> cap_server_get_channel x = ch"
  shows "ks_receivers k (unat ch) 0 = Some r" "unat ch < N_CHANNELS" "r < N_PROC"
proof -
  have o: "owns r x (ks_schedule k) (ks_receivers k)"
    using kinvD(3) [OF assms(1)] assms(2) by (auto simp: owners_inv_def)
  then show "ks_receivers k (unat ch) 0 = Some r" using assms(3) by (auto simp: owns_def)
  show "unat ch < N_CHANNELS"
    using caps_invD(3) [OF kinvD(1) [OF assms(1)] assms(2)] assms(3) by (auto simp: cap_ok_simps)
  show "r < N_PROC"
    using caps_invD(2) [OF kinvD(1) [OF assms(1)] assms(2)] by (simp add: slot_in_range_def)
qed

text \<open>A send without a capability: the four words arrive, and nothing else changes.\<close>

lemma send_delivers:
  assumes inv: "kinv k" and c: "ks_current k = Some c"
    and s: "cap_at (ks_nodes k) (slot_of c cidx) s" "cap_is_type s CAP_TYPE_SENDER" "cap_sender_get_channel s = ch"
    and r: "cap_at (ks_nodes k) (Slot r j) x"
      "cap_is_type x CAP_TYPE_RECEIVER \<and> cap_receiver_get_channel x = ch \<or>
       cap_is_type x CAP_TYPE_SERVER \<and> cap_server_get_channel x = ch"
    and w: "state_of k r = on_channel ch PROC_STATE_WAITING" and src: "N_CAPS \<le> unat src"
  shows "\<exists>k'. syscall_invoke_cap cidx m0 m1 m2 m3 src a6 a7 k = Inr (Return (err ERROR_OK), k') \<and>
    k' = k\<lparr>ks_procs := (ks_procs k)(r := (ks_procs k r)
      \<lparr>p_regs := (p_regs (ks_procs k r))(A0 := err ERROR_OK, A1 := m0, A2 := m1, A3 := m2, A4 := m3),
       p_state := pstate PROC_STATE_READY\<rparr>)\<rparr>"
proof -
  have p: "c < N_PROC" by (rule kinvD(6) [OF inv c])
  note o = owner_of_channel [OF inv r]
  have live: "node_live (ks_nodes k) (slot_of c cidx)" "cn_cap (ks_nodes k (slot_of c cidx)) = s"
    using s(1) by (simp_all add: cap_at_def)
  let ?k1 = "put_state r (on_channel ch PROC_STATE_RECEIVING) k"
  have ws: "with_state r (\<lambda>w. proc_sender_acquire w ch) k = (True, ?k1)"
    using w by (simp add: with_state_def proc_sender_acquire_def)
  let ?k2 = "put_reg r A4 m3 (put_reg r A3 m2 (put_reg r A2 m1 (put_reg r A1 m0 (put_reg r A0 (err ERROR_OK) ?k1))))"
  have dl: "deliver c r m0 m1 m2 m3 src ?k1 = Inr ?k2" using src by (simp add: deliver_def Let_def)
  have rel: "proc_sender_release (state_of ?k2 r) = pstate PROC_STATE_READY"
    by (simp add: proc_sender_release_def fetch_and_and_def pstate_and)
  have "syscall_invoke_cap cidx m0 m1 m2 m3 src a6 a7 k = syscall_invoke_sender c s m0 m1 m2 m3 src k"
    using s(2) live by (simp add: syscall_invoke_cap_def deref_current_def c cap_node_of_runs inv p
        get_cap_live type_eqs Let_def)
  also have "\<dots> = Inr (Return (err ERROR_OK), put_state r (pstate PROC_STATE_READY) ?k2)"
    using s(2,3) o(1,2) ws dl rel by (simp add: syscall_invoke_sender_def receiver_at_def Let_def)
  finally show ?thesis
    by (intro exI [of _ "put_state r (pstate PROC_STATE_READY) ?k2"] conjI)
      (simp_all add: put_state_def put_reg_def upd_proc_def)
qed

end
