(* ===== verification/Locality.thy ===== *)
theory Locality
  imports Effects
begin

text \<open>
  What a trap may change of another process. A process acts on another only through a
  capability: a supervisor capability over it, or a capability to send on the channel the
  other waits on. Without one, a trap of the one leaves the registers, the state and the
  capabilities of the other as they were.
\<close>

section \<open>Untouched processes\<close>

definition same_proc :: "nat \<Rightarrow> kstate \<Rightarrow> kstate \<Rightarrow> bool" where
  "same_proc p k k' \<longleftrightarrow> ks_procs k' p = ks_procs k p \<and>
     (\<forall>j x. cap_at (ks_nodes k') (Slot p j) x \<longleftrightarrow> cap_at (ks_nodes k) (Slot p j) x)"

text \<open>Process \<open>c\<close> holds a capability through which it can act on process \<open>p\<close>.\<close>

definition acts_on :: "kstate \<Rightarrow> nat \<Rightarrow> nat \<Rightarrow> bool" where
  "acts_on k c p \<longleftrightarrow> (\<exists>j x. cap_at (ks_nodes k) (Slot c j) x \<and>
     (Supervise p \<in> authority x \<or>
      (\<exists>ch. Send ch \<in> authority x \<and> state_of k p = on_channel (of_nat ch) PROC_STATE_WAITING)))"

fun spares :: "nat \<Rightarrow> kstate \<Rightarrow> stop + 'a \<times> kstate \<Rightarrow> bool" where
  "spares p k (Inl e) \<longleftrightarrow> True"
| "spares p k (Inr (x, k')) \<longleftrightarrow> same_proc p k k'"

lemma same_proc_refl [simp]: "same_proc p k k"
  by (simp add: same_proc_def)

lemma same_proc_trans: "same_proc p k k1 \<Longrightarrow> same_proc p k1 k2 \<Longrightarrow> same_proc p k k2"
  by (simp add: same_proc_def)

lemma same_proc_upd [simp]:
  assumes "c \<noteq> p"
  shows "same_proc p k (upd_proc c f k') \<longleftrightarrow> same_proc p k k'"
    "same_proc p k (put_reg c r v k') \<longleftrightarrow> same_proc p k k'"
    "same_proc p k (put_state c w k') \<longleftrightarrow> same_proc p k k'"
  using assms by (simp_all add: same_proc_def put_reg_def put_state_def) (simp_all add: upd_proc_def)

lemma same_proc_frame [simp]:
  "same_proc p k (preemption_enable k') \<longleftrightarrow> same_proc p k k'"
  "same_proc p k (preemption_disable k') \<longleftrightarrow> same_proc p k k'"
  "same_proc p k (set_receiver ch i q k') \<longleftrightarrow> same_proc p k k'"
  by (simp_all add: same_proc_def preemption_enable_def preemption_disable_def set_receiver_def)

lemma same_proc_with_state [simp]:
  "c \<noteq> p \<Longrightarrow> same_proc p k (snd (with_state c f k')) \<longleftrightarrow> same_proc p k k'"
  by (simp add: with_state_def split: prod.split)

lemma spares_if: "(b \<Longrightarrow> spares p k x) \<Longrightarrow> (\<not> b \<Longrightarrow> spares p k y) \<Longrightarrow> spares p k (if b then x else y)"
  by simp

lemma spares_shift: "same_proc p k k1 \<Longrightarrow> spares p k1 r \<Longrightarrow> spares p k r"
  by (cases r) (auto intro: same_proc_trans)

lemma spares_bind:
  assumes "spares p k m" "\<And>x k1. same_proc p k k1 \<Longrightarrow> spares p k (f (x, k1))"
  shows "spares p k (ebind m f)"
proof (cases m)
  case (Inr r)
  then show ?thesis using assms by (cases r) simp
qed simp

section \<open>Moving capabilities\<close>

lemma interprocess_move_spares:
  assumes inv: "kinv k" and q: "s < N_PROC" "d < N_PROC" "s \<noteq> p" "d \<noteq> p"
  shows "spares p k (interprocess_move s sc d dc k)"
proof (cases "node_live (ks_nodes k) (slot_of s sc) \<and> \<not> node_live (ks_nodes k) (slot_of d dc)")
  case False
  then have "\<exists>v. interprocess_move s sc d dc k = Inr (v, k)"
    by (cases "node_live (ks_nodes k) (slot_of s sc)")
      (simp_all add: interprocess_move_def cap_node_of_runs inv q node_live_deleted)
  then show ?thesis by auto
next
  case True
  let ?x = "cn_cap (ks_nodes k (slot_of s sc))"
  have x: "cap_at (ks_nodes k) (slot_of s sc) ?x" using True by (simp add: cap_at_def)
  show ?thesis
  proof (cases "spent_time ?x")
    case spent: True
    have "interprocess_move s sc d dc k = Inl Assert_failed"
      using True by (simp add: interprocess_move_def cap_node_of_runs inv q node_live_deleted
          get_cap_live hook_spent [OF spent] Let_def)
    then show ?thesis by simp
  next
    case False
    then obtain k' where "interprocess_move s sc d dc k = Inr (err ERROR_OK, k')"
      "\<forall>n y. cap_at (ks_nodes k') n y \<longleftrightarrow>
         (if n = slot_of d dc then y = ?x else n \<noteq> slot_of s sc \<and> cap_at (ks_nodes k) n y)"
      "ks_procs k' = ks_procs k"
      using interprocess_move_effect [OF inv q(1,2) x] True by blast
    then show ?thesis using q by (simp add: same_proc_def)
  qed
qed

lemma move_cap_spares:
  assumes inv: "kinv k" and c: "ks_current k = Some c" "c \<noteq> p"
  shows "spares p k (syscall_move_cap sc dc k)"
proof (cases "node_live (ks_nodes k) (slot_of c sc) \<and> \<not> node_live (ks_nodes k) (slot_of c dc)")
  case False
  then have "\<exists>o'. syscall_move_cap sc dc k = Inr (o', k)"
    using move_cap_effect(1,2) [OF inv c(1), of sc dc] by auto
  then show ?thesis by auto
next
  case True
  then have "cap_at (ks_nodes k) (slot_of c sc) (cn_cap (ks_nodes k (slot_of c sc)))" by (simp add: cap_at_def)
  from move_cap_effect(3) [OF inv c(1) this, of dc] True obtain h' where
    "syscall_move_cap sc dc k = Inr (Return (err ERROR_OK), k\<lparr>ks_nodes := h'\<rparr>)"
    "\<forall>n y. cap_at h' n y \<longleftrightarrow> (if n = slot_of c dc then y = cn_cap (ks_nodes k (slot_of c sc))
       else n \<noteq> slot_of c sc \<and> cap_at (ks_nodes k) n y)" by blast
  then show ?thesis using c(2) by (simp add: same_proc_def)
qed

lemma update_receiver_frame:
  "update_receiver q n ch k = Inr k' \<Longrightarrow> ks_procs k' = ks_procs k \<and> ks_nodes k' = ks_nodes k \<and>
    ks_current k' = ks_current k \<and> ks_hartid k' = ks_hartid k \<and> ks_mtimecmp k' = ks_mtimecmp k"
  by (auto simp: update_receiver_def ebind_Inr_iff set_receiver_def Let_def split: if_splits)

lemma ebind_frame:
  "ebind m f = Inr y \<Longrightarrow> (\<And>x. m = Inr x \<Longrightarrow> P x) \<Longrightarrow> (\<And>x. P x \<Longrightarrow> f x = Inr y \<Longrightarrow> Q) \<Longrightarrow> Q"
  by (auto simp: ebind_Inr_iff)

lemma update_hook_frame:
  assumes "cap_update_hook q n x k = Inr k'"
  shows "ks_procs k' = ks_procs k \<and> ks_nodes k' = ks_nodes k \<and>
    ks_current k' = ks_current k \<and> ks_hartid k' = ks_hartid k \<and> ks_mtimecmp k' = ks_mtimecmp k"
proof -
  let ?same = "\<lambda>k1. ks_procs k1 = ks_procs k \<and> ks_nodes k1 = ks_nodes k \<and>
    ks_current k1 = ks_current k \<and> ks_hartid k1 = ks_hartid k \<and> ks_mtimecmp k1 = ks_mtimecmp k"
  have r: "?same k2" if "?same k1" "(if b then update_receiver q n ch k1 else Inr k1) = Inr k2" for b ch k1 k2
    using that update_receiver_frame by (auto split: if_splits)
  from assms show ?thesis unfolding cap_update_hook_def
  proof (rule ebind_frame [where P = ?same])
    fix k1
    assume "?same k1" "ebind (if cap_is_type x CAP_TYPE_RECEIVER
      then update_receiver q n (cap_receiver_get_channel x) k1 else Inr k1) (\<lambda>k.
      if cap_is_type x CAP_TYPE_SERVER then update_receiver q n (cap_server_get_channel x) k else Inr k) = Inr k'"
    then obtain k2 where k2: "?same k1" "(if cap_is_type x CAP_TYPE_RECEIVER
        then update_receiver q n (cap_receiver_get_channel x) k1 else Inr k1) = Inr k2"
      "(if cap_is_type x CAP_TYPE_SERVER
        then update_receiver q n (cap_server_get_channel x) k2 else Inr k2) = Inr k'"
      by (elim ebind_InrE) blast
    show ?thesis by (rule r [OF r [OF k2(1,2)] k2(3)])
  qed (auto simp: ebind_Inr_iff Let_def split: if_splits)
qed

lemma delete_cap_procs:
  assumes "syscall_delete_cap sc k = Inr (o', k')"
  shows "ks_procs k' = ks_procs k"
  using assms by (auto simp: syscall_delete_cap_def assert_current_def node_delete_def ebind_Inr_iff
      Let_def dest!: update_hook_frame split: if_splits option.splits)

lemma delete_cap_spares:
  assumes inv: "kinv k" and c: "ks_current k = Some c" "c \<noteq> p"
  shows "spares p k (syscall_delete_cap sc k)"
proof (cases "node_live (ks_nodes k) (slot_of c sc)")
  case False
  then show ?thesis using delete_cap_effect(1) [OF inv c(1)] by simp
next
  case True
  then have x: "cap_at (ks_nodes k) (slot_of c sc) (cn_cap (ks_nodes k (slot_of c sc)))" by (simp add: cap_at_def)
  show ?thesis
  proof (cases "spent_time (cn_cap (ks_nodes k (slot_of c sc)))")
    case spent: True
    show ?thesis using delete_cap_effect(2) [OF inv c(1) x spent] by simp
  next
    case False
    from delete_cap_effect(3) [OF inv c(1) x False] obtain k' where
      "syscall_delete_cap sc k = Inr (Return (err ERROR_OK), k')"
      "\<forall>n y. cap_at (ks_nodes k') n y \<longleftrightarrow> n \<noteq> slot_of c sc \<and> cap_at (ks_nodes k) n y" by blast
    moreover from this have "ks_procs k' = ks_procs k" using delete_cap_procs by blast
    ultimately show ?thesis using c(2) by (simp add: same_proc_def)
  qed
qed

lemma put_procs:
  "i \<noteq> c \<Longrightarrow> ks_procs (put_reg c r v k) i = ks_procs k i"
  "ks_procs (preemption_enable k) = ks_procs k" "ks_procs (preemption_disable k) = ks_procs k"
  by (simp_all add: put_reg_def upd_proc_def preemption_enable_def preemption_disable_def)

lemma derive_body_spares:
  assumes inv: "kinv k" and q: "c < N_PROC" "c \<noteq> p"
    and live: "node_live (ks_nodes k) (slot_of c sc)" "\<not> node_live (ks_nodes k) (slot_of c dc)"
    and d: "cap_can_derive (cn_cap (ks_nodes k (slot_of c sc))) new"
  shows "spares p k (derive_body c (slot_of c sc) (slot_of c dc) (cn_cap (ks_nodes k (slot_of c sc))) new k)"
proof -
  from derive_body_runs [OF inv q(1) refl _ live(1) refl _ live(2) d] q(1)
  obtain k' p' where "derive_body c (slot_of c sc) (slot_of c dc) (cn_cap (ks_nodes k (slot_of c sc))) new k =
      Inr (Return (err ERROR_OK), k')" "ks_procs k' = ks_procs k"
    "\<forall>n x. cap_at (ks_nodes k') n x \<longleftrightarrow>
       (if n = slot_of c dc then x = new else if n = slot_of c sc then x = p' else cap_at (ks_nodes k) n x)"
    by auto
  then show ?thesis using q(2) by (simp add: same_proc_def)
qed

lemma derive_cap_spares:
  assumes inv: "kinv k" and c: "ks_current k = Some c" "c \<noteq> p"
  shows "spares p k (syscall_derive_cap irq sc dc w0 w1 k)"
proof -
  have q: "c < N_PROC" by (rule kinvD(6) [OF inv c(1)])
  let ?h = "ks_nodes k" and ?new = "\<lparr>word0 = w0, word1 = w1\<rparr>"
  let ?k = "preemption_enable (put_reg c A0 (err ERROR_PREEMPTED) k)"
  let ?x = "cn_cap (?h (slot_of c sc))"
  have k: "kinv (preemption_disable ?k)" using inv by simp
  show ?thesis
  proof (cases "irq \<or> \<not> node_live ?h (slot_of c sc) \<or> node_live ?h (slot_of c dc) \<or> \<not> cap_can_derive ?x ?new")
    case True
    then have "\<exists>x k'. syscall_derive_cap irq sc dc w0 w1 k = Inr (x, k') \<and> (k' = ?k \<or> k' = preemption_disable ?k)"
      by (auto simp: syscall_derive_cap_def assert_current_def c cap_node_of_runs inv q node_live_deleted
          get_cap_live Let_def)
    then show ?thesis using c(2) by auto
  next
    case False
    then have live: "node_live ?h (slot_of c sc)" "\<not> node_live ?h (slot_of c dc)" "cap_can_derive ?x ?new" "\<not> irq"
      by simp_all
    have "syscall_derive_cap irq sc dc w0 w1 k =
      derive_body c (slot_of c sc) (slot_of c dc) ?x ?new (preemption_disable ?k)"
      using live by (simp add: syscall_derive_cap_def derive_body_def assert_current_def c cap_node_of_runs inv q
          node_live_deleted get_cap_live Let_def)
    moreover have "spares p (preemption_disable ?k)
        (derive_body c (slot_of c sc) (slot_of c dc) ?x ?new (preemption_disable ?k))"
      using derive_body_spares [OF k q c(2), of sc dc ?new] live by simp
    moreover have "same_proc p k (preemption_disable ?k)" using c(2) by simp
    ultimately show ?thesis by (metis spares_shift)
  qed
qed

lemma revoke_cap_spares:
  assumes inv: "kinv k" and c: "ks_current k = Some c" "c \<noteq> p"
  shows "spares p k (syscall_revoke_cap irq sc k)"
proof -
  have q: "c < N_PROC" by (rule kinvD(6) [OF inv c(1)])
  let ?h = "ks_nodes k" and ?sn = "slot_of c sc"
  let ?k = "preemption_enable (put_reg c A0 (err ERROR_PREEMPTED) k)"
  note n = cap_node_of_runs inv q
  show ?thesis
  proof (cases "irq 0 \<or> irq 1 \<or> node_live ?h ?sn")
    case True
    then have "\<exists>x k'. syscall_revoke_cap irq sc k = Inr (x, k') \<and> (k' = ?k \<or> k' = preemption_disable ?k)"
      by (auto simp: syscall_revoke_cap_def assert_current_def c n node_live_deleted Let_def
          revoke_loop.simps)
    then show ?thesis using c(2) by auto
  next
    case False
    then have run: "syscall_revoke_cap irq sc k = ebind (revoke_update_cap (cn_cap (?h ?sn))) (\<lambda>cap'.
        ebind (cap_update_hook (Some c) ?sn (cn_cap (?h ?sn))
          ((preemption_disable ?k)\<lparr>ks_nodes := set_cap ?h ?sn cap'\<rparr>)) (\<lambda>k.
        Inr (Return (err ERROR_OK), k)))"
      by (simp add: syscall_revoke_cap_def assert_current_def c n node_live_deleted Let_def
          revoke_loop.simps)
    show ?thesis
    proof (cases "syscall_revoke_cap irq sc k")
      case (Inr y)
      then obtain cap' k2 where y: "y = (Return (err ERROR_OK), k2)"
        "cap_update_hook (Some c) ?sn (cn_cap (?h ?sn))
          ((preemption_disable ?k)\<lparr>ks_nodes := set_cap ?h ?sn cap'\<rparr>) = Inr k2"
        unfolding run by (auto simp: ebind_Inr_iff)
      from update_hook_frame [OF y(2)] c(2) show ?thesis
        unfolding Inr y(1) by (simp add: same_proc_def put_procs cap_at_def)
    qed simp
  qed
qed

section \<open>Supervision and messages\<close>

lemma with_supervisee_spares:
  assumes inv: "kinv k" and i: "i \<noteq> p"
    and body: "\<And>k1. kinv k1 \<Longrightarrow> spares p k1 (body k1)"
  shows "spares p k (with_supervisee i body k)"
proof -
  obtain ok k1 where w: "with_state i proc_supervisor_acquire k = (ok, k1)"
    by (cases "with_state i proc_supervisor_acquire k")
  have same: "same_proc p k k1"
    using same_proc_with_state [OF i, of k proc_supervisor_acquire k] w by simp
  have "kinv k1" using with_stateE(1) [OF w] inv by simp
  note b = body [OF this]
  show ?thesis
  proof (cases "body k1")
    case (Inl e)
    then show ?thesis using same by (simp add: with_supervisee_def w)
  next
    case (Inr y)
    obtain v k2 where y: "y = (v, k2)" by (cases y)
    then have "same_proc p k k2" using b Inr same same_proc_trans by simp
    then show ?thesis
      using same Inr y i
      by (cases "proc_supervisor_release (state_of k2 i)") (simp_all add: with_supervisee_def w)
  qed
qed

lemma supervisor_spares:
  assumes inv: "kinv k" and c: "ks_current k = Some c" "c \<noteq> p"
    and cap: "cap_is_type cap CAP_TYPE_SUPERVISOR" "cap_ok cap" "Supervise p \<notin> authority cap"
  shows "spares p k (syscall_invoke_supervisor c cap pid op a0 a1 k)"
proof (cases "cap_supervisor_get_free cap > pid \<or> pid \<ge> cap_supervisor_get_end cap")
  case True
  then show ?thesis using cap by (simp add: syscall_invoke_supervisor_def)
next
  case False
  have q: "c < N_PROC" by (rule kinvD(6) [OF inv c(1)])
  have f: "unat (cap_supervisor_get_free cap) \<le> unat pid" "unat pid < unat (cap_supervisor_get_end cap)"
    using False by (simp_all add: not_less not_le word_le_nat_alt word_less_nat_alt)
  then have i: "unat pid < N_PROC" "unat pid \<noteq> p" using cap by (auto simp: cap_ok_simps authority_simps)
  have give: "spares p k (with_supervisee (unat pid) (interprocess_move c a0 (unat pid) a1) k)"
    using interprocess_move_spares q i c(2) by (intro with_supervisee_spares [OF inv]) blast+
  have take: "spares p k (with_supervisee (unat pid) (interprocess_move (unat pid) a0 c a1) k)"
    using interprocess_move_spares q i c(2) by (intro with_supervisee_spares [OF inv]) blast+
  have rreg: "spares p k (with_supervisee (unat pid) (\<lambda>k. Inr (err ERROR_OK,
      put_reg c A1 (proc_read_register (ks_procs k (unat pid)) a0) k)) k)"
    by (rule with_supervisee_spares [OF inv i(2)]) (simp add: c(2))
  have wreg: "spares p k (with_supervisee (unat pid) (\<lambda>k. Inr (err ERROR_OK,
      upd_proc (unat pid) (\<lambda>p. snd (proc_write_register p a0 a1)) k)) k)"
    by (rule with_supervisee_spares [OF inv i(2)]) (simp add: i(2))
  have rcap: "spares p k (with_supervisee (unat pid) (\<lambda>k. ebind (cap_node_of k (unat pid) a0) (\<lambda>node.
      let cap = cap_node_get_cap (ks_nodes k) node
      in Inr (err ERROR_OK, put_reg c A2 (word1 cap) (put_reg c A1 (word0 cap) k)))) k)"
    by (rule with_supervisee_spares [OF inv i(2)]) (simp add: cap_node_of_runs [OF _ i(1)] Let_def c(2))
  obtain ok1 k1 where s1: "with_state (unat pid) proc_supervisor_suspend k = (ok1, k1)" by fastforce
  obtain ok2 k2 where s2: "with_state (unat pid) proc_supervisor_resume k = (ok2, k2)" by fastforce
  have "same_proc p k k1" "same_proc p k k2"
    using same_proc_with_state [OF i(2), of k proc_supervisor_suspend k] s1
      same_proc_with_state [OF i(2), of k proc_supervisor_resume k] s2 by simp_all
  then show ?thesis
    using False i cap(1) give take rreg wreg rcap c(2)
    unfolding syscall_invoke_supervisor_def
    by (simp add: s1 s2 Let_def del: sup_num.simps err.simps)
qed

text \<open>A sender acquires only a process that waits on its channel.\<close>

lemma acquire_spares:
  assumes w: "with_state r (\<lambda>w. proc_sender_acquire w ch) k = (ok, k1)"
    and no: "state_of k p \<noteq> on_channel ch PROC_STATE_WAITING"
  shows "same_proc p k k1" "ok \<Longrightarrow> r \<noteq> p"
proof -
  have k1: "k1 = put_state r (snd (proc_sender_acquire (state_of k r) ch)) k"
    "ok = fst (proc_sender_acquire (state_of k r) ch)"
    using w by (auto simp: with_state_def split: prod.splits)
  have "\<not> fst (proc_sender_acquire (state_of k p) ch) \<and>
      snd (proc_sender_acquire (state_of k p) ch) = state_of k p"
    using no by (simp add: proc_sender_acquire_def)
  then show "ok \<Longrightarrow> r \<noteq> p" "same_proc p k k1"
    unfolding k1 by (auto simp: same_proc_def put_state_def upd_proc_def state_of_def)
qed

lemma deliver_spares:
  assumes inv: "kinv k" and q: "c < N_PROC" "r < N_PROC" "c \<noteq> p" "r \<noteq> p"
    and d: "deliver c r m0 m1 m2 m3 src k = Inr k'"
  shows "same_proc p k k'"
proof -
  note mv = interprocess_move_spares [OF inv q, of src "p_regs (ks_procs k r) DEST_CIDX"]
  show ?thesis
    using d mv q(4) by (auto simp: deliver_def ebind_Inr_iff Let_def split: if_splits)
qed

text \<open>The common part of the three calls that send: acquire the other side, hand over, go on.\<close>

lemma sending_spares:
  assumes inv: "kinv k" and q: "c < N_PROC" "r < N_PROC" "c \<noteq> p"
    and no: "state_of k p \<noteq> on_channel ch PROC_STATE_WAITING"
    and fail: "\<And>k1. same_proc p k k1 \<Longrightarrow> spares p k (f k1)"
    and after: "\<And>k2. same_proc p k k2 \<Longrightarrow> r \<noteq> p \<Longrightarrow> spares p k (g k2)"
  shows "spares p k (case with_state r (\<lambda>w. proc_sender_acquire w ch) k of (ok, k1) \<Rightarrow>
    if \<not> ok then f k1 else ebind (deliver c r m0 m1 m2 m3 src k1) g)"
proof -
  obtain ok k1 where w: "with_state r (\<lambda>w. proc_sender_acquire w ch) k = (ok, k1)" by fastforce
  note a = acquire_spares [OF w no]
  have k1: "kinv k1" using with_stateE(1) [OF w] inv by simp
  show ?thesis
  proof (cases ok)
    case False
    then show ?thesis using w fail [OF a(1)] by simp
  next
    case True
    show ?thesis
    proof (cases "deliver c r m0 m1 m2 m3 src k1")
      case (Inr k2)
      have "same_proc p k k2"
        using deliver_spares [OF k1 q a(2) Inr] True a(1) same_proc_trans by blast
      then show ?thesis using w True Inr after a(2) by simp
    qed (use w True in simp)
  qed
qed

lemma wait_spares: "same_proc p k k1 \<Longrightarrow> c \<noteq> p \<Longrightarrow> spares p k (wait_and_yield c ch k1)"
  by (simp add: wait_and_yield_def)

lemma sender_spares:
  assumes inv: "kinv k" and c: "ks_current k = Some c" "c \<noteq> p"
    and cap: "cap_is_type cap CAP_TYPE_SENDER" "cap_ok cap"
    and no: "state_of k p \<noteq> on_channel (cap_sender_get_channel cap) PROC_STATE_WAITING"
  shows "spares p k (syscall_invoke_sender c cap m0 m1 m2 m3 src k)"
proof -
  have ch: "unat (cap_sender_get_channel cap) < N_CHANNELS" using cap by (simp add: cap_ok_simps)
  show ?thesis
  proof (cases "ks_receivers k (unat (cap_sender_get_channel cap)) 0")
    case None
    then show ?thesis using cap ch by (simp add: syscall_invoke_sender_def receiver_at_def Let_def)
  next
    case (Some r)
    have "syscall_invoke_sender c cap m0 m1 m2 m3 src k =
      (case with_state r (\<lambda>w. proc_sender_acquire w (cap_sender_get_channel cap)) k of (ok, k1) \<Rightarrow>
         if \<not> ok then Inr (Return (err ERROR_NO_RECEIVER), k1)
         else ebind (deliver c r m0 m1 m2 m3 src k1) (\<lambda>k.
           Inr (Return (err ERROR_OK), put_state r (proc_sender_release (state_of k r)) k)))"
      using cap ch Some by (simp add: syscall_invoke_sender_def receiver_at_def Let_def)
    moreover have "spares p k \<dots>"
      by (rule sending_spares [OF inv kinvD(6) [OF inv c(1)] tables_receiver [OF inv Some] c(2) no]) simp_all
    ultimately show ?thesis by (rule ssubst)
  qed
qed

lemma server_spares:
  assumes inv: "kinv k" and c: "ks_current k = Some c" "c \<noteq> p"
    and cap: "cap_is_type cap CAP_TYPE_SERVER" "cap_ok cap"
    and no: "state_of k p \<noteq> on_channel (cap_server_get_channel cap) PROC_STATE_WAITING"
  shows "spares p k (syscall_invoke_server c cap m0 m1 m2 m3 src f k)"
proof -
  have ch: "unat (cap_server_get_channel cap) < N_CHANNELS" using cap by (simp add: cap_ok_simps)
  show ?thesis
  proof (cases "ks_receivers k (unat (cap_server_get_channel cap)) 1")
    case None
    then show ?thesis using cap ch c(2)
      by (simp add: syscall_invoke_server_def receiver_at_def Let_def wait_spares)
  next
    case (Some r)
    have "syscall_invoke_server c cap m0 m1 m2 m3 src f k =
      (case with_state r (\<lambda>w. proc_sender_acquire w (cap_server_get_channel cap)) k of (ok, k1) \<Rightarrow>
         if \<not> ok then wait_and_yield c (cap_server_get_channel cap) k1
         else ebind (deliver c r m0 m1 m2 m3 src k1) (\<lambda>k.
           wait_and_yield c (cap_server_get_channel cap)
             (put_state r (proc_sender_release (state_of k r)) k)))"
      using cap ch Some by (auto simp: syscall_invoke_server_def receiver_at_def Let_def ebind_assoc split: prod.split)
    moreover have "spares p k \<dots>"
      by (rule sending_spares [OF inv kinvD(6) [OF inv c(1)] tables_receiver [OF inv Some] c(2) no])
        (simp_all add: wait_spares c(2))
    ultimately show ?thesis by (rule ssubst)
  qed
qed

lemma client_spares:
  assumes inv: "kinv k" and c: "ks_current k = Some c" "c \<noteq> p"
    and cap: "cap_is_type cap CAP_TYPE_CLIENT" "cap_ok cap"
    and no: "state_of k p \<noteq> on_channel (cap_client_get_channel cap) PROC_STATE_WAITING"
  shows "spares p k (syscall_invoke_client c cap m0 m1 m2 m3 src k)"
proof -
  let ?ch = "cap_client_get_channel cap"
  have ch: "unat ?ch < N_CHANNELS" using cap by (simp add: cap_ok_simps)
  show ?thesis
  proof (cases "ks_receivers k (unat ?ch) 0")
    case None
    then show ?thesis using cap ch by (simp add: syscall_invoke_client_def receiver_at_def Let_def)
  next
    case (Some r)
    have "syscall_invoke_client c cap m0 m1 m2 m3 src k =
      (case with_state r (\<lambda>w. proc_sender_acquire w ?ch) k of (ok, k1) \<Rightarrow>
         if \<not> ok then Inr (Return (err ERROR_NO_RECEIVER), k1)
         else ebind (deliver c r m0 m1 m2 m3 src k1) (\<lambda>k.
           let k = set_receiver (unat ?ch) 1
                     (snd (compare_and_swap (ks_receivers k (unat ?ch) 1) None (Some c))) k;
               k = snd (with_state c (\<lambda>w. proc_receiver_wait w ?ch) k);
               k = put_reg c A0 (err ERROR_INTERRUPTED) k
           in Inr (Yield, put_state r (proc_sender_release (state_of k r)) k)))"
      using cap ch Some by (simp add: syscall_invoke_client_def receiver_at_def Let_def del: err.simps)
    moreover have "spares p k \<dots>"
      by (rule sending_spares [OF inv kinvD(6) [OF inv c(1)] tables_receiver [OF inv Some] c(2) no])
        (simp_all add: c(2) Let_def)
    ultimately show ?thesis by (rule ssubst)
  qed
qed

section \<open>Traps\<close>

lemma no_send:
  assumes "\<not> acts_on k c p" "cap_at (ks_nodes k) (Slot c j) x" "Send (unat ch) \<in> authority x"
  shows "state_of k p \<noteq> on_channel ch PROC_STATE_WAITING"
  using assms unfolding acts_on_def by (metis of_nat_unat ucast_id)

lemma invoke_cap_spares:
  assumes inv: "kinv k" and c: "ks_current k = Some c" "c \<noteq> p" and no: "\<not> acts_on k c p"
  shows "spares p k (syscall_invoke_cap cidx a1 a2 a3 a4 a5 a6 a7 k)"
proof -
  have q: "c < N_PROC" by (rule kinvD(6) [OF inv c(1)])
  define cap where "cap = cap_node_get_cap (ks_nodes k) (slot_of c cidx)"
  have run: "syscall_invoke_cap cidx a1 a2 a3 a4 a5 a6 a7 k =
    (if cap_is_type cap CAP_TYPE_EMPTY then Inr (Return (err ERROR_EMPTY), k)
     else if cap_is_type cap CAP_TYPE_SUPERVISOR then syscall_invoke_supervisor c cap a1 a2 a3 a4 k
     else if cap_is_type cap CAP_TYPE_RECEIVER then syscall_invoke_receiver c cap a1 a2 a3 a4 k
     else if cap_is_type cap CAP_TYPE_SENDER then syscall_invoke_sender c cap a1 a2 a3 a4 a5 k
     else if cap_is_type cap CAP_TYPE_SERVER then syscall_invoke_server c cap a1 a2 a3 a4 a5 a6 k
     else if cap_is_type cap CAP_TYPE_CLIENT then syscall_invoke_client c cap a1 a2 a3 a4 a5 k
     else Inr (Return (err ERROR_UNIMPLEMENTED), k))"
    by (simp only: syscall_invoke_cap_def deref_current_def c(1) option.case ebind_simps
        cap_node_of_runs [OF inv q] Let_def cap_def)
  show ?thesis
  proof (cases "node_live (ks_nodes k) (slot_of c cidx)")
    case False
    then have "cap = NULL_CAP" by (simp add: cap_def cap_node_get_cap_def node_live_deleted Let_def)
    then have "cap_is_type cap CAP_TYPE_EMPTY" by (simp add: cap_is_type_def cap_get_type_def NULL_CAP_def)
    then show ?thesis unfolding run by simp
  next
    case True
    then have at: "cap_at (ks_nodes k) (slot_of c cidx) cap"
      by (simp add: cap_at_def cap_def get_cap_live)
    have ok: "cap_ok cap" by (rule caps_invD(3) [OF kinvD(1) [OF inv] at])
    have sup: "Supervise p \<notin> authority cap" using no at unfolding acts_on_def by blast
    note ns = no_send [OF no at]
    show ?thesis unfolding run
    proof (intro spares_if)
      assume t: "cap_is_type cap CAP_TYPE_SUPERVISOR"
      then show "spares p k (syscall_invoke_supervisor c cap a1 a2 a3 a4 k)"
        by (rule supervisor_spares [OF inv c _ ok sup])
    next
      assume t: "cap_is_type cap CAP_TYPE_RECEIVER"
      then show "spares p k (syscall_invoke_receiver c cap a1 a2 a3 a4 k)"
        using c(2) by (simp add: syscall_invoke_receiver_def wait_spares)
    next
      assume t: "cap_is_type cap CAP_TYPE_SENDER"
      show "spares p k (syscall_invoke_sender c cap a1 a2 a3 a4 a5 k)"
        by (rule sender_spares [OF inv c t ok ns]) (simp add: authority_simps(7) [OF t])
    next
      assume t: "cap_is_type cap CAP_TYPE_SERVER"
      show "spares p k (syscall_invoke_server c cap a1 a2 a3 a4 a5 a6 k)"
        by (rule server_spares [OF inv c t ok ns]) (simp add: authority_simps(6) [OF t])
    next
      assume t: "cap_is_type cap CAP_TYPE_CLIENT"
      show "spares p k (syscall_invoke_client c cap a1 a2 a3 a4 a5 k)"
        by (rule client_spares [OF inv c t ok ns]) (simp add: authority_simps(8) [OF t])
    qed simp_all
  qed
qed

lemma register_spares:
  assumes "kinv k" "ks_current k = Some c" "c \<noteq> p"
  shows "spares p k (syscall_read_reg r k)" "spares p k (syscall_write_reg r v k)"
    "spares p k (syscall_get_pid k)" "spares p k (syscall_yield k)" "spares p k (syscall_unimplemented k)"
    "spares p k (syscall_read_cap cidx k)"
  using assms
  by (simp_all add: syscall_read_reg_def syscall_write_reg_def syscall_get_pid_def syscall_yield_def
      syscall_unimplemented_def syscall_read_cap_def deref_current_def assert_current_def
      cap_node_of_runs kinvD(6) Let_def)

lemmas handler_spares = register_spares move_cap_spares delete_cap_spares revoke_cap_spares derive_cap_spares

lemma vector_spares:
  assumes "kinv k" "ks_current k = Some c" "c \<noteq> p" "\<not> acts_on k c p"
  shows "spares p k (syscall_vector irq n r k)"
  unfolding syscall_vector_def if_distrib [where f = "\<lambda>f. f k"]
  by (intro spares_if; (rule invoke_cap_spares [OF assms] | rule handler_spares [OF assms(1-3)]))

lemma trap_entry_ecall:
  assumes "ks_current k = Some c"
  shows "trap_entry hw MCAUSE_U_ECALL mtval irq k =
    ebind (if NUM_OF_SYSNR \<le> unat (hw T0) then syscall_unimplemented (entered c hw k)
       else syscall_vector irq (unat (hw T0)) (p_regs (ks_procs (entered c hw k) c)) (entered c hw k))
      (\<lambda>(out, k). case out of Return v \<Rightarrow> Inr (True, put_reg c A0 v k) | Yield \<Rightarrow> Inr (False, k))"
proof (cases "NUM_OF_SYSNR \<le> unat (hw T0)")
  case True
  have "\<not> bit MCAUSE_U_ECALL 63" using bit_push_mask [of 3 1 63] by (simp add: MCAUSE_U_ECALL_def)
  then show ?thesis
    using True assms
    by (simp add: trap_entry_def trap_syscall_def deref_current_def Let_def entered_def put_reg_def
        upd_proc_def save_context_def)
qed (use trap_ecall [OF assms] in simp)

lemma trap_spares:
  assumes inv: "kinv k" and c: "ks_current k = Some c" "c \<noteq> p" and no: "\<not> acts_on k c p"
  shows "spares p k (trap_entry hw mcause mtval irq k)"
proof -
  have st: "state_of (entered c hw k) p = state_of k p" "state_of (upd_proc c (save_context hw) k) p = state_of k p"
    using c(2) by (simp_all add: entered_def state_of_def put_reg_def upd_proc_def)
  consider "bit mcause 63" | "\<not> bit mcause 63" "mcause \<noteq> MCAUSE_U_ECALL" | "\<not> bit mcause 63" "mcause = MCAUSE_U_ECALL"
    by blast
  then show ?thesis
  proof cases
    case 3
    note e = entered_frame [of c hw k]
    have same: "same_proc p k (entered c hw k)" using c(2) by (simp add: entered_def)
    have v: "spares p k (if NUM_OF_SYSNR \<le> n then syscall_unimplemented (entered c hw k)
        else syscall_vector irq n r (entered c hw k))" for n r
    proof (intro spares_if spares_shift [OF same])
      show "spares p (entered c hw k) (syscall_unimplemented (entered c hw k))"
        by (simp add: syscall_unimplemented_def)
      show "spares p (entered c hw k) (syscall_vector irq n r (entered c hw k))"
        using vector_spares [of "entered c hw k" c p irq n r] inv c no st(1) by (simp add: acts_on_def)
    qed
    have "trap_entry hw mcause mtval irq k =
      ebind (if NUM_OF_SYSNR \<le> unat (hw T0) then syscall_unimplemented (entered c hw k)
         else syscall_vector irq (unat (hw T0)) (p_regs (ks_procs (entered c hw k) c)) (entered c hw k))
        (\<lambda>(out, k). case out of Return v \<Rightarrow> Inr (True, put_reg c A0 v k) | Yield \<Rightarrow> Inr (False, k))"
      using trap_entry_ecall [OF c(1), of hw mtval irq] 3(2) by simp
    moreover have "spares p k \<dots>"
      by (rule spares_bind [OF v]) (simp add: c(2) split: outcome.split)
    ultimately show ?thesis by simp
  qed (simp_all add: trap_entry_def deref_current_def c Let_def)
qed

text \<open>C4: a trap reaches only where a capability points. If the running process holds no
  supervisor capability over process \<open>p\<close> and no capability to send on a channel \<open>p\<close> waits
  on, its trap, whatever it asks for, leaves the registers, the state and the capabilities
  of \<open>p\<close> as they were.\<close>

theorem trap_locality:
  assumes "reachable k" "ks_current k = Some c" "c \<noteq> p" "\<not> acts_on k c p"
    and "trap_entry hw mcause mtval irq k = Inr (resumes, k')"
  shows "ks_procs k' p = ks_procs k p \<and>
    (\<forall>j x. cap_at (ks_nodes k') (Slot p j) x \<longleftrightarrow> cap_at (ks_nodes k) (Slot p j) x)"
  using trap_spares [OF reachable_kinv [OF assms(1)] assms(2-4), of hw mcause mtval irq] assms(5)
  by (simp add: same_proc_def)

text \<open>Process 1 holds nothing at boot: even an exception of its own leaves the root alone.\<close>

theorem trap_locality_witness:
  "\<exists>k'. trap_entry (\<lambda>_. 0) 5 7 (\<lambda>_. False) ((root_running 0 1)\<lparr>ks_current := Some 1\<rparr>) = Inr (True, k') \<and>
    ks_procs k' 0 = boot_procs 0 0 \<and> cap_at (ks_nodes k') (Slot 0 3) (boot_cap 0 3)"
proof -
  let ?k = "(root_running 0 1)\<lparr>ks_current := Some 1\<rparr>"
  have e: "(root_running 0 1)\<lparr>ks_hartid := 1, ks_current := Some 1\<rparr> = ?k"
    by (simp add: root_running_def boot_state_def bss_def)
  have "kstep (root_running 0 1) ((root_running 0 1)\<lparr>ks_hartid := 1, ks_current := Some 1\<rparr>)"
    by (rule kstep.enter) (simp_all add: hart_ok_def config_defs)
  then have r: "reachable ?k" unfolding e by (rule reachable_step [OF root_reachable])
  have a: "\<not> acts_on ?k 1 0" by (simp add: acts_on_def boot_cap_at)
  have "\<not> bit (5 :: u64) 63" by (simp add: bit_numeral_word_iff)
  then obtain k' where "trap_entry (\<lambda>_. 0) 5 7 (\<lambda>_. False) ?k = Inr (True, k')"
    by (simp add: trap_entry_def deref_current_def MCAUSE_U_ECALL_def Let_def)
  with trap_locality [OF r _ _ a this] show ?thesis using root_time(1) by simp
qed

end
