(* ===== verification/Calls.thy ===== *)
theory Calls
  imports Locality
begin

text \<open>
  What the system calls are for, end to end: sending a message, revoking, and two sequences of
  calls that leave the kernel stopped or a channel bound to its first client for ever.
\<close>

section \<open>Deriving the rest of the time, then deleting\<close>

text \<open>The time a time capability still has, as one child.\<close>

definition rest_of :: "cap_t \<Rightarrow> cap_t" where
  "rest_of x = cap_mk_time (cap_time_get_hartid x) (cap_time_get_free x) (cap_time_get_end x) (cap_time_get_free x)"

lemma derive_rest:
  assumes "cap_is_type x CAP_TYPE_TIME" "\<not> spent_time x"
  shows "cap_can_derive x (rest_of x)" "derive_update_cap x (rest_of x) = Inr x' \<Longrightarrow> spent_time x'"
proof -
  have f: "fits 8 (cap_time_get_hartid x)" "fits 16 (cap_time_get_free x)" "fits 16 (cap_time_get_end x)"
    by (simp_all add: time_hartid.get_fits time_free.get_fits time_end.get_fits)
  note g = mk_time_get [OF f(1,2,3,2), folded rest_of_def]
  have t: "cap_is_type (rest_of x) CAP_TYPE_TIME" using g(1) by (simp add: cap_is_type_def)
  show d: "cap_can_derive x (rest_of x)"
    using g t assms(1,2) by (simp add: can_derive_simps spent_time_def)
  assume u: "derive_update_cap x (rest_of x) = Inr x'"
  show "spent_time x'"
    using rtime.derived_parent [OF assms(1) t u] g(4) by (simp add: spent_time_def)
qed

lemma derive_rest_effect:
  assumes "kinv k" "ks_current k = Some c" "cap_at (ks_nodes k) (slot_of c sc) x"
    "cap_is_type x CAP_TYPE_TIME" "\<not> spent_time x" "\<not> node_live (ks_nodes k) (slot_of c dc)"
  shows "\<exists>k' x'. syscall_derive_cap False sc dc (word0 (rest_of x)) (word1 (rest_of x)) k =
      Inr (Return (err ERROR_OK), k') \<and> kinv k' \<and> ks_current k' = Some c \<and>
    cap_at (ks_nodes k') (slot_of c sc) x' \<and> spent_time x'"
proof -
  note d = derive_rest [OF assms(4,5)]
  have e: "\<lparr>word0 = word0 (rest_of x), word1 = word1 (rest_of x)\<rparr> = rest_of x" by simp
  obtain k' x' where k': "syscall_derive_cap False sc dc (word0 (rest_of x)) (word1 (rest_of x)) k =
      Inr (Return (err ERROR_OK), k')" "derive_update_cap x (rest_of x) = Inr x'"
    "\<forall>n y. cap_at (ks_nodes k') n y \<longleftrightarrow>
       (if n = slot_of c dc then y = rest_of x else if n = slot_of c sc then y = x' else cap_at (ks_nodes k) n y)"
    using derive_cap_effect [OF assms(1-3,6), of "word0 (rest_of x)" "word1 (rest_of x)", unfolded e, OF d(1)] by blast
  have "slot_of c sc \<noteq> slot_of c dc" using assms(3,6) by (auto simp: cap_at_def)
  then have "cap_at (ks_nodes k') (slot_of c sc) x'" using k'(3) by simp
  moreover have "keeps k (syscall_derive_cap False sc dc (word0 (rest_of x)) (word1 (rest_of x)) k)"
    by (rule derive_cap_keeps [OF assms(1,2)])
  then have "kinv k'" "ks_current k' = Some c" unfolding k'(1) using assms(2) by simp_all
  ultimately show ?thesis using k'(1) d(2) [OF k'(2)] by blast
qed

text \<open>The registers of an \<open>ecall\<close>.\<close>

definition ecall_regs :: "nat \<Rightarrow> u64 list \<Rightarrow> regs" where
  "ecall_regs n args r =
     (if r = T0 then of_nat n else
      (case map_of (zip [A0, A1, A2, A3, A4, A5, A6, A7] args) r of None \<Rightarrow> 0 | Some v \<Rightarrow> v))"

lemma derive_trap:
  assumes "ks_current k = Some c"
  shows "trap_entry (ecall_regs (call_num ECALL_DERIVE_CAP) [a, b, w0, w1]) MCAUSE_U_ECALL 0 (\<lambda>_. False) k =
    ebind (syscall_derive_cap False a b w0 w1
        (entered c (ecall_regs (call_num ECALL_DERIVE_CAP) [a, b, w0, w1]) k))
      (\<lambda>(out, k). case out of Return v \<Rightarrow> Inr (True, put_reg c A0 v k) | Yield \<Rightarrow> Inr (False, k))"
  by (subst trap_ecall [OF assms]) (simp_all add: ecall_regs_def NUM_OF_SYSNR_def syscall_vector_def)

lemma delete_trap:
  assumes "ks_current k = Some c"
  shows "trap_entry (ecall_regs (call_num ECALL_DELETE_CAP) [a]) MCAUSE_U_ECALL 0 (\<lambda>_. False) k =
    ebind (syscall_delete_cap a (entered c (ecall_regs (call_num ECALL_DELETE_CAP) [a]) k))
      (\<lambda>(out, k). case out of Return v \<Rightarrow> Inr (True, put_reg c A0 v k) | Yield \<Rightarrow> Inr (False, k))"
  by (subst trap_ecall [OF assms]) (simp_all add: ecall_regs_def NUM_OF_SYSNR_def syscall_vector_def)

text \<open>C35: whoever holds time can stop the kernel. Two system calls are enough: derive all the
  time that is left into a free slot, then delete what remains; the second fails an
  assertion.\<close>

theorem time_holder_can_halt:
  assumes "kinv k" "ks_current k = Some c" "cap_at (ks_nodes k) (slot_of c sc) x"
    "cap_is_type x CAP_TYPE_TIME" "\<not> spent_time x" "\<not> node_live (ks_nodes k) (slot_of c dc)"
  shows "\<exists>k'. trap_entry (ecall_regs (call_num ECALL_DERIVE_CAP) [sc, dc, word0 (rest_of x), word1 (rest_of x)])
      MCAUSE_U_ECALL 0 (\<lambda>_. False) k = Inr (True, k') \<and>
    trap_entry (ecall_regs (call_num ECALL_DELETE_CAP) [sc]) MCAUSE_U_ECALL 0 (\<lambda>_. False) k' = Inl Assert_failed"
proof -
  let ?r = "ecall_regs (call_num ECALL_DERIVE_CAP) [sc, dc, word0 (rest_of x), word1 (rest_of x)]"
  let ?k = "entered c ?r k" and ?r' = "ecall_regs (call_num ECALL_DELETE_CAP) [sc]"
  obtain k' x' where k': "syscall_derive_cap False sc dc (word0 (rest_of x)) (word1 (rest_of x)) ?k =
      Inr (Return (err ERROR_OK), k')" "kinv k'" "ks_current k' = Some c"
    "cap_at (ks_nodes k') (slot_of c sc) x'" "spent_time x'"
    using derive_rest_effect [of ?k c sc x dc] assms by auto
  let ?k' = "put_reg c A0 (err ERROR_OK) k'"
  have "syscall_delete_cap sc (entered c ?r' ?k') = Inl Assert_failed"
    by (rule delete_cap_effect(2) [OF _ _ _ k'(5)]) (use k' in simp_all)
  moreover have "ks_current ?k' = Some c" using k'(3) by simp
  ultimately have "trap_entry ?r' MCAUSE_U_ECALL 0 (\<lambda>_. False) ?k' = Inl Assert_failed"
    by (simp only: delete_trap) simp
  moreover have "trap_entry ?r MCAUSE_U_ECALL 0 (\<lambda>_. False) k = Inr (True, ?k')"
    using k'(1) by (simp only: derive_trap [OF assms(2)]) simp
  ultimately show ?thesis by blast
qed

theorem time_holder_can_halt_witness:
  "\<exists>k'. trap_entry (ecall_regs 5 [3, 8, word0 (rest_of (boot_cap 0 3)), word1 (rest_of (boot_cap 0 3))])
      8 0 (\<lambda>_. False) (root_running 0 1) = Inr (True, k') \<and>
    trap_entry (ecall_regs 3 [3]) 8 0 (\<lambda>_. False) k' = Inl Assert_failed"
proof -
  have at: "cap_at (ks_nodes (root_running 0 1)) (slot_of 0 3) (boot_cap 0 3)"
    using root_time(1) by (simp only: slot_of_numeral)
  have nd: "\<not> node_live (ks_nodes (root_running 0 1)) (slot_of 0 8)"
    unfolding slot_of_numeral by (rule root_free) simp
  from time_holder_can_halt [OF root_kinv _ at root_time(2) root_not_spent nd]
  show ?thesis by (simp add: MCAUSE_U_ECALL_def)
qed

section \<open>Messages\<close>

text \<open>C15: a send that hands over no capability (its source index is no slot) delivers. If the
  owner of the channel waits on it, the four words and the error code arrive in its registers
  \<open>a0\<close> .. \<open>a4\<close> and it becomes ready; the rest of the kernel state is as it was, the other
  processes, the capabilities, the receivers of the channels, the schedule and the timers
  included.\<close>

theorem message_delivered:
  assumes "kinv k" "ks_current k = Some c"
    and "cap_at (ks_nodes k) (slot_of c cidx) s" "cap_is_type s CAP_TYPE_SENDER"
    and "cap_at (ks_nodes k) (Slot r j) x"
      "cap_is_type x CAP_TYPE_RECEIVER \<and> cap_receiver_get_channel x = cap_sender_get_channel s \<or>
       cap_is_type x CAP_TYPE_SERVER \<and> cap_server_get_channel x = cap_sender_get_channel s"
    and "state_of k r = on_channel (cap_sender_get_channel s) PROC_STATE_WAITING" "N_CAPS \<le> unat src"
  shows "\<exists>k'. syscall_invoke_cap cidx m0 m1 m2 m3 src a6 a7 k = Inr (Return (err ERROR_OK), k') \<and>
    k' = k\<lparr>ks_procs := (ks_procs k)(r := (ks_procs k r)
      \<lparr>p_regs := (p_regs (ks_procs k r))(A0 := err ERROR_OK, A1 := m0, A2 := m1, A3 := m2, A4 := m3),
       p_state := pstate PROC_STATE_READY\<rparr>)\<rparr>"
  using send_delivers [OF assms(1-4) refl assms(5-8)] .

lemma derive_step:
  assumes "kinv k" "ks_current k = Some c" "cap_at (ks_nodes k) (slot_of c sc) x"
    "\<not> node_live (ks_nodes k) (slot_of c dc)" "cap_can_derive x new"
  obtains k' x' where "kinv k'" "ks_current k' = Some c" "derive_update_cap x new = Inr x'"
    "\<And>n y. cap_at (ks_nodes k') n y \<longleftrightarrow>
       (if n = slot_of c dc then y = new else if n = slot_of c sc then y = x' else cap_at (ks_nodes k) n y)"
    "\<And>ch. ks_receivers k' ch 1 = ks_receivers k ch 1"
proof -
  have e: "\<lparr>word0 = word0 new, word1 = word1 new\<rparr> = new" by simp
  obtain k' x' where "syscall_derive_cap False sc dc (word0 new) (word1 new) k = Inr (Return (err ERROR_OK), k')"
    "derive_update_cap x new = Inr x'" "\<forall>n y. cap_at (ks_nodes k') n y \<longleftrightarrow>
       (if n = slot_of c dc then y = new else if n = slot_of c sc then y = x' else cap_at (ks_nodes k) n y)"
    "hook_effect c new (ks_schedule k) (ks_receivers k) (ks_schedule k') (ks_receivers k')"
    using derive_cap_effect [OF assms(1-4), of "word0 new" "word1 new", unfolded e, OF assms(5)] by blast
  moreover from this(1) have "kinv k'" "ks_current k' = Some c"
    using derive_cap_keeps [OF assms(1,2), of False sc dc "word0 new" "word1 new"] assms(2) by simp_all
  moreover from \<open>hook_effect c new _ _ _ _\<close> have "ks_receivers k' ch 1 = ks_receivers k ch 1" for ch
    by (simp add: hook_effect_def)
  ultimately show ?thesis using that by blast
qed

lemma live_cap_at: "is_slot n \<Longrightarrow> node_live h n \<longleftrightarrow> (\<exists>x. cap_at h n x)"
  by (simp add: cap_at_def)

text \<open>The root makes two capabilities for a channel, keeps one and hands the other to process 1.\<close>

lemma boot_channel_pair:
  assumes d: "cap_can_derive (boot_cap 0 1) x" "cap_can_derive x y" "derive_update_cap x y = Inr x" "\<not> spent_time x"
  obtains k where "kinv k" "ks_current k = Some 0" "cap_at (ks_nodes k) (Slot 1 0) x" "cap_at (ks_nodes k) (slot_of 0 9) y"
    "\<And>ch. ks_receivers k ch 1 = None"
proof -
  have ch: "cap_at (ks_nodes (root_running 0 1)) (slot_of 0 1) (boot_cap 0 1)"
    unfolding slot_of_numeral by (simp add: boot_cap_at)
  have nd: "\<not> node_live (ks_nodes (root_running 0 1)) (slot_of 0 8)"
    unfolding slot_of_numeral by (rule root_free) simp
  obtain k1 x1 where k1: "kinv k1" "ks_current k1 = Some 0"
    "\<And>n y. cap_at (ks_nodes k1) n y \<longleftrightarrow> (if n = slot_of 0 8 then y = x else
       if n = slot_of 0 1 then y = x1 else cap_at (ks_nodes (root_running 0 1)) n y)"
    "\<And>ch. ks_receivers k1 ch 1 = None"
    by (rule derive_step [OF root_kinv _ ch nd d(1)]) simp_all
  have at1: "cap_at (ks_nodes k1) (slot_of 0 8) x" "\<not> node_live (ks_nodes k1) (slot_of 0 9)"
    using root_free [of 9 0] unfolding slot_of_numeral by (simp_all add: live_cap_at k1(3) slot_of_numeral)
  obtain k2 x2 where k2': "kinv k2" "ks_current k2 = Some 0" "derive_update_cap x y = Inr x2"
    "\<And>n z. cap_at (ks_nodes k2) n z \<longleftrightarrow> (if n = slot_of 0 9 then z = y else
       if n = slot_of 0 8 then z = x2 else cap_at (ks_nodes k1) n z)"
    "\<And>ch. ks_receivers k2 ch 1 = ks_receivers k1 ch 1"
    by (rule derive_step [OF k1(1,2) at1 d(2)]) (rule that, assumption+)
  have "x2 = x" using k2'(3) d(3) by simp
  note k2 = k2'(1,2,4,5) [unfolded this]
  have at2: "cap_at (ks_nodes k2) (slot_of 0 8) x" "\<not> node_live (ks_nodes k2) (slot_of 1 0)"
    unfolding slot_of_numeral
    by (simp_all add: live_cap_at k2(3) k1(3) slot_of_numeral boot_cap_at)
  have p: "0 < N_PROC" "1 < N_PROC" by (simp_all add: config_defs)
  obtain k3 where k3: "interprocess_move 0 8 1 0 k2 = Inr (err ERROR_OK, k3)"
    "\<forall>n z. cap_at (ks_nodes k3) n z \<longleftrightarrow> (if n = slot_of 1 0 then z = x else
       n \<noteq> slot_of 0 8 \<and> cap_at (ks_nodes k2) n z)"
    "hook_effect 1 x (ks_schedule k2) (ks_receivers k2) (ks_schedule k3) (ks_receivers k3)"
    using interprocess_move_effect [OF k2(1) p at2 d(4)] by blast
  have k3i: "kinv k3" "ks_current k3 = Some 0"
    using interprocess_move_keeps(1) [OF k2(1) p, of 8 0] k2(2) unfolding k3(1) by simp_all
  show ?thesis
  proof (rule that [OF k3i])
    show "cap_at (ks_nodes k3) (Slot 1 0) x" "cap_at (ks_nodes k3) (slot_of 0 9) y"
      unfolding slot_of_numeral by (simp_all add: k3(2) k2(3) slot_of_numeral)
    show "ks_receivers k3 ch 1 = None" for ch using k3(3) k2(4) k1(4) by (simp add: hook_effect_def)
  qed
qed

text \<open>A receiver and a sender, a server and a client for channel 0.\<close>

lemma channel_0_caps:
  "cap_is_type (cap_mk_receiver 0 0) CAP_TYPE_RECEIVER" "cap_receiver_get_channel (cap_mk_receiver 0 0) = 0"
  "cap_is_type (cap_mk_sender 0 0) CAP_TYPE_SENDER" "cap_sender_get_channel (cap_mk_sender 0 0) = 0"
  "derive_update_cap (cap_mk_receiver 0 0) (cap_mk_sender 0 0) = Inr (cap_mk_receiver 0 0)"
  "cap_can_derive (boot_cap 0 1) (cap_mk_receiver 0 0)" "cap_can_derive (cap_mk_receiver 0 0) (cap_mk_sender 0 0)"
  "cap_is_type (cap_mk_server 0 0) CAP_TYPE_SERVER" "cap_server_get_channel (cap_mk_server 0 0) = 0"
  "cap_is_type (cap_mk_client 0 0) CAP_TYPE_CLIENT" "cap_client_get_channel (cap_mk_client 0 0) = 0"
  "derive_update_cap (cap_mk_server 0 0) (cap_mk_client 0 0) = Inr (cap_mk_server 0 0)"
  "cap_can_derive (boot_cap 0 1) (cap_mk_server 0 0)" "cap_can_derive (cap_mk_server 0 0) (cap_mk_client 0 0)"
  by code_simp+

lemma channel_0_not_spent: "\<not> spent_time (cap_mk_receiver 0 0)" "\<not> spent_time (cap_mk_server 0 0)"
  using channel_0_caps(1,8) by (simp_all add: spent_time_def type_eqs)

theorem message_delivered_witness:
  "\<exists>k k'. kinv k \<and> syscall_invoke_cap 9 11 22 33 44 64 0 0 k = Inr (Return 0, k') \<and>
    map (p_regs (ks_procs k' 1)) [A0, A1, A2, A3, A4] = [0, 11, 22, 33, 44] \<and>
    state_of k' 1 = pstate PROC_STATE_READY"
proof -
  obtain k3 where k3: "kinv k3" "ks_current k3 = Some 0" "cap_at (ks_nodes k3) (Slot 1 0) (cap_mk_receiver 0 0)"
    "cap_at (ks_nodes k3) (slot_of 0 9) (cap_mk_sender 0 0)"
    using boot_channel_pair [OF channel_0_caps(6,7,5) channel_0_not_spent(1)] by blast
  let ?k = "put_state 1 (on_channel 0 PROC_STATE_WAITING) k3"
  have k: "kinv ?k" "ks_current ?k = Some 0" "cap_at (ks_nodes ?k) (slot_of 0 9) (cap_mk_sender 0 0)"
    "cap_at (ks_nodes ?k) (Slot 1 0) (cap_mk_receiver 0 0)" using k3 by simp_all
  obtain k' where "syscall_invoke_cap 9 11 22 33 44 64 0 0 ?k = Inr (Return (err ERROR_OK), k')"
    "ks_procs k' = (ks_procs ?k)(1 := (ks_procs ?k 1)\<lparr>p_regs := (p_regs (ks_procs ?k 1))
      (A0 := err ERROR_OK, A1 := 11, A2 := 22, A3 := 33, A4 := 44), p_state := pstate PROC_STATE_READY\<rparr>)"
    using message_delivered [OF k(1-3) channel_0_caps(3) k(4), of 64 11 22 33 44 0 0]
    by (auto simp: channel_0_caps config_defs)
  then show ?thesis using k(1) by (intro exI [of _ ?k] exI [of _ k']) (simp add: state_of_def)
qed

section \<open>Revoking\<close>

text \<open>C21: as it stands, revoking revokes nothing. Whatever slot it is called on, and whenever
  timer interrupts arrive, \<open>syscall_revoke_cap\<close> leaves every capability of every process
  where it was; on a capability that is there it refuses with \<open>ERROR_EMPTY\<close>.\<close>

theorem revoke_never_revokes:
  assumes "kinv k" "ks_current k = Some c"
  shows "case syscall_revoke_cap irq sc k of Inl e \<Rightarrow> e = Assert_failed
    | Inr (out, k') \<Rightarrow> (\<forall>n x. cap_at (ks_nodes k') n x \<longleftrightarrow> cap_at (ks_nodes k) n x) \<and>
        (node_live (ks_nodes k) (slot_of c sc) \<longrightarrow> out \<in> {Yield, Return (err ERROR_EMPTY)})"
proof -
  let ?h = "ks_nodes k" and ?sn = "slot_of c sc"
  let ?k = "preemption_enable (put_reg c A0 (err ERROR_PREEMPTED) k)"
  note n = cap_node_of_runs assms(1) kinvD(6) [OF assms]
  show ?thesis
  proof (cases "irq 0 \<or> irq 1 \<or> node_live ?h ?sn")
    case True
    then have "\<exists>out k'. syscall_revoke_cap irq sc k = Inr (out, k') \<and> (k' = ?k \<or> k' = preemption_disable ?k) \<and>
        out \<in> {Yield, Return (err ERROR_EMPTY)}"
      by (auto simp: syscall_revoke_cap_def assert_current_def assms(2) n node_live_deleted Let_def
          revoke_loop.simps)
    then show ?thesis by auto
  next
    case False
    then have run: "syscall_revoke_cap irq sc k = ebind (revoke_update_cap (cn_cap (?h ?sn))) (\<lambda>cap'.
        ebind (cap_update_hook (Some c) ?sn (cn_cap (?h ?sn))
          ((preemption_disable ?k)\<lparr>ks_nodes := set_cap ?h ?sn cap'\<rparr>)) (\<lambda>k.
        Inr (Return (err ERROR_OK), k)))"
      by (simp add: syscall_revoke_cap_def assert_current_def assms(2) n node_live_deleted Let_def
          revoke_loop.simps)
    show ?thesis
    proof (cases "syscall_revoke_cap irq sc k")
      case (Inl e)
      then show ?thesis using revoke_cap_keeps [OF assms, of irq sc] by simp
    next
      case (Inr y)
      then obtain cap' k2 where y: "y = (Return (err ERROR_OK), k2)"
        "cap_update_hook (Some c) ?sn (cn_cap (?h ?sn))
          ((preemption_disable ?k)\<lparr>ks_nodes := set_cap ?h ?sn cap'\<rparr>) = Inr k2"
        unfolding run by (auto simp: ebind_Inr_iff)
      then have "ks_nodes k2 = set_cap ?h ?sn cap'" using update_hook_frame by fastforce
      then show ?thesis using False unfolding Inr y(1) by (auto simp: cap_at_def)
    qed
  qed
qed

text \<open>Slot 3 of the root holds the time of hart 1; revoking it is refused.\<close>

theorem revoke_never_revokes_witness:
  "\<exists>k'. syscall_revoke_cap (\<lambda>_. False) 3 (root_running 0 1) = Inr (Return (err ERROR_EMPTY), k') \<and>
    cap_at (ks_nodes k') (Slot 0 4) (boot_cap 0 4)"
proof -
  have live: "node_live (ks_nodes (root_running 0 1)) (slot_of 0 3)"
    using root_time(1) unfolding slot_of_numeral by (simp add: cap_at_def)
  obtain k' where k': "syscall_revoke_cap (\<lambda>_. False) 3 (root_running 0 1) = Inr (Return (err ERROR_EMPTY), k')"
    using revoke_live [OF root_kinv _ live, of "\<lambda>_. False"] by auto
  from revoke_never_revokes [OF root_kinv, where c = 0 and irq = "\<lambda>_. False" and sc = 3, unfolded this]
  have "cap_at (ks_nodes k') (Slot 0 4) (boot_cap 0 4)" by (simp add: boot_cap_at)
  with k' show ?thesis by blast
qed

text \<open>The loop itself, on a node that is there.\<close>

lemma ring_linked: "ring h s (us @ n # xs) \<Longrightarrow> linked h n (hd (xs @ [s])) \<and> hd (xs @ [s]) \<noteq> n"
proof -
  assume r: "ring h s (us @ n # xs)"
  then have "successively (linked h) ((s # us) @ n # xs @ [s])" by (simp add: ring_def)
  then have "successively (linked h) (n # xs @ [s])" by (simp only: successively_append_iff)
  with r show ?thesis by (cases xs) (auto simp: ring_def)
qed

lemma slice_time: "Slice h q \<in> authority x \<Longrightarrow> cap_is_type x CAP_TYPE_TIME"
  by (auto simp: authority_def split: if_splits)

text \<open>The quanta a process takes back, and those it leaves as they were.\<close>

definition regains :: "nat \<Rightarrow> cap_t set \<Rightarrow> schedule \<Rightarrow> schedule \<Rightarrow> bool" where
  "regains c X s s' \<longleftrightarrow> (\<forall>q h. MIN_HARTID \<le> h \<longrightarrow>
     (if \<exists>x \<in> X. Slice h q \<in> authority x then fst (entry_at s' q h) = c
      else entry_at s' q h = entry_at s q h))"

lemma regains_empty: "regains c {} s s"
  by (simp add: regains_def)

lemma regains_step:
  "hook_effect c x s r s1 r1 \<Longrightarrow> regains c X s1 s' \<Longrightarrow> regains c (insert x X) s s'"
  unfolding regains_def hook_effect_def by (smt (verit) fst_conv insert_iff slice_time)

text \<open>One round: the child behind the node is deleted and its time goes to the caller.\<close>

lemma revoke_round:
  assumes t: "tables_ok k" "raw_ok (ks_nodes k)" "c < N_PROC" and r: "rep (ks_nodes k) L" "L kd = us @ node # n # xs"
    and ch: "cap_is_child cap (cn_cap (ks_nodes k n))" and i: "\<not> irq i"
  shows "spent_time (cn_cap (ks_nodes k n)) \<Longrightarrow> revoke_loop irq i c node cap k = Some (Inl Assert_failed)"
    and "\<not> spent_time (cn_cap (ks_nodes k n)) \<Longrightarrow> \<exists>k2. revoke_loop irq i c node cap k = revoke_loop irq (Suc i) c node cap k2 \<and>
      tables_ok k2 \<and> raw_ok (ks_nodes k2) \<and> rep (ks_nodes k2) (L(kd := us @ node # xs)) \<and>
      (\<forall>m. cn_cap (ks_nodes k2 m) = cn_cap (ks_nodes k m)) \<and>
      (\<exists>r'. hook_effect c (cn_cap (ks_nodes k n)) (ks_schedule k) (ks_receivers k) (ks_schedule k2) r')"
proof -
  let ?h = "ks_nodes k" and ?x = "cn_cap (ks_nodes k n)"
  have rg: "ring ?h (Sentinel kd) (us @ node # n # xs)" using repD(1) [OF r(1), of kd] r(2) by simp
  have live: "\<not> cap_node_is_deleted ?h node"
    using ring_live [OF rg] by (simp add: cap_node_is_deleted_def)
  have ln: "linked ?h node n" using ring_linked [OF rg] by simp
  then have nx: "cn_next (?h node) = Some n" by (simp add: linked_def)
  let ?m = "hd (xs @ [Sentinel kd])"
  let ?h' = "heap_delete n node ?m ?h"
  have lm: "linked ?h n ?m" "?m \<noteq> n" using ring_linked [of ?h "Sentinel kd" "us @ [node]" n xs] rg by simp_all
  have del: "cap_node_delete2 n node ?h = Inr (True, ?h')" by (rule delete2_runs [OF ln lm])
  have "n \<in> set (L kd)" using r(2) by simp
  from rep_delete [OF r(1) this ln lm(1)]
  have "rep ?h' (L(kd := remove1 n (us @ node # n # xs)))" using r(2) by simp
  moreover have "distinct (us @ node # n # xs)" using rg by (simp add: ring_def)
  then have "remove1 n (us @ node # n # xs) = us @ node # xs" by (simp add: remove1_append)
  ultimately have rp: "rep ?h' (L(kd := us @ node # xs))" by simp
  let ?k1 = "(preemption_disable k)\<lparr>ks_nodes := ?h'\<rparr>"
  have run: "revoke_loop irq i c node cap k = (case cap_update_hook (Some c) node ?x ?k1 of Inl e \<Rightarrow> Some (Inl e)
      | Inr k2 \<Rightarrow> revoke_loop irq (Suc i) c node cap (preemption_enable k2))"
    using live nx ch i del by (subst revoke_loop.simps) (simp add: Let_def)
  show "spent_time ?x \<Longrightarrow> revoke_loop irq i c node cap k = Some (Inl Assert_failed)"
    by (simp add: run hook_spent)
  assume ns: "\<not> spent_time ?x"
  have t1: "tables_ok ?k1" using t(1) by (simp add: tables_ok_def preemption_disable_def)
  have l1: "node_live (ks_nodes ?k1) node"
    using ring_live [OF repD(1) [OF rp, of kd], of node] by (simp add: node_live_def)
  have sl: "is_slot n" using repD(2) [OF r(1), of n kd] r(2) by simp
  have ok: "cap_ok ?x" using t(2) sl by (simp add: raw_ok_def)
  obtain s' l1 r' l2 where hk: "cap_update_hook (Some c) node ?x ?k1 = Inr (with_tables ?k1 s' l1 r' l2)"
    "lock_free l1" "lock_free l2" "hook_effect c ?x (ks_schedule ?k1) (ks_receivers ?k1) s' r'"
    using hook_live [OF t1 t(3) ok ns l1] by blast
  let ?k2 = "preemption_enable (with_tables ?k1 s' l1 r' l2)"
  have "sched_valid s'" "\<forall>ch i p. r' ch i = Some p \<longrightarrow> p < N_PROC"
    using hook_effect_valid [OF _ hk(4) t(3)] hook_effect_receivers [OF hk(4) t(3)] t1
    by (simp_all add: tables_ok_def)
  then have "tables_ok ?k2"
    using t1 hk(2,3) by (simp add: tables_ok_def preemption_enable_def preemption_disable_def)
  moreover have "cn_cap (?h' y) = cn_cap (?h y)" for y by (rule heap_delete_cap)
  moreover from this have "raw_ok ?h'" using t(2) by (simp add: raw_ok_def)
  moreover have "ks_schedule ?k2 = s'" "ks_schedule ?k1 = ks_schedule k" "ks_receivers ?k1 = ks_receivers k"
    by (simp_all add: preemption_enable_def preemption_disable_def)
  ultimately show "\<exists>k2. revoke_loop irq i c node cap k = revoke_loop irq (Suc i) c node cap k2 \<and>
      tables_ok k2 \<and> raw_ok (ks_nodes k2) \<and> rep (ks_nodes k2) (L(kd := us @ node # xs)) \<and>
      (\<forall>m. cn_cap (ks_nodes k2 m) = cn_cap (?h m)) \<and>
      (\<exists>r'. hook_effect c ?x (ks_schedule k) (ks_receivers k) (ks_schedule k2) r')"
    using run hk(1,4) rp by (intro exI [of _ ?k2]) auto
qed

lemma revoke_stops:
  assumes "rep (ks_nodes k) L" "L kd = us @ node # xs" "\<not> cap_is_child cap (cn_cap (ks_nodes k (hd (xs @ [Sentinel kd]))))"
  shows "\<not> irq i \<Longrightarrow> revoke_loop irq i c node cap k = Some (Inr (False, k))"
proof -
  have r: "ring (ks_nodes k) (Sentinel kd) (us @ node # xs)" using repD(1) [OF assms(1), of kd] assms(2) by simp
  have "\<not> cap_node_is_deleted (ks_nodes k) node"
    using ring_live [OF r] by (simp add: cap_node_is_deleted_def)
  moreover have "cn_next (ks_nodes k node) = Some (hd (xs @ [Sentinel kd]))" using ring_linked [OF r] by (simp add: linked_def)
  ultimately show "\<not> irq i \<Longrightarrow> revoke_loop irq i c node cap k = Some (Inr (False, k))"
    using assms(3) by (subst revoke_loop.simps) (simp add: Let_def)
qed

text \<open>What the loop has done after deleting the first \<open>j\<close> nodes behind \<open>node\<close>.\<close>

definition revoked ::
    "nat \<Rightarrow> cap_lists \<Rightarrow> sentinel \<Rightarrow> node_ptr list \<Rightarrow> node_ptr \<Rightarrow> node_ptr list \<Rightarrow> nat \<Rightarrow> kstate \<Rightarrow> kstate \<Rightarrow> bool" where
  "revoked c L kd us node xs j k k' \<longleftrightarrow>
     rep (ks_nodes k') (L(kd := us @ node # drop j xs)) \<and>
     (\<forall>n. cn_cap (ks_nodes k' n) = cn_cap (ks_nodes k n)) \<and>
     regains c ((\<lambda>n. cn_cap (ks_nodes k n)) ` set (take j xs)) (ks_schedule k) (ks_schedule k')"

lemma revoked_0:
  "rep (ks_nodes k) L \<Longrightarrow> L kd = us @ node # xs \<Longrightarrow> revoked c L kd us node xs 0 k k"
  "rep (ks_nodes k) L \<Longrightarrow> L kd = us @ node # xs \<Longrightarrow> revoked c L kd us node xs 0 k (preemption_disable k)"
  by (simp_all add: revoked_def regains_empty preemption_disable_def fun_upd_idem)

lemma revoke_loop_run:
  assumes "tables_ok k" "raw_ok (ks_nodes k)" "c < N_PROC" "rep (ks_nodes k) L" "L kd = us @ node # xs"
    and "child = (\<lambda>n. cap_is_child cap (cn_cap (ks_nodes k n)))" "\<not> child (Sentinel kd)"
    and "cs = takeWhile child xs"
  shows "\<exists>j \<le> length cs. (\<forall>m < j. \<not> irq (i + m) \<and> \<not> spent_time (cn_cap (ks_nodes k (cs ! m)))) \<and>
    (if irq (i + j) \<or> j = length cs
     then \<exists>k'. revoke_loop irq i c node cap k = Some (Inr (irq (i + j), k')) \<and> revoked c L kd us node xs j k k'
     else spent_time (cn_cap (ks_nodes k (cs ! j))) \<and> revoke_loop irq i c node cap k = Some (Inl Assert_failed))"
  using assms
proof (induction xs arbitrary: k L i child cs)
  case Nil
  have "revoke_loop irq i c node cap k = Some (Inr (False, k))" if "\<not> irq i"
    using revoke_stops [OF Nil.prems(4,5)] Nil.prems(6,7) that by simp
  moreover have "revoke_loop irq i c node cap k = Some (Inr (True, preemption_disable k))" if "irq i"
    using that by (subst revoke_loop.simps) simp
  ultimately show ?case using revoked_0 [OF Nil.prems(4,5)] Nil.prems(8) by (cases "irq i") auto
next
  case (Cons n xs)
  show ?case
  proof (cases "irq i \<or> \<not> child n")
    case True
    have "revoke_loop irq i c node cap k = Some (Inr (False, k))" if "\<not> irq i"
      using revoke_stops [OF Cons.prems(4,5)] Cons.prems(6) True that by simp
    moreover have "revoke_loop irq i c node cap k = Some (Inr (True, preemption_disable k))" if "irq i"
      using that by (subst revoke_loop.simps) simp
    ultimately show ?thesis using revoked_0 [OF Cons.prems(4,5)] True Cons.prems(8)
      by (cases "irq i") (intro exI [of _ 0]; auto)+
  next
    case False
    then have ch: "cap_is_child cap (cn_cap (ks_nodes k n))" "\<not> irq i" using Cons.prems(6) by simp_all
    note round = revoke_round [where irq = irq and i = i, OF Cons.prems(1-5) ch]
    have cs: "cs = n # takeWhile child xs" using Cons.prems(8) False by simp
    show ?thesis
    proof (cases "spent_time (cn_cap (ks_nodes k n))")
      case True
      then show ?thesis using round(1) ch(2) cs by (intro exI [of _ 0]) simp
    next
      case False
      obtain k2 r' where k2: "revoke_loop irq i c node cap k = revoke_loop irq (Suc i) c node cap k2" "tables_ok k2"
        "raw_ok (ks_nodes k2)" "rep (ks_nodes k2) (L(kd := us @ node # xs))"
        "\<And>m. cn_cap (ks_nodes k2 m) = cn_cap (ks_nodes k m)"
        "hook_effect c (cn_cap (ks_nodes k n)) (ks_schedule k) (ks_receivers k) (ks_schedule k2) r'"
        using round(2) [OF False] by blast
      let ?cs = "takeWhile child xs"
      have L': "(L(kd := us @ node # xs)) kd = us @ node # xs" by simp
      have child': "child = (\<lambda>n. cap_is_child cap (cn_cap (ks_nodes k2 n)))" using Cons.prems(6) k2(5) by simp
      obtain j where j: "j \<le> length ?cs" "\<forall>m < j. \<not> irq (Suc i + m) \<and> \<not> spent_time (cn_cap (ks_nodes k (?cs ! m)))"
        "if irq (Suc i + j) \<or> j = length ?cs
         then \<exists>k'. revoke_loop irq (Suc i) c node cap k2 = Some (Inr (irq (Suc i + j), k')) \<and>
           revoked c (L(kd := us @ node # xs)) kd us node xs j k2 k'
         else spent_time (cn_cap (ks_nodes k (?cs ! j))) \<and> revoke_loop irq (Suc i) c node cap k2 = Some (Inl Assert_failed)"
        using Cons.IH [where i = "Suc i", OF k2(2,3) Cons.prems(3) k2(4) L' child' Cons.prems(7) refl, unfolded k2(5)] by blast
      have step: "revoked c L kd us node (n # xs) (Suc j) k k'"
        if "revoked c (L(kd := us @ node # xs)) kd us node xs j k2 k'" for k'
        using that regains_step [OF k2(6)] by (simp add: revoked_def k2(5))
      have m: "\<forall>m < Suc j. \<not> irq (i + m) \<and> \<not> spent_time (cn_cap (ks_nodes k (cs ! m)))"
        using j(2) ch(2) False by (simp add: cs All_less_Suc2)
      show ?thesis
        using j(1,3) m k2(1) step by (intro exI [of _ "Suc j"]) (auto simp: cs split: if_splits)
    qed
  qed
qed

text \<open>C20: the loop of \<open>syscall_revoke_cap\<close>, on a capability that is there and whose list ends in
  a sentinel that is not a child (it carries no capability since boot). For every pattern of
  timer interrupts the loop ends, and it deletes the children that follow the capability one
  by one from the front, nothing else, giving the caller the quanta of each deleted time
  capability and leaving the other entries of the schedule as they were. It gets as far as
  the first round with an interrupt, where the call is preempted, or else as the first child
  whose time is all derived away, where an assertion fails, or else through all children,
  and then it leaves the rest of the list in place.\<close>

theorem revoke_loop_deletes:
  assumes "tables_ok k" "raw_ok (ks_nodes k)" "c < N_PROC" "rep (ks_nodes k) L" "L kd = us @ node # xs"
    and "child = (\<lambda>n. cap_is_child cap (cn_cap (ks_nodes k n)))" "\<not> child (Sentinel kd)"
    and "cs = takeWhile child xs"
  shows "\<exists>j \<le> length cs. (\<forall>m < j. \<not> irq (i + m) \<and> \<not> spent_time (cn_cap (ks_nodes k (cs ! m)))) \<and>
    (if irq (i + j) \<or> j = length cs
     then \<exists>k'. revoke_loop irq i c node cap k = Some (Inr (irq (i + j), k')) \<and> revoked c L kd us node xs j k k'
     else spent_time (cn_cap (ks_nodes k (cs ! j))) \<and> revoke_loop irq i c node cap k = Some (Inl Assert_failed))"
  by (rule revoke_loop_run [OF assms])

text \<open>Half of the time of hart 1 derived from slot 3 into slot 8, and then taken back.\<close>

theorem revoke_loop_deletes_witness:
  "\<exists>k k'. cap_at (ks_nodes k) (Slot 0 8) half_hour \<and>
    revoke_loop (\<lambda>_. False) 1 0 (Slot 0 3) (cap_mk_time 1 0 128 64) k = Some (Inr (False, k')) \<and>
    rep (ks_nodes k') boot_lists"
proof -
  let ?p = "cap_mk_time 1 0 128 64"
  let ?h = "set_cap (boot_heap 0) (Slot 0 3) ?p"
  have l: "node_live ?h (Slot 0 3)" "\<not> node_live ?h (Slot 0 8)"
    by (simp_all add: node_live_def boot_heap_live del: not_None_eq)
  obtain kd m where kd: "Slot 0 3 \<in> set (boot_lists kd)"
    "rep (heap_insert half_hour (Slot 0 8) (Slot 0 3) m ?h)
      (boot_lists(kd := tl (insert_after (Slot 0 3) (Slot 0 8) (Sentinel kd # boot_lists kd))))"
    using rep_insert_effect [OF rep_set_cap [OF boot_rep] _ _ l, of half_hour] by auto
  then have kt: "kd = Time_sentinel" by (cases kd) auto
  let ?h1 = "heap_insert half_hour (Slot 0 8) (Slot 0 3) m ?h"
  let ?L = "boot_lists(Time_sentinel := [Slot 0 6, Slot 0 5, Slot 0 4, Slot 0 3, Slot 0 8])"
  let ?k = "(root_running 0 1)\<lparr>ks_nodes := ?h1\<rparr>"
  have r: "rep (ks_nodes ?k) ?L" using kd(2) by (simp add: kt)
  have caps: "cn_cap (?h1 n) = (if n = Slot 0 8 then half_hour else if n = Slot 0 3 then ?p else cn_cap (boot_heap 0 n))" for n
    by (simp add: heap_insert_cap)
  have "cap_ok half_hour" "cap_ok ?p" using derive_ok [OF hour_simps(4,3,5)] by simp_all
  then have "raw_ok (ks_nodes ?k)" using kinvD(2) [OF root_kinv] by (simp add: raw_ok_def caps)
  moreover have "tables_ok ?k" using kinvD(4) [OF root_kinv] by (simp add: tables_ok_def)
  moreover have "0 < N_PROC" by (simp add: config_defs)
  moreover have ch: "cap_is_child ?p half_hour" "\<not> cap_is_child ?p NULL_CAP" by code_simp+
  have "cn_cap (boot_heap 0 (Sentinel Time_sentinel)) = NULL_CAP" by (simp add: boot_heap_def)
  then have "\<not> cap_is_child ?p (cn_cap (ks_nodes ?k (Sentinel Time_sentinel)))" using ch(2) by (simp add: caps)
  moreover have "[Slot 0 8] = takeWhile (\<lambda>n. cap_is_child ?p (cn_cap (ks_nodes ?k n))) [Slot 0 8]"
    using ch(1) by (simp add: caps)
  moreover have "?L Time_sentinel = [Slot 0 6, Slot 0 5, Slot 0 4] @ Slot 0 3 # [Slot 0 8]" by simp
  ultimately obtain j where j: "j \<le> length [Slot 0 8]"
    "if j = length [Slot 0 8]
     then \<exists>k'. revoke_loop (\<lambda>_. False) 1 0 (Slot 0 3) ?p ?k = Some (Inr (False, k')) \<and>
       revoked 0 ?L Time_sentinel [Slot 0 6, Slot 0 5, Slot 0 4] (Slot 0 3) [Slot 0 8] j ?k k'
     else spent_time (cn_cap (ks_nodes ?k ([Slot 0 8] ! j))) \<and>
       revoke_loop (\<lambda>_. False) 1 0 (Slot 0 3) ?p ?k = Some (Inl Assert_failed)"
    using revoke_loop_deletes [where irq = "\<lambda>_. False" and i = 1 and k = ?k and c = 0 and cap = ?p, OF _ _ _ r _ refl]
    unfolding simp_thms by blast
  have "j = 1"
  proof (rule ccontr)
    assume "j \<noteq> 1"
    then have "j = 0" using j(1) by simp
    then show False using j(2) derive_not_spent [OF hour_simps(3)] by (simp add: caps)
  qed
  then obtain k' where k': "revoke_loop (\<lambda>_. False) 1 0 (Slot 0 3) ?p ?k = Some (Inr (False, k'))"
    "rep (ks_nodes k') (?L(Time_sentinel := [Slot 0 6, Slot 0 5, Slot 0 4, Slot 0 3]))"
    using j(2) by (auto simp: revoked_def)
  have "?L(Time_sentinel := [Slot 0 6, Slot 0 5, Slot 0 4, Slot 0 3]) = boot_lists"
    using fun_upd_triv [of boot_lists Time_sentinel] by simp
  moreover have "cap_at (ks_nodes ?k) (Slot 0 8) half_hour"
    using rep_live [OF r, of "Slot 0 8"] by (simp add: cap_at_def node_live_def caps) (metis fun_upd_same list.set_intros)
  ultimately show ?thesis using k' by metis
qed

section \<open>Clients\<close>

text \<open>C36: the first client of a channel stays its client for ever: once
  \<open>receivers[ch][1]\<close> is set, no trap of any process changes it.\<close>

theorem first_client_forever:
  assumes "kinv k" "ks_receivers k ch 1 = Some a" "kstep\<^sup>*\<^sup>* k k'"
  shows "ks_receivers k' ch 1 = Some a"
proof -
  from assms(3) have "kinv k' \<and> clients_kept k k'"
  proof (induction rule: rtranclp_induct)
    case base
    then show ?case using assms(1) by simp
  next
    case (step y z)
    then show ?case using kstep_keeps(1,3) [OF step(2)] clients_kept_trans by blast
  qed
  then show ?thesis using assms(2) by (simp add: clients_kept_def)
qed

theorem first_client_forever_witness:
  "ks_receivers ((set_receiver 5 1 (Some 0) (root_running 0 1))\<lparr>ks_hartid := 2, ks_current := Some 1\<rparr>) 5 1 = Some 0"
proof (rule first_client_forever)
  let ?k = "set_receiver 5 1 (Some 0) (root_running 0 1)"
  show "kinv ?k" by (rule kinv_set_client [OF root_kinv]) (simp add: config_defs)
  show "ks_receivers ?k 5 1 = Some 0" by (simp add: set_receiver_def)
  show "kstep\<^sup>*\<^sup>* ?k (?k\<lparr>ks_hartid := 2, ks_current := Some 1\<rparr>)"
    by (rule r_into_rtranclp, rule kstep.enter) (simp_all add: hart_ok_def config_defs)
qed

end
