(* ===== verification/Rpc.thy ===== *)
theory Rpc
  imports Calls
begin

text \<open>
  A remote call from end to end: the client's invocation carries its request to the server and
  leaves the client waiting on the channel; the server's next invocation carries the reply back
  and leaves the server waiting again.
\<close>

text \<open>A process after a message: the words in its registers, and ready to run.\<close>

definition received :: "u64 \<Rightarrow> u64 \<Rightarrow> u64 \<Rightarrow> u64 \<Rightarrow> proc \<Rightarrow> proc" where
  "received m0 m1 m2 m3 p = p\<lparr>p_regs := (p_regs p)(A0 := err ERROR_OK, A1 := m0, A2 := m1, A3 := m2, A4 := m3),
     p_state := pstate PROC_STATE_READY\<rparr>"

text \<open>A client after its call: it waits on the channel, and finds that it was interrupted should it
  be resumed before the reply.\<close>

definition calling :: "u64 \<Rightarrow> proc \<Rightarrow> proc" where
  "calling ch p = p\<lparr>p_regs := (p_regs p)(A0 := err ERROR_INTERRUPTED), p_state := on_channel ch PROC_STATE_WAITING\<rparr>"

lemma deliver_words: "N_CAPS \<le> unat src \<Longrightarrow> deliver c r m0 m1 m2 m3 src k =
    Inr (put_reg r A4 m3 (put_reg r A3 m2 (put_reg r A2 m1 (put_reg r A1 m0 (put_reg r A0 (err ERROR_OK) k)))))"
  by (simp add: deliver_def Let_def)

lemma release_receiving: "proc_sender_release (on_channel ch PROC_STATE_RECEIVING) = pstate PROC_STATE_READY"
  by (simp add: proc_sender_release_def fetch_and_and_def pstate_and)

lemma acquire_waiting:
  "state_of k r = on_channel ch PROC_STATE_WAITING \<Longrightarrow>
    with_state r (\<lambda>w. proc_sender_acquire w ch) k = (True, put_state r (on_channel ch PROC_STATE_RECEIVING) k)"
  by (simp add: with_state_def proc_sender_acquire_def)

lemma wait_running:
  "state_of k c = pstate PROC_STATE_RUNNING \<Longrightarrow>
    with_state c (\<lambda>w. proc_receiver_wait w ch) k = (True, put_state c (on_channel ch PROC_STATE_WAITING) k)"
  by (simp add: with_state_def proc_receiver_wait_def)

lemma set_receiver_frame: "state_of (set_receiver ch i p k) j = state_of k j"
  by (simp add: state_of_def set_receiver_def)

lemma invoke_runs:
  assumes inv: "kinv k" and c: "ks_current k = Some c" and x: "cap_at (ks_nodes k) (slot_of c cidx) x"
  shows "cap_is_type x CAP_TYPE_CLIENT \<Longrightarrow> syscall_invoke_cap cidx m0 m1 m2 m3 a5 a6 a7 k =
      syscall_invoke_client c x m0 m1 m2 m3 a5 k"
    "cap_is_type x CAP_TYPE_SERVER \<Longrightarrow> syscall_invoke_cap cidx m0 m1 m2 m3 a5 a6 a7 k =
      syscall_invoke_server c x m0 m1 m2 m3 a5 a6 k"
proof -
  have p: "c < N_PROC" by (rule kinvD(6) [OF inv c])
  have "node_live (ks_nodes k) (slot_of c cidx)" "cn_cap (ks_nodes k (slot_of c cidx)) = x"
    using x by (simp_all add: cap_at_def)
  note run = this inv p c syscall_invoke_cap_def deref_current_def cap_node_of_runs get_cap_live type_eqs Let_def
  show "cap_is_type x CAP_TYPE_CLIENT \<Longrightarrow> syscall_invoke_cap cidx m0 m1 m2 m3 a5 a6 a7 k =
      syscall_invoke_client c x m0 m1 m2 m3 a5 k" by (simp add: run)
  show "cap_is_type x CAP_TYPE_SERVER \<Longrightarrow> syscall_invoke_cap cidx m0 m1 m2 m3 a5 a6 a7 k =
      syscall_invoke_server c x m0 m1 m2 m3 a5 a6 k" by (simp add: run)
qed

lemma request_sent:
  assumes inv: "kinv k" and c: "ks_current k = Some c" "state_of k c = pstate PROC_STATE_RUNNING"
    and s: "cap_at (ks_nodes k) (slot_of c cidx) s" "cap_is_type s CAP_TYPE_CLIENT"
    and x: "cap_at (ks_nodes k) (Slot r j) x" "cap_is_type x CAP_TYPE_SERVER"
      "cap_server_get_channel x = cap_client_get_channel s"
    and w: "state_of k r = on_channel (cap_client_get_channel s) PROC_STATE_WAITING" "r \<noteq> c" "N_CAPS \<le> unat src"
  shows "\<exists>k1. syscall_invoke_cap cidx m0 m1 m2 m3 src a6 a7 k = Inr (Yield, k1) \<and>
    k1 = (if ks_receivers k (unat (cap_client_get_channel s)) 1 = None
        then set_receiver (unat (cap_client_get_channel s)) 1 (Some c) k else k)
      \<lparr>ks_procs := (ks_procs k)(r := received m0 m1 m2 m3 (ks_procs k r),
         c := calling (cap_client_get_channel s) (ks_procs k c))\<rparr>"
proof -
  let ?ch = "cap_client_get_channel s"
  have o: "ks_receivers k (unat ?ch) 0 = Some r" "unat ?ch < N_CHANNELS"
    using owner_of_channel [OF inv x(1), of ?ch] x(2,3) by blast+
  have st: "state_of k' r = on_channel ?ch PROC_STATE_RECEIVING \<Longrightarrow>
    proc_sender_release (state_of k' r) = pstate PROC_STATE_READY" for k' by (simp add: release_receiving)
  show ?thesis
    unfolding invoke_runs(1) [OF inv c(1) s]
    using s(2) o w c(2)
    by (simp add: syscall_invoke_client_def receiver_at_def Let_def acquire_waiting wait_running deliver_words
        release_receiving set_receiver_frame)
      (auto simp: put_state_def put_reg_def upd_proc_def set_receiver_def compare_and_swap_def received_def calling_def fun_eq_iff)
qed

lemma reply_sent:
  assumes inv: "kinv k" and r: "ks_current k = Some r" "state_of k r = pstate PROC_STATE_RUNNING"
    and x: "cap_at (ks_nodes k) (slot_of r cidx) x" "cap_is_type x CAP_TYPE_SERVER"
    and c: "ks_receivers k (unat (cap_server_get_channel x)) 1 = Some c"
      "state_of k c = on_channel (cap_server_get_channel x) PROC_STATE_WAITING"
    and w: "r \<noteq> c" "N_CAPS \<le> unat src"
  shows "\<exists>k1. syscall_invoke_cap cidx m0 m1 m2 m3 src f a7 k = Inr (Yield, k1) \<and>
    k1 = k\<lparr>ks_procs := (ks_procs k)(c := received m0 m1 m2 m3 (ks_procs k c),
      r := (ks_procs k r)\<lparr>p_state := on_channel (cap_server_get_channel x) PROC_STATE_WAITING\<rparr>)\<rparr>"
proof -
  let ?ch = "cap_server_get_channel x"
  have ch: "unat ?ch < N_CHANNELS"
    using caps_invD(3) [OF kinvD(1) [OF inv] x(1)] x(2) by (simp add: cap_ok_simps)
  show ?thesis
    unfolding invoke_runs(2) [OF inv r(1) x]
    using x(2) ch w c r(2)
    by (simp add: syscall_invoke_server_def receiver_at_def Let_def acquire_waiting wait_running deliver_words
        release_receiving wait_and_yield_def)
      (auto simp: put_state_def put_reg_def upd_proc_def received_def fun_eq_iff)
qed


lemma kinv_current: "kinv k \<Longrightarrow> r < N_PROC \<Longrightarrow> kinv (k\<lparr>ks_current := Some r\<rparr>)"
  by (simp add: kinv_def tables_ok_def)

text \<open>A process is dispatched and runs for a while, which leaves other registers behind.\<close>

definition ran :: "nat \<Rightarrow> (reg \<Rightarrow> u64) \<Rightarrow> kstate \<Rightarrow> kstate" where
  "ran r g k = (upd_proc r (\<lambda>p. p\<lparr>p_regs := g, p_state := pstate PROC_STATE_RUNNING\<rparr>) k)\<lparr>ks_current := Some r\<rparr>"

text \<open>C16: a remote call comes back. A client that is running invokes a channel on which its server
  waits, no other client has registered for the replies of the channel, and neither message
  hands over a capability. Then the request is in the server's registers, the server is
  ready, the client is registered and waits for the reply. Whatever the server computes, its
  next invocation puts the reply in the client's registers, the client is ready and the
  server waits again. Nothing else changes in the kernel state.\<close>

theorem remote_call:
  assumes "kinv k" "ks_current k = Some c" "state_of k c = pstate PROC_STATE_RUNNING"
    and "cap_at (ks_nodes k) (slot_of c cidx) s" "cap_is_type s CAP_TYPE_CLIENT"
    and "cap_at (ks_nodes k) (slot_of r sidx) x" "cap_is_type x CAP_TYPE_SERVER"
      "cap_server_get_channel x = cap_client_get_channel s"
    and "state_of k r = on_channel (cap_client_get_channel s) PROC_STATE_WAITING" "r \<noteq> c"
    and "ks_receivers k (unat (cap_client_get_channel s)) 1 \<in> {None, Some c}"
    and "N_CAPS \<le> unat src" "N_CAPS \<le> unat src'"
  shows "\<exists>k1. syscall_invoke_cap cidx m0 m1 m2 m3 src a6 a7 k = Inr (Yield, k1) \<and>
    k1 = (set_receiver (unat (cap_client_get_channel s)) 1 (Some c) k)
      \<lparr>ks_procs := (ks_procs k)(r := received m0 m1 m2 m3 (ks_procs k r),
         c := calling (cap_client_get_channel s) (ks_procs k c))\<rparr> \<and>
    (\<forall>g. \<exists>k3. syscall_invoke_cap sidx n0 n1 n2 n3 src' b6 b7 (ran r g k1) = Inr (Yield, k3) \<and>
       k3 = (ran r g k1)\<lparr>ks_procs := (ks_procs k)(c := received n0 n1 n2 n3 (ks_procs k c),
         r := (ks_procs k r)\<lparr>p_regs := g, p_state := on_channel (cap_client_get_channel s) PROC_STATE_WAITING\<rparr>)\<rparr>)"
proof -
  let ?ch = "cap_client_get_channel s"
  define k1 where "k1 = (set_receiver (unat ?ch) 1 (Some c) k)
      \<lparr>ks_procs := (ks_procs k)(r := received m0 m1 m2 m3 (ks_procs k r), c := calling ?ch (ks_procs k c))\<rparr>"
  have same: "set_receiver (unat ?ch) 1 (Some c) k = k" if "ks_receivers k (unat ?ch) 1 = Some c"
    using that by (simp add: set_receiver_def fun_upd_idem)
  have run: "syscall_invoke_cap cidx m0 m1 m2 m3 src a6 a7 k = Inr (Yield, k1)"
    using request_sent [OF assms(1-8,9,10,12), of m0 m1 m2 m3 a6 a7] assms(11) same
    by (auto simp: k1_def split: if_splits)
  have "r < N_PROC" using owner_of_channel(3) [OF assms(1,6)] assms(7) by blast
  moreover have "kinv k1" using invoke_cap_keeps [OF assms(1,2), of cidx m0 m1 m2 m3 src a6 a7] run by simp
  ultimately have inv: "kinv (ran r g k1)" for g
    unfolding ran_def by (intro kinv_current) (simp_all add: kinv_upd_proc)
  have "\<exists>k3. syscall_invoke_cap sidx n0 n1 n2 n3 src' b6 b7 (ran r g k1) = Inr (Yield, k3) \<and>
       k3 = (ran r g k1)\<lparr>ks_procs := (ks_procs (ran r g k1))(c := received n0 n1 n2 n3 (ks_procs (ran r g k1) c),
         r := (ks_procs (ran r g k1) r)\<lparr>p_state := on_channel (cap_server_get_channel x) PROC_STATE_WAITING\<rparr>)\<rparr>" for g
  proof (rule reply_sent [OF inv])
    show "cap_at (ks_nodes (ran r g k1)) (slot_of r sidx) x" using assms(6) by (simp add: ran_def k1_def upd_proc_def)
    show "ks_receivers (ran r g k1) (unat (cap_server_get_channel x)) 1 = Some c"
      using assms(8) by (simp add: ran_def k1_def upd_proc_def set_receiver_def)
    show "state_of (ran r g k1) c = on_channel (cap_server_get_channel x) PROC_STATE_WAITING"
      using assms(8,10) by (simp add: ran_def k1_def upd_proc_def state_of_def calling_def)
  qed (use assms in \<open>simp_all add: ran_def k1_def upd_proc_def state_of_def\<close>)
  moreover have "(ks_procs (ran r g k1))(c := received n0 n1 n2 n3 (ks_procs (ran r g k1) c),
         r := (ks_procs (ran r g k1) r)\<lparr>p_state := on_channel ?ch PROC_STATE_WAITING\<rparr>) =
      (ks_procs k)(c := received n0 n1 n2 n3 (ks_procs k c),
         r := (ks_procs k r)\<lparr>p_regs := g, p_state := on_channel ?ch PROC_STATE_WAITING\<rparr>)" for g
    using assms(10) by (auto simp: k1_def ran_def upd_proc_def received_def calling_def fun_eq_iff)
  ultimately show ?thesis using run assms(8) by (auto simp: k1_def)
qed

theorem remote_call_witness:
  "\<exists>k k1 k3. kinv k \<and> syscall_invoke_cap 9 11 22 33 44 64 0 0 k = Inr (Yield, k1) \<and>
    state_of k1 0 = on_channel 0 PROC_STATE_WAITING \<and>
    syscall_invoke_cap 0 55 66 77 88 64 1 0 (ran 1 (\<lambda>_. 0) k1) = Inr (Yield, k3) \<and>
    map (p_regs (ks_procs k1 1)) [A0, A1, A2, A3, A4] = [0, 11, 22, 33, 44] \<and>
    map (p_regs (ks_procs k3 0)) [A0, A1, A2, A3, A4] = [0, 55, 66, 77, 88] \<and>
    state_of k3 0 = pstate PROC_STATE_READY"
proof -
  obtain k0 where k0: "kinv k0" "ks_current k0 = Some 0" "cap_at (ks_nodes k0) (Slot 1 0) (cap_mk_server 0 0)"
    "cap_at (ks_nodes k0) (slot_of 0 9) (cap_mk_client 0 0)" "\<And>ch. ks_receivers k0 ch 1 = None"
    using boot_channel_pair [OF channel_0_caps(13,14,12) channel_0_not_spent(2)] by blast
  let ?k = "put_state 0 (pstate PROC_STATE_RUNNING) (put_state 1 (on_channel 0 PROC_STATE_WAITING) k0)"
  let ?ch = "cap_client_get_channel (cap_mk_client 0 0)"
  have s: "cap_at (ks_nodes ?k) (slot_of 1 0) (cap_mk_server 0 0)" unfolding slot_of_numeral using k0(3) by simp
  have "\<exists>k1. syscall_invoke_cap 9 11 22 33 44 64 0 0 ?k = Inr (Yield, k1) \<and>
    k1 = (set_receiver (unat ?ch) 1 (Some 0) ?k)
      \<lparr>ks_procs := (ks_procs ?k)(1 := received 11 22 33 44 (ks_procs ?k 1), 0 := calling ?ch (ks_procs ?k 0))\<rparr> \<and>
    (\<forall>g. \<exists>k3. syscall_invoke_cap 0 55 66 77 88 64 1 0 (ran 1 g k1) = Inr (Yield, k3) \<and>
       k3 = (ran 1 g k1)\<lparr>ks_procs := (ks_procs ?k)(0 := received 55 66 77 88 (ks_procs ?k 0),
         1 := (ks_procs ?k 1)\<lparr>p_regs := g, p_state := on_channel ?ch PROC_STATE_WAITING\<rparr>)\<rparr>)"
    by (rule remote_call [OF _ _ _ _ channel_0_caps(10) s channel_0_caps(8)])
      (use k0 in \<open>simp_all add: channel_0_caps config_defs\<close>)
  then show ?thesis using k0(1)
    by (force simp: received_def calling_def state_of_def channel_0_caps intro: exI [of _ ?k])
qed

end
