(* ===== verification/CapSpec.thy ===== *)
theory CapSpec
  imports Effects
begin

text \<open>
  What the system calls on capabilities promise, stated on the tables of capabilities alone:
  one partial map of slots per process, no list of nodes, no locks, no preemption. Every
  call of the kernel gives the answer of the specification, refusals included, and changes the
  tables, the schedule and the receivers as the specification says.
\<close>

section \<open>The specification\<close>

type_synonym tables = "nat \<Rightarrow> nat \<Rightarrow> cap_t option"

datatype cap_call =
    Read_cap u64 | Move_cap u64 u64 | Delete_cap u64 | Derive_cap u64 u64 cap_t
  | Supervisor_read_cap u64 u64 u64
  | Supervisor_give_cap u64 u64 u64 u64 | Supervisor_take_cap u64 u64 u64 u64

text \<open>The answer to a call: its code, the capability reported to the caller, the process that a
  capability was handed to, and the tables afterwards.\<close>

record answer =
  an_code :: s3k_error
  an_reply :: "cap_t option"
  an_grant :: "(nat \<times> cap_t) option"
  an_caps :: tables

definition refuse :: "s3k_error \<Rightarrow> tables \<Rightarrow> answer option" where
  "refuse e T = Some \<lparr>an_code = e, an_reply = None, an_grant = None, an_caps = T\<rparr>"

definition put_cap :: "nat \<Rightarrow> nat \<Rightarrow> cap_t option \<Rightarrow> tables \<Rightarrow> tables" where
  "put_cap p j v T = T(p := (T p)(j := v))"

definition cap_index :: "u64 \<Rightarrow> nat" where
  "cap_index cidx = unat (cidx mod of_nat N_CAPS)"

definition spec_read :: "nat \<Rightarrow> nat \<Rightarrow> tables \<Rightarrow> answer option" where
  "spec_read p j T = Some \<lparr>an_code = ERROR_OK,
     an_reply = Some (case T p j of None \<Rightarrow> NULL_CAP | Some x \<Rightarrow> x), an_grant = None, an_caps = T\<rparr>"

text \<open>A transfer, within a process or to another; handing over a spent time capability to another
  process stops the kernel.\<close>

definition spec_move :: "bool \<Rightarrow> nat \<Rightarrow> nat \<Rightarrow> nat \<Rightarrow> nat \<Rightarrow> tables \<Rightarrow> answer option" where
  "spec_move hands_over s i d j T =
     (case T s i of None \<Rightarrow> refuse ERROR_EMPTY T
      | Some x \<Rightarrow>
          if T d j \<noteq> None then refuse ERROR_COLLISION T
          else if hands_over \<and> spent_time x then None
          else Some \<lparr>an_code = ERROR_OK, an_reply = None,
                 an_grant = (if hands_over then Some (d, x) else None),
                 an_caps = put_cap d j (Some x) (put_cap s i None T)\<rparr>)"

definition spec_delete :: "nat \<Rightarrow> nat \<Rightarrow> tables \<Rightarrow> answer option" where
  "spec_delete c i T =
     (case T c i of None \<Rightarrow> refuse ERROR_EMPTY T
      | Some x \<Rightarrow>
          if spent_time x then None
          else Some \<lparr>an_code = ERROR_OK, an_reply = None, an_grant = None, an_caps = put_cap c i None T\<rparr>)"

definition spec_derive :: "nat \<Rightarrow> nat \<Rightarrow> nat \<Rightarrow> cap_t \<Rightarrow> tables \<Rightarrow> answer option" where
  "spec_derive c i j new T =
     (case T c i of None \<Rightarrow> refuse ERROR_EMPTY T
      | Some x \<Rightarrow>
          if T c j \<noteq> None then refuse ERROR_COLLISION T
          else if \<not> cap_can_derive x new then refuse ERROR_ILLEGAL_DERIVATION T
          else case derive_update_cap x new of Inl e \<Rightarrow> None
            | Inr x' \<Rightarrow> Some \<lparr>an_code = ERROR_OK, an_reply = None, an_grant = Some (c, new),
                 an_caps = put_cap c j (Some new) (put_cap c i (Some x') T)\<rparr>)"

text \<open>A supervisor acts on a suspended process its capability covers.\<close>

definition spec_supervise :: "(nat \<Rightarrow> bool) \<Rightarrow> cap_t option \<Rightarrow> u64 \<Rightarrow> tables \<Rightarrow> answer option \<Rightarrow> answer option" where
  "spec_supervise susp s pid T act =
     (case s of None \<Rightarrow> refuse ERROR_EMPTY T
      | Some x \<Rightarrow>
          if pid < cap_supervisor_get_free x \<or> cap_supervisor_get_end x \<le> pid
          then refuse ERROR_INVALID_SUPERVISEE T
          else if \<not> susp (unat pid) then refuse ERROR_SUPERVISEE_BUSY T
          else act)"

fun spec_call :: "(nat \<Rightarrow> bool) \<Rightarrow> nat \<Rightarrow> cap_call \<Rightarrow> tables \<Rightarrow> answer option" where
  "spec_call susp c (Read_cap i) T = spec_read c (cap_index i) T"
| "spec_call susp c (Move_cap i j) T = spec_move False c (cap_index i) c (cap_index j) T"
| "spec_call susp c (Delete_cap i) T = spec_delete c (cap_index i) T"
| "spec_call susp c (Derive_cap i j new) T = spec_derive c (cap_index i) (cap_index j) new T"
| "spec_call susp c (Supervisor_read_cap v pid i) T = spec_supervise susp (T c (cap_index v)) pid T
     (spec_read (unat pid) (cap_index i) T)"
| "spec_call susp c (Supervisor_give_cap v pid i j) T = spec_supervise susp (T c (cap_index v)) pid T
     (spec_move True c (cap_index i) (unat pid) (cap_index j) T)"
| "spec_call susp c (Supervisor_take_cap v pid i j) T = spec_supervise susp (T c (cap_index v)) pid T
     (spec_move True (unat pid) (cap_index i) c (cap_index j) T)"

section \<open>The kernel\<close>

text \<open>The same call as a system call; derivation is not preempted here.\<close>

fun kernel_call :: "cap_call \<Rightarrow> handler" where
  "kernel_call (Read_cap i) = syscall_read_cap i"
| "kernel_call (Move_cap i j) = syscall_move_cap i j"
| "kernel_call (Delete_cap i) = syscall_delete_cap i"
| "kernel_call (Derive_cap i j new) = syscall_derive_cap False i j (word0 new) (word1 new)"
| "kernel_call (Supervisor_read_cap v pid i) = syscall_invoke_cap v pid (sup_num ECALL_SUP_READ_CAP) i 0 0 0 0"
| "kernel_call (Supervisor_give_cap v pid i j) = syscall_invoke_cap v pid (sup_num ECALL_SUP_GIVE_CAP) i j 0 0 0"
| "kernel_call (Supervisor_take_cap v pid i j) = syscall_invoke_cap v pid (sup_num ECALL_SUP_TAKE_CAP) i j 0 0 0"

definition tables :: "kstate \<Rightarrow> tables" where
  "tables k p j = (if node_live (ks_nodes k) (Slot p j) then Some (cn_cap (ks_nodes k (Slot p j))) else None)"

definition is_suspended :: "kstate \<Rightarrow> nat \<Rightarrow> bool" where
  "is_suspended k p \<longleftrightarrow> state_of k p = pstate PROC_STATE_SUSPENDED"

definition granted :: "kstate \<Rightarrow> (nat \<times> cap_t) option \<Rightarrow> kstate \<Rightarrow> bool" where
  "granted k g k' = (case g of
       None \<Rightarrow> ks_schedule k' = ks_schedule k \<and> ks_receivers k' = ks_receivers k
     | Some (p, x) \<Rightarrow> hook_effect p x (ks_schedule k) (ks_receivers k) (ks_schedule k') (ks_receivers k'))"

fun implements :: "nat \<Rightarrow> kstate \<Rightarrow> stop + outcome \<times> kstate \<Rightarrow> answer option \<Rightarrow> bool" where
  "implements c k (Inl e) None \<longleftrightarrow> e = Assert_failed"
| "implements c k (Inr (out, k')) (Some a) \<longleftrightarrow>
     out = Return (err (an_code a)) \<and> tables k' = an_caps a \<and> granted k (an_grant a) k' \<and>
     (\<forall>x. an_reply a = Some x \<longrightarrow> p_regs (ks_procs k' c) A1 = word0 x \<and> p_regs (ks_procs k' c) A2 = word1 x) \<and>
     (\<forall>p. state_of k' p = state_of k p)"
| "implements c k _ _ \<longleftrightarrow> False"

text \<open>The capability a call is made through, where it holds one, is a supervisor capability; another
  kind makes the invocation another call.\<close>

fun proper :: "nat \<Rightarrow> cap_call \<Rightarrow> tables \<Rightarrow> bool" where
  "proper c (Supervisor_read_cap v pid i) T = (\<forall>x. T c (cap_index v) = Some x \<longrightarrow> cap_is_type x CAP_TYPE_SUPERVISOR)"
| "proper c (Supervisor_give_cap v pid i j) T = (\<forall>x. T c (cap_index v) = Some x \<longrightarrow> cap_is_type x CAP_TYPE_SUPERVISOR)"
| "proper c (Supervisor_take_cap v pid i j) T = (\<forall>x. T c (cap_index v) = Some x \<longrightarrow> cap_is_type x CAP_TYPE_SUPERVISOR)"
| "proper c _ T = True"

section \<open>Refinement\<close>

lemma tables_at: "tables k p j = Some x \<longleftrightarrow> cap_at (ks_nodes k) (Slot p j) x"
  "tables k p j = None \<longleftrightarrow> \<not> node_live (ks_nodes k) (Slot p j)"
  by (auto simp: tables_def cap_at_def)

lemma tables_eqI:
  assumes "\<And>p j x. cap_at (ks_nodes k') (Slot p j) x \<longleftrightarrow> T p j = Some x"
  shows "tables k' = T"
proof (intro ext)
  fix p j
  show "tables k' p j = T p j"
    using assms [of p j] tables_at(1) [of k' p j] by (metis option.exhaust)
qed

lemma tables_shift: "ks_nodes k' = ks_nodes k \<Longrightarrow> tables k' = tables k"
  by (intro ext) (simp add: tables_def)

lemma put_cap_at [simp]: "put_cap p j v T q i = (if q = p \<and> i = j then v else T q i)"
  by (simp add: put_cap_def)

lemma moved_tables:
  assumes "\<forall>n y. cap_at h' n y \<longleftrightarrow>
      (if n = Slot d j then y = x else n \<noteq> Slot s i \<and> cap_at (ks_nodes k) n y)" "ks_nodes k' = h'"
  shows "tables k' = put_cap d j (Some x) (put_cap s i None (tables k))"
  using assms by (intro tables_eqI) (auto simp: tables_at)

lemma granted_none [simp]: "granted k None k' \<longleftrightarrow> ks_schedule k' = ks_schedule k \<and> ks_receivers k' = ks_receivers k"
  by (simp add: granted_def)

lemma refused:
  assumes "ks_nodes k' = ks_nodes k" "ks_schedule k' = ks_schedule k" "ks_receivers k' = ks_receivers k"
    "\<And>p. state_of k' p = state_of k p"
  shows "implements c k (Inr (Return (err e), k')) (refuse e (tables k))"
  using assms tables_shift [OF assms(1)] by (simp add: refuse_def)

lemma frame_schedule [simp]:
  "ks_schedule (upd_proc i f k) = ks_schedule k" "ks_schedule (put_reg i r v k) = ks_schedule k"
  "ks_schedule (put_state i w k) = ks_schedule k" "ks_schedule (preemption_enable k) = ks_schedule k"
  "ks_schedule (preemption_disable k) = ks_schedule k"
  by (simp_all add: upd_proc_def put_reg_def put_state_def preemption_enable_def preemption_disable_def)

lemma put_reg_regs: "p_regs (ks_procs (put_reg c r v k) c) = (p_regs (ks_procs k c))(r := v)"
  by (simp add: put_reg_def upd_proc_def)

lemma tables_put_reg: "tables (put_reg c r v k) = tables k" by (rule tables_shift) simp

lemma read_refines:
  assumes "kinv k" "ks_current k = Some c"
  shows "implements c k (syscall_read_cap i k) (spec_read c (cap_index i) (tables k))"
proof -
  have p: "c < N_PROC" using kinvD(6) assms by blast
  have g: "cap_node_get_cap (ks_nodes k) (slot_of c i) = (case tables k c (cap_index i) of None \<Rightarrow> NULL_CAP | Some x \<Rightarrow> x)"
    by (simp add: tables_def cap_index_def cap_node_get_cap_def node_live_deleted Let_def)
  let ?x = "cap_node_get_cap (ks_nodes k) (slot_of c i)"
  have "syscall_read_cap i k = Inr (Return (err ERROR_OK), put_reg c A2 (word1 ?x) (put_reg c A1 (word0 ?x) k))"
    by (simp add: syscall_read_cap_def assert_current_def assms cap_node_of_runs p Let_def)
  then show ?thesis
    by (simp add: spec_read_def g [symmetric] tables_put_reg frame_schedule put_reg_regs del: err.simps)
qed


lemma move_refines:
  assumes inv: "kinv k" and c: "ks_current k = Some c"
  shows "implements c k (syscall_move_cap i j k) (spec_move False c (cap_index i) c (cap_index j) (tables k))"
proof (cases "tables k c (cap_index i)")
  case None
  then have nl: "\<not> node_live (ks_nodes k) (slot_of c i)" by (simp add: tables_at cap_index_def)
  show ?thesis
    using move_cap_effect(1) [OF inv c nl, of j] None by (simp add: spec_move_def refused del: err.simps)
next
  case (Some x)
  then have at: "cap_at (ks_nodes k) (slot_of c i) x" by (simp add: tables_at cap_index_def)
  then have live: "node_live (ks_nodes k) (slot_of c i)" by (simp add: cap_at_def)
  show ?thesis
  proof (cases "node_live (ks_nodes k) (slot_of c j)")
    case True
    then have "tables k c (cap_index j) \<noteq> None" by (simp add: tables_def cap_index_def)
    then show ?thesis using move_cap_effect(2) [OF inv c live True] Some
      by (simp add: spec_move_def refused del: err.simps)
  next
    case False
    then have "tables k c (cap_index j) = None" by (simp add: tables_def cap_index_def)
    moreover obtain h' where "syscall_move_cap i j k = Inr (Return (err ERROR_OK), k\<lparr>ks_nodes := h'\<rparr>)"
      "\<forall>n y. cap_at h' n y \<longleftrightarrow> (if n = slot_of c j then y = x else n \<noteq> slot_of c i \<and> cap_at (ks_nodes k) n y)"
      using move_cap_effect(3) [OF inv c at False] by blast
    ultimately show ?thesis using Some moved_tables [of h' c "cap_index j" x c "cap_index i" k "k\<lparr>ks_nodes := h'\<rparr>"]
      by (simp add: spec_move_def state_of_def cap_index_def del: err.simps)
  qed
qed

lemma delete_refines:
  assumes inv: "kinv k" and c: "ks_current k = Some c"
  shows "implements c k (syscall_delete_cap i k) (spec_delete c (cap_index i) (tables k))"
proof (cases "tables k c (cap_index i)")
  case None
  then have nl: "\<not> node_live (ks_nodes k) (slot_of c i)" by (simp add: tables_at cap_index_def)
  show ?thesis
    using delete_cap_effect(1) [OF inv c nl] None by (simp add: spec_delete_def refused del: err.simps)
next
  case (Some x)
  then have at: "cap_at (ks_nodes k) (slot_of c i) x" by (simp add: tables_at cap_index_def)
  note d = delete_cap_effect(2,3) [OF inv c at]
  show ?thesis
  proof (cases "spent_time x")
    case True
    then show ?thesis using Some d(1) by (simp add: spec_delete_def)
  next
    case False
    from d(2) [OF this] obtain k' where k': "syscall_delete_cap i k = Inr (Return (err ERROR_OK), k')"
      "\<forall>n y. cap_at (ks_nodes k') n y \<longleftrightarrow> n \<noteq> slot_of c i \<and> cap_at (ks_nodes k) n y"
      "ks_schedule k' = ks_schedule k" "ks_receivers k' = ks_receivers k" "ks_procs k' = ks_procs k"
      by blast
    then have "tables k' = put_cap c (cap_index i) None (tables k)"
      by (intro tables_eqI) (auto simp: tables_at cap_index_def)
    then show ?thesis using Some False k' by (simp add: spec_delete_def state_of_def del: err.simps)
  qed
qed

lemma derive_refines:
  assumes inv: "kinv k" and c: "ks_current k = Some c"
  shows "implements c k (syscall_derive_cap False i j (word0 new) (word1 new) k)
    (spec_derive c (cap_index i) (cap_index j) new (tables k))"
proof -
  have p: "c < N_PROC" by (rule kinvD(6) [OF inv c])
  let ?k = "preemption_enable (put_reg c A0 (err ERROR_PREEMPTED) k)"
  have e: "\<lparr>word0 = word0 new, word1 = word1 new\<rparr> = new" by simp
  have nn: "node_live (ks_nodes k) (slot_of c i) \<longleftrightarrow> tables k c (cap_index i) \<noteq> None" for i
    by (simp add: tables_at cap_index_def)
  note run = syscall_derive_cap_def assert_current_def c cap_node_of_runs inv p node_live_deleted
    get_cap_live Let_def nn e
  show ?thesis
  proof (cases "tables k c (cap_index i)")
    case None
    then have "syscall_derive_cap False i j (word0 new) (word1 new) k = Inr (Return (err ERROR_EMPTY), ?k)"
      by (simp add: run)
    then show ?thesis using None by (simp add: spec_derive_def refused del: err.simps)
  next
    case (Some x)
    then have at: "cap_at (ks_nodes k) (slot_of c i) x" by (simp add: tables_at cap_index_def)
    then have x: "cn_cap (ks_nodes k (slot_of c i)) = x" by (simp add: cap_at_def)
    consider "tables k c (cap_index j) \<noteq> None" | "tables k c (cap_index j) = None" "\<not> cap_can_derive x new"
      | "tables k c (cap_index j) = None" "cap_can_derive x new" by blast
    then show ?thesis
    proof cases
      case 1
      then have "syscall_derive_cap False i j (word0 new) (word1 new) k = Inr (Return (err ERROR_COLLISION), ?k)"
        using Some by (simp add: run)
      then show ?thesis using Some 1 by (simp add: spec_derive_def refused del: err.simps)
    next
      case 2
      then have "syscall_derive_cap False i j (word0 new) (word1 new) k =
          Inr (Return (err ERROR_ILLEGAL_DERIVATION), ?k)"
        using Some x by (simp add: run)
      then show ?thesis using Some 2 by (simp add: spec_derive_def refused del: err.simps)
    next
      case 3
      let ?k2 = "preemption_disable ?k"
      have r: "syscall_derive_cap False i j (word0 new) (word1 new) k =
          derive_body c (slot_of c i) (slot_of c j) x new ?k2"
        using Some 3 x by (simp add: run derive_body_def)
      have "kinv ?k2" using inv by simp
      from derive_body_runs [OF this p refl _ _ refl, of "unat (i mod of_nat N_CAPS)" "unat (j mod of_nat N_CAPS)" new]
      obtain k' x' where k': "derive_body c (slot_of c i) (slot_of c j) x new ?k2 = Inr (Return (err ERROR_OK), k')"
        "derive_update_cap x new = Inr x'"
        "\<forall>n y. cap_at (ks_nodes k') n y \<longleftrightarrow> (if n = slot_of c j then y = new else if n = slot_of c i then y = x'
           else cap_at (ks_nodes k) n y)"
        "ks_procs k' = ks_procs ?k2"
        "hook_effect c new (ks_schedule k) (ks_receivers k) (ks_schedule k') (ks_receivers k')"
        using Some 3 x p by (auto simp: nn)
      have "tables k' = put_cap c (cap_index j) (Some new) (put_cap c (cap_index i) (Some x') (tables k))"
        using k'(3) by (intro tables_eqI) (auto simp: tables_at cap_index_def)
      moreover have "state_of k' p = state_of k p" for p
      proof -
        have "state_of k' p = state_of ?k2 p" using k'(4) by (simp add: state_of_def)
        then show ?thesis by (simp add: state_of_def put_reg_def upd_proc_def)
      qed
      ultimately show ?thesis
        using Some 3 k' by (simp add: r spec_derive_def granted_def del: err.simps)
    qed
  qed
qed


text \<open>Moves between processes, and what a supervisor does between acquiring and releasing.\<close>

abbreviation answered :: "stop + u64 \<times> kstate \<Rightarrow> stop + outcome \<times> kstate" where
  "answered r \<equiv> ebind r (\<lambda>(code, k). Inr (Return code, k))"

lemma transfer_refines:
  assumes inv: "kinv k" and p: "s < N_PROC" "d < N_PROC"
  shows "implements c k (answered (interprocess_move s i d j k)) (spec_move True s (cap_index i) d (cap_index j) (tables k))"
proof -
  have nn: "node_live (ks_nodes k) (slot_of s i) \<longleftrightarrow> tables k s (cap_index i) \<noteq> None" for s i
    by (simp add: tables_at cap_index_def)
  note run = interprocess_move_def cap_node_of_runs inv p node_live_deleted get_cap_live Let_def nn
  show ?thesis
  proof (cases "tables k s (cap_index i)")
    case None
    then have "interprocess_move s i d j k = Inr (err ERROR_EMPTY, k)" by (simp add: run)
    then show ?thesis using None by (simp add: spec_move_def refused del: err.simps)
  next
    case (Some x)
    then have at: "cap_at (ks_nodes k) (slot_of s i) x" by (simp add: tables_at cap_index_def)
    then have x: "cn_cap (ks_nodes k (slot_of s i)) = x" by (simp add: cap_at_def)
    consider "tables k d (cap_index j) \<noteq> None" | "tables k d (cap_index j) = None" "spent_time x"
      | "tables k d (cap_index j) = None" "\<not> spent_time x" by blast
    then show ?thesis
    proof cases
      case 1
      then have "interprocess_move s i d j k = Inr (err ERROR_COLLISION, k)" using Some by (simp add: run)
      then show ?thesis using Some 1 by (simp add: spec_move_def refused del: err.simps)
    next
      case 2
      then have "interprocess_move s i d j k = Inl Assert_failed" using Some x hook_spent by (simp add: run)
      then show ?thesis using Some 2 by (simp add: spec_move_def)
    next
      case 3
      then have "\<not> node_live (ks_nodes k) (slot_of d j)" by (simp add: nn)
      from interprocess_move_effect [OF inv p at this 3(2)] obtain k' where k':
        "interprocess_move s i d j k = Inr (err ERROR_OK, k')"
        "\<forall>n y. cap_at (ks_nodes k') n y \<longleftrightarrow> (if n = slot_of d j then y = x else n \<noteq> slot_of s i \<and> cap_at (ks_nodes k) n y)"
        "hook_effect d x (ks_schedule k) (ks_receivers k) (ks_schedule k') (ks_receivers k')"
        "ks_procs k' = ks_procs k" by blast
      have "tables k' = put_cap d (cap_index j) (Some x) (put_cap s (cap_index i) None (tables k))"
        using k'(2) by (intro moved_tables [OF _ refl]) (simp add: cap_index_def)
      then show ?thesis using Some 3 k'
        by (simp add: spec_move_def granted_def state_of_def del: err.simps)
    qed
  qed
qed

abbreviation read_for :: "nat \<Rightarrow> nat \<Rightarrow> u64 \<Rightarrow> kstate \<Rightarrow> stop + u64 \<times> kstate" where
  "read_for c i j \<equiv> \<lambda>k. ebind (cap_node_of k i j) (\<lambda>node.
     let cap = cap_node_get_cap (ks_nodes k) node
     in Inr (err ERROR_OK, put_reg c A2 (word1 cap) (put_reg c A1 (word0 cap) k)))"

lemma read_for_refines:
  assumes "kinv k" "i < N_PROC"
  shows "implements c k (answered (read_for c i j k)) (spec_read i (cap_index j) (tables k))"
proof -
  have g: "cap_node_get_cap (ks_nodes k) (slot_of i j) = (case tables k i (cap_index j) of None \<Rightarrow> NULL_CAP | Some x \<Rightarrow> x)"
    by (simp add: tables_def cap_index_def cap_node_get_cap_def node_live_deleted Let_def)
  show ?thesis
    by (simp add: cap_node_of_runs assms Let_def spec_read_def g [symmetric] tables_put_reg put_reg_regs del: err.simps)
qed

lemma implements_shift:
  assumes "implements c k1 r a" "ks_schedule k1 = ks_schedule k" "ks_receivers k1 = ks_receivers k"
    "\<And>p. state_of k1 p = state_of k p"
  shows "implements c k r a"
proof (cases "\<exists>k' out b. r = Inr (out, k') \<and> a = Some b")
  case True
  then show ?thesis using assms by (auto simp: granted_def split: option.splits prod.splits)
next
  case False
  then show ?thesis using assms(1) by (cases a; cases r) auto
qed

lemma supervisee_refines:
  assumes inv: "kinv k"
    and body: "is_suspended k i \<Longrightarrow> implements c (put_state i (pstate PROC_STATE_SUSPENDED_BUSY) k)
      (answered (body (put_state i (pstate PROC_STATE_SUSPENDED_BUSY) k))) act"
  shows "implements c k (with_supervisee i body k)
    (if \<not> is_suspended k i then refuse ERROR_SUPERVISEE_BUSY (tables k) else act)"
proof (cases "is_suspended k i")
  case False
  then have "with_state i proc_supervisor_acquire k = (False, k)"
    by (simp add: is_suspended_def with_state_def proc_supervisor_acquire_def put_state_def upd_proc_def state_of_def fun_upd_idem)
  then show ?thesis using False by (simp add: with_supervisee_def refused del: err.simps)
next
  case True
  let ?k = "put_state i (pstate PROC_STATE_SUSPENDED_BUSY) k"
  have w: "with_state i proc_supervisor_acquire k = (True, ?k)"
    using True by (simp add: is_suspended_def with_state_def proc_supervisor_acquire_def)
  show ?thesis
  proof (cases "body ?k")
    case (Inl e)
    then show ?thesis using True body [OF True] w by (cases act) (simp_all add: with_supervisee_def)
  next
    case (Inr r)
    obtain code k' where r: "r = (code, k')" by (cases r)
    obtain a where a: "act = Some a" using body [OF True] Inr r by (cases act) auto
    have st: "state_of k' p = (if p = i then pstate PROC_STATE_SUSPENDED_BUSY else state_of k p)" for p
      using body [OF True] Inr r a by simp
    have "tables (put_state i (pstate PROC_STATE_SUSPENDED) k') = tables k'" by (rule tables_shift) simp
    moreover have "p_regs (ks_procs (put_state i (pstate PROC_STATE_SUSPENDED) k') c) = p_regs (ks_procs k' c)"
      by (simp add: put_state_def upd_proc_def)
    moreover have "with_supervisee i body k = Inr (Return code, put_state i (pstate PROC_STATE_SUSPENDED) k')"
      using w Inr r st [of i] by (simp add: with_supervisee_def proc_supervisor_release_def)
    moreover have "granted k (an_grant a) (put_state i (pstate PROC_STATE_SUSPENDED) k')"
      using body [OF True] Inr r a by (auto simp: granted_def split: option.splits)
    ultimately show ?thesis
      using body [OF True] Inr r a True st by (auto simp: is_suspended_def)
  qed
qed

text \<open>Through the dispatcher of invocations.\<close>

lemma supervisor_op:
  assumes "cap_is_type x CAP_TYPE_SUPERVISOR" "cap_supervisor_get_free x \<le> pid" "pid < cap_supervisor_get_end x"
    "unat pid < N_PROC"
  shows "syscall_invoke_supervisor c x pid (sup_num ECALL_SUP_READ_CAP) a b k =
      with_supervisee (unat pid) (read_for c (unat pid) a) k"
    "syscall_invoke_supervisor c x pid (sup_num ECALL_SUP_GIVE_CAP) a b k =
      with_supervisee (unat pid) (interprocess_move c a (unat pid) b) k"
    "syscall_invoke_supervisor c x pid (sup_num ECALL_SUP_TAKE_CAP) a b k =
      with_supervisee (unat pid) (interprocess_move (unat pid) a c b) k"
proof -
  have "\<not> pid < cap_supervisor_get_free x" "\<not> cap_supervisor_get_end x \<le> pid" using assms(2,3) by auto
  with assms(1,4) show
    "syscall_invoke_supervisor c x pid (sup_num ECALL_SUP_READ_CAP) a b k =
      with_supervisee (unat pid) (read_for c (unat pid) a) k"
    "syscall_invoke_supervisor c x pid (sup_num ECALL_SUP_GIVE_CAP) a b k =
      with_supervisee (unat pid) (interprocess_move c a (unat pid) b) k"
    "syscall_invoke_supervisor c x pid (sup_num ECALL_SUP_TAKE_CAP) a b k =
      with_supervisee (unat pid) (interprocess_move (unat pid) a c b) k"
    by (simp_all add: syscall_invoke_supervisor_def Let_def)
qed

lemma invoke_refines:
  assumes inv: "kinv k" and c: "ks_current k = Some c"
    and sup: "\<forall>x. tables k c (cap_index v) = Some x \<longrightarrow> cap_is_type x CAP_TYPE_SUPERVISOR"
    and op: "\<And>x. cap_is_type x CAP_TYPE_SUPERVISOR \<Longrightarrow> cap_supervisor_get_free x \<le> pid \<Longrightarrow>
        pid < cap_supervisor_get_end x \<Longrightarrow> unat pid < N_PROC \<Longrightarrow>
        syscall_invoke_supervisor c x pid op a0 a1 k = with_supervisee (unat pid) body k"
    and body: "\<And>k1. kinv k1 \<Longrightarrow> unat pid < N_PROC \<Longrightarrow> implements c k1 (answered (body k1)) (act (tables k1))"
  shows "implements c k (syscall_invoke_cap v pid op a0 a1 0 0 0 k)
    (spec_supervise (is_suspended k) (tables k c (cap_index v)) pid (tables k) (act (tables k)))"
proof -
  have p: "c < N_PROC" by (rule kinvD(6) [OF inv c])
  show ?thesis
  proof (cases "tables k c (cap_index v)")
    case None
    then have "\<not> node_live (ks_nodes k) (slot_of c v)" by (simp add: tables_at cap_index_def)
    then have "cap_node_get_cap (ks_nodes k) (slot_of c v) = NULL_CAP"
      by (simp add: cap_node_get_cap_def node_live_deleted Let_def)
    then have "syscall_invoke_cap v pid op a0 a1 0 0 0 k = Inr (Return (err ERROR_EMPTY), k)"
      by (simp add: syscall_invoke_cap_def deref_current_def c cap_node_of_runs inv p Let_def
          cap_is_type_def cap_get_type_def NULL_CAP_def del: err.simps)
    then show ?thesis using None by (simp add: spec_supervise_def refused del: err.simps)
  next
    case (Some x)
    then have at: "cap_at (ks_nodes k) (slot_of c v) x" by (simp add: tables_at cap_index_def)
    have t: "cap_is_type x CAP_TYPE_SUPERVISOR" using sup Some by blast
    have ok: "cap_ok x" by (rule caps_invD(3) [OF kinvD(1) [OF inv] at])
    have x: "cap_node_get_cap (ks_nodes k) (slot_of c v) = x" using at by (simp add: cap_at_def get_cap_live)
    have run: "syscall_invoke_cap v pid op a0 a1 0 0 0 k = syscall_invoke_supervisor c x pid op a0 a1 k"
      by (simp add: syscall_invoke_cap_def deref_current_def c cap_node_of_runs inv p Let_def x t type_eqs)
        (use t in \<open>simp add: cap_is_type_def type_eqs\<close>)
    show ?thesis
    proof (cases "pid < cap_supervisor_get_free x \<or> cap_supervisor_get_end x \<le> pid")
      case True
      then have "syscall_invoke_supervisor c x pid op a0 a1 k = Inr (Return (err ERROR_INVALID_SUPERVISEE), k)"
        using t by (auto simp: syscall_invoke_supervisor_def)
      then show ?thesis using True Some by (auto simp: run spec_supervise_def refused simp del: err.simps)
    next
      case False
      then have "unat pid < unat (cap_supervisor_get_end x)" by (simp add: unat_mono not_le)
      then have i: "unat pid < N_PROC" using cap_ok_simps(9) [OF t] ok by simp
      let ?k = "put_state (unat pid) (pstate PROC_STATE_SUSPENDED_BUSY) k"
      have "tables ?k = tables k" by (rule tables_shift) simp
      then have "implements c k (with_supervisee (unat pid) body k)
          (if \<not> is_suspended k (unat pid) then refuse ERROR_SUPERVISEE_BUSY (tables k) else act (tables k))"
        using body [of ?k] inv i by (intro supervisee_refines [OF inv]) simp
      moreover have "cap_supervisor_get_free x \<le> pid" "pid < cap_supervisor_get_end x" using False by auto
      ultimately show ?thesis using False Some i op [OF t] by (simp add: run spec_supervise_def)
    qed
  qed
qed

text \<open>C9: the system calls on capabilities implement their specification.\<close>

theorem capability_calls_refine:
  assumes "kinv k" "ks_current k = Some c" "proper c call (tables k)"
  shows "implements c k (kernel_call call k) (spec_call (is_suspended k) c call (tables k))"
proof (cases call)
  case (Supervisor_read_cap v pid i)
  with assms(3) show ?thesis
    by (simp only: kernel_call.simps spec_call.simps proper.simps
        invoke_refines [OF assms(1,2) _ supervisor_op(1) read_for_refines])
next
  case (Supervisor_give_cap v pid i j)
  with assms(3) show ?thesis
    by (simp only: kernel_call.simps spec_call.simps proper.simps
        invoke_refines [OF assms(1,2) _ supervisor_op(2) transfer_refines [OF _ kinvD(6) [OF assms(1,2)]]])
next
  case (Supervisor_take_cap v pid i j)
  with assms(3) show ?thesis
    by (simp only: kernel_call.simps spec_call.simps proper.simps
        invoke_refines [OF assms(1,2) _ supervisor_op(3) transfer_refines [OF _ _ kinvD(6) [OF assms(1,2)]]])
qed (use assms read_refines move_refines delete_refines derive_refines in simp_all)


lemma root_supervisor:
  "cap_at (ks_nodes (root_running 0 1)) (Slot 0 2) (boot_cap 0 2)" "cap_is_type (boot_cap 0 2) CAP_TYPE_SUPERVISOR"
  by (simp_all add: boot_cap_at boot_cap_kinds(3))

lemma boot_suspended: "0 < i \<Longrightarrow> i < N_PROC \<Longrightarrow> is_suspended (root_running 0 1) i"
  by (simp add: is_suspended_def state_of_def boot_procs_def)

text \<open>The root gives all the time of hart 1 to process 1, which then runs there.\<close>

theorem capability_calls_refine_witness:
  "\<exists>k'. syscall_invoke_cap 2 1 6 3 0 0 0 0 (root_running 0 1) = Inr (Return 0, k') \<and>
    tables k' 1 0 = Some (boot_cap 0 3) \<and> tables k' 0 3 = None \<and> entry_at (ks_schedule k') 100 1 = (1, 28)"
proof -
  let ?k = "root_running 0 1" and ?call = "Supervisor_give_cap 2 1 3 0"
  have ix: "cap_index 0 = 0" "cap_index 2 = 2" "cap_index 3 = 3"
    by (simp_all add: cap_index_def config_defs unat_mod)
  have t: "tables ?k 0 2 = Some (boot_cap 0 2)" "tables ?k 0 3 = Some (boot_cap 0 3)" "tables ?k 1 0 = None"
    using root_supervisor(1) root_time(1)
    by (simp_all add: tables_at) (simp add: node_live_def boot_heap_live del: not_None_eq)
  have sl: "Slice 1 100 \<in> authority (boot_cap 0 3)"
    unfolding authority_simps(3) [OF root_time(2)] by (simp add: root_time)
  have g: "\<not> (1 :: u64) < cap_supervisor_get_free (boot_cap 0 2)" "\<not> cap_supervisor_get_end (boot_cap 0 2) \<le> (1 :: u64)"
    by (simp_all add: boot_cap_fields config_defs word_le_nat_alt word_less_nat_alt)
  have "spec_call (is_suspended ?k) 0 ?call (tables ?k) = Some \<lparr>an_code = ERROR_OK, an_reply = None,
      an_grant = Some (1, boot_cap 0 3), an_caps = put_cap 1 0 (Some (boot_cap 0 3)) (put_cap 0 3 None (tables ?k))\<rparr>"
    using t g boot_suspended [of 1] root_not_spent
    by (simp add: ix spec_supervise_def spec_move_def config_defs)
  moreover have "proper 0 ?call (tables ?k)" using t(1) root_supervisor(2) by (simp add: ix)
  note capability_calls_refine [OF root_kinv _ this]
  ultimately have "implements 0 ?k (syscall_invoke_cap 2 1 6 3 0 0 0 0 ?k) (Some \<lparr>an_code = ERROR_OK, an_reply = None,
      an_grant = Some (1, boot_cap 0 3), an_caps = put_cap 1 0 (Some (boot_cap 0 3)) (put_cap 0 3 None (tables ?k))\<rparr>)"
    by simp
  then obtain k' where "syscall_invoke_cap 2 1 6 3 0 0 0 0 ?k = Inr (Return 0, k')"
    "tables k' = put_cap 1 0 (Some (boot_cap 0 3)) (put_cap 0 3 None (tables ?k))"
    "hook_effect 1 (boot_cap 0 3) boot_schedule (\<lambda>_ _. None) (ks_schedule k') (ks_receivers k')"
    by (cases "syscall_invoke_cap 2 1 6 3 0 0 0 0 ?k") (auto simp: granted_def)
  then show ?thesis using sl root_time unfolding hook_effect_def by (simp add: config_defs)
qed

end
