(* ===== verification/Confidential.thy ===== *)
theory Confidential
  imports Locality
begin

text \<open>
  What a trap may depend on. The view of a process is its control block, the capabilities in
  its slots, and the timer of the hart it runs on. A trap that neither invokes a capability
  nor waits for the next process gives the same result in any two states with the same
  view: nothing another process holds or does can be seen through it.
\<close>

section \<open>Views\<close>

definition same_slots :: "nat \<Rightarrow> node_heap \<Rightarrow> node_heap \<Rightarrow> bool" where
  "same_slots c h h' \<longleftrightarrow> (\<forall>j. (node_live h (Slot c j) \<longleftrightarrow> node_live h' (Slot c j)) \<and>
     cn_cap (h (Slot c j)) = cn_cap (h' (Slot c j)))"

definition same_view :: "nat \<Rightarrow> kstate \<Rightarrow> kstate \<Rightarrow> bool" where
  "same_view c k k' \<longleftrightarrow> ks_current k = Some c \<and> ks_current k' = Some c \<and> ks_procs k c = ks_procs k' c \<and>
     ks_hartid k = ks_hartid k' \<and> ks_mtimecmp k (unat (ks_hartid k)) = ks_mtimecmp k' (unat (ks_hartid k')) \<and>
     same_slots c (ks_nodes k) (ks_nodes k')"

text \<open>The same outcome, and the same view afterwards.\<close>

fun same_result :: "nat \<Rightarrow> stop + 'a \<times> kstate \<Rightarrow> stop + 'a \<times> kstate \<Rightarrow> bool" where
  "same_result c (Inl e) (Inl e') \<longleftrightarrow> e = e'"
| "same_result c (Inr (x, k)) (Inr (y, k')) \<longleftrightarrow> x = y \<and> same_view c k k'"
| "same_result c _ _ \<longleftrightarrow> False"

lemma same_viewD:
  assumes "same_view c k k'"
  shows "ks_current k = Some c" "ks_current k' = Some c" "ks_procs k' c = ks_procs k c"
    "ks_hartid k' = ks_hartid k"
    "ks_mtimecmp k' (unat (ks_hartid k)) = ks_mtimecmp k (unat (ks_hartid k))"
    "node_live (ks_nodes k') (Slot c j) \<longleftrightarrow> node_live (ks_nodes k) (Slot c j)"
    "cn_cap (ks_nodes k' (Slot c j)) = cn_cap (ks_nodes k (Slot c j))"
  using assms by (auto simp: same_view_def same_slots_def)

lemma same_view_upd:
  assumes "same_view c k k'" "f (ks_procs k c) = f' (ks_procs k c)"
  shows "same_view c (upd_proc c f k) (upd_proc c f' k')"
  using assms by (auto simp: same_view_def upd_proc_def)

lemma same_view_put:
  "same_view c k k' \<Longrightarrow> same_view c (put_reg c r v k) (put_reg c r v k')"
  "same_view c (preemption_enable k) k' \<longleftrightarrow> same_view c k k'"
  "same_view c (preemption_disable k) k' \<longleftrightarrow> same_view c k k'"
  "same_view c k (preemption_enable k') \<longleftrightarrow> same_view c k k'"
  "same_view c k (preemption_disable k') \<longleftrightarrow> same_view c k k'"
  by (auto simp: put_reg_def intro!: same_view_upd) (auto simp: same_view_def preemption_enable_def preemption_disable_def)

lemma same_view_nodes:
  assumes "same_view c k k'" "same_slots c (ks_nodes k1) (ks_nodes k1')"
    and "ks_current k1 = ks_current k" "ks_procs k1 = ks_procs k" "ks_hartid k1 = ks_hartid k" "ks_mtimecmp k1 = ks_mtimecmp k"
    and "ks_current k1' = ks_current k'" "ks_procs k1' = ks_procs k'" "ks_hartid k1' = ks_hartid k'" "ks_mtimecmp k1' = ks_mtimecmp k'"
  shows "same_view c k1 k1'"
  using assms by (auto simp: same_view_def)

lemma get_cap_view: "same_view c k k' \<Longrightarrow>
    cap_node_get_cap (ks_nodes k') (Slot c j) = cap_node_get_cap (ks_nodes k) (Slot c j)"
  by (cases "node_live (ks_nodes k) (Slot c j)") (simp_all add: get_cap_live same_viewD)

lemma slot_live_at: "node_live h (Slot i j) \<longleftrightarrow> (\<exists>x. cap_at h (Slot i j) x)"
  by (simp add: cap_at_def)

section \<open>Calls that only read and write registers\<close>

lemma register_view:
  assumes "kinv k" "kinv k'" "same_view c k k'"
  shows "same_result c (syscall_read_reg r k) (syscall_read_reg r k')"
    "same_result c (syscall_write_reg r v k) (syscall_write_reg r v k')"
    "same_result c (syscall_get_pid k) (syscall_get_pid k')"
    "same_result c (syscall_yield k) (syscall_yield k')"
    "same_result c (syscall_unimplemented k) (syscall_unimplemented k')"
    "same_result c (syscall_read_cap cidx k) (syscall_read_cap cidx k')"
proof -
  note d = same_viewD [OF assms(3)]
  have p: "c < N_PROC" by (rule kinvD(6) [OF assms(1) d(1)])
  show "same_result c (syscall_read_reg r k) (syscall_read_reg r k')"
    "same_result c (syscall_write_reg r v k) (syscall_write_reg r v k')"
    "same_result c (syscall_get_pid k) (syscall_get_pid k')"
    "same_result c (syscall_unimplemented k) (syscall_unimplemented k')"
    using assms(3) by (simp_all add: syscall_read_reg_def syscall_write_reg_def syscall_get_pid_def
        syscall_unimplemented_def deref_current_def d same_view_upd)
  show "same_result c (syscall_yield k) (syscall_yield k')"
    using assms(3) by (simp add: syscall_yield_def deref_current_def d same_view_put)
  show "same_result c (syscall_read_cap cidx k) (syscall_read_cap cidx k')"
    using assms by (simp add: syscall_read_cap_def assert_current_def d cap_node_of_runs p Let_def
        get_cap_view [OF assms(3)] same_view_put)
qed

section \<open>Calls on capabilities\<close>

lemma move_view:
  assumes inv: "kinv k" "kinv k'" and v: "same_view c k k'"
  shows "same_result c (syscall_move_cap sc dc k) (syscall_move_cap sc dc k')"
proof -
  note d = same_viewD [OF v]
  have p: "c < N_PROC" by (rule kinvD(6) [OF inv(1) d(1)])
  let ?s = "slot_of c sc" and ?d = "slot_of c dc"
  note run = syscall_move_cap_def assert_current_def cap_node_of_runs [OF _ p] node_live_deleted
    get_cap_live node_move_def cap_node_move_def Let_def
  show ?thesis
  proof (cases "node_live (ks_nodes k) ?s \<and> \<not> node_live (ks_nodes k) ?d")
    case False
    then show ?thesis using inv v d by (auto simp: run)
  next
    case True
    have "\<exists>h'. syscall_move_cap sc dc k0 = Inr (Return (err ERROR_OK), k0\<lparr>ks_nodes := h'\<rparr>) \<and>
        (\<forall>x. node_live h' x \<longleftrightarrow> x \<noteq> ?s \<and> (x = ?d \<or> node_live (ks_nodes k0) x)) \<and>
        (\<forall>x. cn_cap (h' x) = (if x = ?d then cn_cap (ks_nodes k0 ?s) else cn_cap (ks_nodes k0 x)))"
      if k0: "kinv k0" "ks_current k0 = Some c" "node_live (ks_nodes k0) ?s" "\<not> node_live (ks_nodes k0) ?d" for k0
      using cs.move_effect [OF caps_invD(1) [OF kinvD(1) [OF k0(1)]] _ _ k0(3,4), of "cn_cap (ks_nodes k0 ?s)"] k0
      by (auto simp: run)
    from this [of k] this [of k'] True inv d obtain h h' where
      "syscall_move_cap sc dc k = Inr (Return (err ERROR_OK), k\<lparr>ks_nodes := h\<rparr>)"
      "\<And>x. node_live h x \<longleftrightarrow> x \<noteq> ?s \<and> (x = ?d \<or> node_live (ks_nodes k) x)"
      "\<And>x. cn_cap (h x) = (if x = ?d then cn_cap (ks_nodes k ?s) else cn_cap (ks_nodes k x))"
      "syscall_move_cap sc dc k' = Inr (Return (err ERROR_OK), k'\<lparr>ks_nodes := h'\<rparr>)"
      "\<And>x. node_live h' x \<longleftrightarrow> x \<noteq> ?s \<and> (x = ?d \<or> node_live (ks_nodes k') x)"
      "\<And>x. cn_cap (h' x) = (if x = ?d then cn_cap (ks_nodes k' ?s) else cn_cap (ks_nodes k' x))"
      by blast
    then show ?thesis using v d by (simp add: same_view_nodes [OF v] same_slots_def)
  qed
qed

lemma delete_view:
  assumes inv: "kinv k" "kinv k'" and v: "same_view c k k'"
  shows "same_result c (syscall_delete_cap sc k) (syscall_delete_cap sc k')"
proof -
  note d = same_viewD [OF v]
  have p: "c < N_PROC" by (rule kinvD(6) [OF inv(1) d(1)])
  let ?s = "slot_of c sc" and ?x = "cn_cap (ks_nodes k (slot_of c sc))"
  show ?thesis
  proof (cases "node_live (ks_nodes k) ?s")
    case False
    then show ?thesis using delete_cap_effect(1) inv v d by simp
  next
    case True
    then have at: "cap_at (ks_nodes k) ?s ?x" "cap_at (ks_nodes k') ?s ?x" using d by (simp_all add: cap_at_def)
    show ?thesis
    proof (cases "spent_time ?x")
      case sp: True
      show ?thesis using delete_cap_effect(2) [OF inv(1) d(1) at(1) sp] delete_cap_effect(2) [OF inv(2) d(2) at(2) sp]
        by simp
    next
      case False
      have "\<exists>k1. syscall_delete_cap sc k0 = Inr (Return (err ERROR_OK), k1) \<and>
          ks_current k1 = ks_current k0 \<and> ks_procs k1 = ks_procs k0 \<and> ks_hartid k1 = ks_hartid k0 \<and>
          ks_mtimecmp k1 = ks_mtimecmp k0 \<and>
          (\<forall>x. node_live (ks_nodes k1) x \<longleftrightarrow> x \<noteq> ?s \<and> node_live (ks_nodes k0) x) \<and>
          (\<forall>x. cn_cap (ks_nodes k1 x) = cn_cap (ks_nodes k0 x))"
        if k0: "kinv k0" "ks_current k0 = Some c" "cap_at (ks_nodes k0) ?s ?x" for k0
      proof -
        have l: "node_live (ks_nodes k0) ?s" "cn_cap (ks_nodes k0 ?s) = ?x" using k0(3) by (simp_all add: cap_at_def)
        obtain h' where h': "cap_node_delete ?s (ks_nodes k0) = Inr (True, h')"
          "\<And>x. node_live h' x \<longleftrightarrow> x \<noteq> ?s \<and> node_live (ks_nodes k0) x" "\<And>x. cn_cap (h' x) = cn_cap (ks_nodes k0 x)"
          using cs.del_live [OF caps_invD(1) [OF kinvD(1) [OF k0(1)]] _ l(1)] by auto
        obtain k1 where k1: "syscall_delete_cap sc k0 = Inr (Return (err ERROR_OK), k1)"
          using delete_cap_effect(3) [OF k0 False] by blast
        have "syscall_delete_cap sc k0 = ebind (cap_update_hook None ?s ?x (k0\<lparr>ks_nodes := h'\<rparr>))
            (\<lambda>k. Inr (Return (err ERROR_OK), k))"
          using l h'(1) by (simp add: syscall_delete_cap_def assert_current_def k0(2) cap_node_of_runs [OF k0(1) p]
              node_live_deleted get_cap_live node_delete_def Let_def)
        then have "cap_update_hook None ?s ?x (k0\<lparr>ks_nodes := h'\<rparr>) = Inr k1"
          unfolding k1 by (auto simp: ebind_Inr_iff eq_commute [of "Inr _" "ebind _ _"])
        from update_hook_frame [OF this] show ?thesis using k1 h'(2,3) by simp
      qed
      from this [OF inv(1) d(1) at(1)] this [OF inv(2) d(2) at(2)] obtain k1 k1' where
        "syscall_delete_cap sc k = Inr (Return (err ERROR_OK), k1)"
        "ks_current k1 = ks_current k" "ks_procs k1 = ks_procs k" "ks_hartid k1 = ks_hartid k"
        "ks_mtimecmp k1 = ks_mtimecmp k" "\<And>x. node_live (ks_nodes k1) x \<longleftrightarrow> x \<noteq> ?s \<and> node_live (ks_nodes k) x"
        "\<And>x. cn_cap (ks_nodes k1 x) = cn_cap (ks_nodes k x)"
        "syscall_delete_cap sc k' = Inr (Return (err ERROR_OK), k1')"
        "ks_current k1' = ks_current k'" "ks_procs k1' = ks_procs k'" "ks_hartid k1' = ks_hartid k'"
        "ks_mtimecmp k1' = ks_mtimecmp k'" "\<And>x. node_live (ks_nodes k1') x \<longleftrightarrow> x \<noteq> ?s \<and> node_live (ks_nodes k') x"
        "\<And>x. cn_cap (ks_nodes k1' x) = cn_cap (ks_nodes k' x)" by blast
      then show ?thesis using d by (simp add: same_view_nodes [OF v] same_slots_def)
    qed
  qed
qed

lemma derive_body_view:
  assumes inv: "kinv k" "kinv k'" and v: "same_view c k k'"
    and live: "node_live (ks_nodes k) (slot_of c sc)" "\<not> node_live (ks_nodes k) (slot_of c dc)"
    and can: "cap_can_derive (cn_cap (ks_nodes k (slot_of c sc))) new"
  shows "same_result c (derive_body c (slot_of c sc) (slot_of c dc) (cn_cap (ks_nodes k (slot_of c sc))) new k)
    (derive_body c (slot_of c sc) (slot_of c dc) (cn_cap (ks_nodes k (slot_of c sc))) new k')"
proof -
  note d = same_viewD [OF v]
  have p: "c < N_PROC" by (rule kinvD(6) [OF inv(1) d(1)])
  let ?s = "slot_of c sc" and ?d = "slot_of c dc" and ?x = "cn_cap (ks_nodes k (slot_of c sc))"
  have run: "\<exists>k1 p'. derive_body c ?s ?d ?x new k0 = Inr (Return (err ERROR_OK), k1) \<and>
      derive_update_cap ?x new = Inr p' \<and> ks_current k1 = ks_current k0 \<and> ks_procs k1 = ks_procs k0 \<and>
      ks_hartid k1 = ks_hartid k0 \<and> ks_mtimecmp k1 = ks_mtimecmp k0 \<and>
      (\<forall>j. node_live (ks_nodes k1) (Slot c j) \<longleftrightarrow> Slot c j = ?d \<or> node_live (ks_nodes k0) (Slot c j)) \<and>
      (\<forall>n. cn_cap (ks_nodes k1 n) = (if n = ?d then new else if n = ?s then p' else cn_cap (ks_nodes k0 n)))"
    if k0: "kinv k0" "node_live (ks_nodes k0) ?s" "\<not> node_live (ks_nodes k0) ?d" "cn_cap (ks_nodes k0 ?s) = ?x" for k0
  proof -
    from derive_body_runs [OF k0(1) p refl _ k0(2) refl _ k0(3), of new] k0(4) can p
    obtain k1 p' where k1: "derive_body c ?s ?d ?x new k0 = Inr (Return (err ERROR_OK), k1)"
      "keeps k0 (Inr ((), k1))" "derive_update_cap ?x new = Inr p'" "ks_procs k1 = ks_procs k0"
      "ks_mtimecmp k1 = ks_mtimecmp k0"
      "\<forall>n x. cap_at (ks_nodes k1) n x \<longleftrightarrow>
         (if n = ?d then x = new else if n = ?s then x = p' else cap_at (ks_nodes k0) n x)"
      "\<forall>n. cn_cap (ks_nodes k1 n) = (if n = ?d then new else if n = ?s then p' else cn_cap (ks_nodes k0 n))"
      by auto
    have "node_live (ks_nodes k1) (Slot c j) \<longleftrightarrow> Slot c j = ?d \<or> node_live (ks_nodes k0) (Slot c j)" for j
      using k1(6) k0(2) by (auto simp: slot_live_at)
    then show ?thesis using k1 by simp
  qed
  have "cn_cap (ks_nodes k' ?s) = ?x" "node_live (ks_nodes k') ?s" "\<not> node_live (ks_nodes k') ?d"
    using d live by simp_all
  from run [OF inv(1) live refl] run [OF inv(2) this(2,3,1)] show ?thesis
    using d by (auto simp: same_view_nodes [OF v] same_slots_def)
qed

lemma derive_view:
  assumes inv: "kinv k" "kinv k'" and v: "same_view c k k'"
  shows "same_result c (syscall_derive_cap irq sc dc w0 w1 k) (syscall_derive_cap irq sc dc w0 w1 k')"
proof -
  note d = same_viewD [OF v]
  have p: "c < N_PROC" by (rule kinvD(6) [OF inv(1) d(1)])
  let ?s = "slot_of c sc" and ?d = "slot_of c dc" and ?x = "cn_cap (ks_nodes k (slot_of c sc))"
  let ?new = "\<lparr>word0 = w0, word1 = w1\<rparr>"
  let ?f = "\<lambda>k. preemption_enable (put_reg c A0 (err ERROR_PREEMPTED) k)"
  note run = syscall_derive_cap_def assert_current_def cap_node_of_runs p node_live_deleted get_cap_live Let_def
  have vf: "same_view c (?f k) (?f k')" "same_view c (preemption_disable (?f k)) (preemption_disable (?f k'))"
    using v by (simp_all add: same_view_put)
  show ?thesis
  proof (cases "irq \<or> \<not> node_live (ks_nodes k) ?s \<or> node_live (ks_nodes k) ?d \<or> \<not> cap_can_derive ?x ?new")
    case True
    have ir: "same_result c (Inr (x, ?f k)) (Inr (x, ?f k'))"
      "same_result c (Inr (x, preemption_disable (?f k))) (Inr (x, preemption_disable (?f k')))" for x :: outcome
      using vf by simp_all
    show ?thesis using True inv v d ir
      by (auto simp: run simp del: same_result.simps err.simps)
  next
    case False
    have "syscall_derive_cap irq sc dc w0 w1 k0 = derive_body c ?s ?d ?x ?new (preemption_disable (?f k0))"
      if "kinv k0" "ks_current k0 = Some c" "node_live (ks_nodes k0) ?s" "\<not> node_live (ks_nodes k0) ?d"
        "cn_cap (ks_nodes k0 ?s) = ?x" for k0
      using that False by (simp add: run derive_body_def)
    then have "syscall_derive_cap irq sc dc w0 w1 k = derive_body c ?s ?d ?x ?new (preemption_disable (?f k))"
      "syscall_derive_cap irq sc dc w0 w1 k' = derive_body c ?s ?d ?x ?new (preemption_disable (?f k'))"
      using inv d False by simp_all
    moreover have "ks_nodes (preemption_disable (?f k)) = ks_nodes k" by simp
    note derive_body_view [of "preemption_disable (?f k)" "preemption_disable (?f k')" c sc dc ?new, unfolded this,
        OF _ _ vf(2)]
    ultimately show ?thesis using inv False by simp
  qed
qed

lemma revoke_view:
  assumes inv: "kinv k" "kinv k'" and v: "same_view c k k'"
  shows "same_result c (syscall_revoke_cap irq sc k) (syscall_revoke_cap irq sc k')"
proof -
  note d = same_viewD [OF v]
  have p: "c < N_PROC" by (rule kinvD(6) [OF inv(1) d(1)])
  let ?s = "slot_of c sc" and ?x = "cn_cap (ks_nodes k (slot_of c sc))"
  let ?f = "\<lambda>k. preemption_enable (put_reg c A0 (err ERROR_PREEMPTED) k)"
  note run = syscall_revoke_cap_def assert_current_def cap_node_of_runs p node_live_deleted Let_def
    revoke_loop.simps
  have vf: "same_view c (?f k) (?f k')" "same_view c (preemption_disable (?f k)) (preemption_disable (?f k'))"
    using v by (simp_all add: same_view_put)
  show ?thesis
  proof (cases "irq 0 \<or> irq 1 \<or> node_live (ks_nodes k) ?s")
    case True
    then show ?thesis using inv v d vf by (auto simp: run)
  next
    case False
    have dead: "syscall_revoke_cap irq sc k0 = ebind (revoke_update_cap ?x) (\<lambda>x'.
        ebind (cap_update_hook (Some c) ?s ?x
          ((preemption_disable (?f k0))\<lparr>ks_nodes := set_cap (ks_nodes k0) ?s x'\<rparr>)) (\<lambda>k.
        Inr (Return (err ERROR_OK), k)))"
      if "kinv k0" "ks_current k0 = Some c" "\<not> node_live (ks_nodes k0) ?s" "cn_cap (ks_nodes k0 ?s) = ?x" for k0
      using False that by (simp add: run)
    have dk: "\<not> node_live (ks_nodes k) ?s" "\<not> node_live (ks_nodes k') ?s" "cn_cap (ks_nodes k' ?s) = ?x"
      using False d by simp_all
    show ?thesis
    proof (cases "revoke_update_cap ?x")
      case (Inl e)
      then show ?thesis using dead [OF inv(1) d(1) dk(1) refl] dead [OF inv(2) d(2) dk(2,3)] by simp
    next
      case (Inr x')
      have hook: "if spent_time ?x then syscall_revoke_cap irq sc k0 = Inl Assert_failed
        else \<exists>k1. syscall_revoke_cap irq sc k0 = Inr (Return (err ERROR_OK), k1) \<and>
          ks_current k1 = ks_current (?f k0) \<and> ks_procs k1 = ks_procs (?f k0) \<and> ks_hartid k1 = ks_hartid (?f k0) \<and>
          ks_mtimecmp k1 = ks_mtimecmp (?f k0) \<and> ks_nodes k1 = set_cap (ks_nodes k0) ?s x'"
        if k0: "kinv k0" "ks_current k0 = Some c" "\<not> node_live (ks_nodes k0) ?s" "cn_cap (ks_nodes k0 ?s) = ?x" for k0
      proof -
        let ?k = "(preemption_disable (?f k0))\<lparr>ks_nodes := set_cap (ks_nodes k0) ?s x'\<rparr>"
        have "kinv (preemption_disable (?f k0))" using k0(1) by simp
        from kinvD(4) [OF this] have t: "tables_ok ?k" by (simp add: tables_ok_def)
        have ok: "cap_ok ?x" using kinvD(2) [OF k0(1)] k0(4) by (metis is_slot.simps(1) raw_ok_def)
        note dd = dead [OF k0]
        show ?thesis
        proof (cases "spent_time ?x")
          case True
          then show ?thesis using dd Inr by (simp add: hook_spent)
        next
          case False
          have "\<not> node_live (ks_nodes ?k) ?s" using k0(3) by simp
          from hook_dead [OF t ok False this, of "Some c"] p obtain l1 l2 where
            "cap_update_hook (Some c) ?s ?x ?k = Inr (?k\<lparr>ks_sched_lock := l1, ks_receivers_lock := l2\<rparr>)" by auto
          then show ?thesis using dd Inr False by (simp add: preemption_disable_def)
        qed
      qed
      show ?thesis
      proof (cases "spent_time ?x")
        case True
        then show ?thesis using hook [OF inv(1) d(1) dk(1) refl] hook [OF inv(2) d(2) dk(2,3)] by simp
      next
        case False
        obtain k1 k1' where k1: "syscall_revoke_cap irq sc k = Inr (Return (err ERROR_OK), k1)"
          "ks_current k1 = ks_current (?f k)" "ks_procs k1 = ks_procs (?f k)" "ks_hartid k1 = ks_hartid (?f k)"
          "ks_mtimecmp k1 = ks_mtimecmp (?f k)" "ks_nodes k1 = set_cap (ks_nodes k) ?s x'"
          and k1': "syscall_revoke_cap irq sc k' = Inr (Return (err ERROR_OK), k1')"
          "ks_current k1' = ks_current (?f k')" "ks_procs k1' = ks_procs (?f k')" "ks_hartid k1' = ks_hartid (?f k')"
          "ks_mtimecmp k1' = ks_mtimecmp (?f k')" "ks_nodes k1' = set_cap (ks_nodes k') ?s x'"
          using hook [OF inv(1) d(1) dk(1) refl] hook [OF inv(2) d(2) dk(2,3)] False by auto
        have "same_slots c (ks_nodes k1) (ks_nodes k1')"
          using v k1(6) k1'(6) by (auto simp: same_view_def same_slots_def node_live_def)
        from same_view_nodes [OF vf(1) this k1(2-5) k1'(2-5)] show ?thesis using k1(1) k1'(1) by simp
      qed
    qed
  qed
qed

section \<open>Traps\<close>

lemma result_if: "(b \<Longrightarrow> same_result c x x') \<Longrightarrow> (\<not> b \<Longrightarrow> same_result c y y') \<Longrightarrow>
    same_result c (if b then x else y) (if b then x' else y')"
  by simp

lemmas handler_view = register_view move_view delete_view derive_view revoke_view

lemma vector_view:
  assumes "kinv k" "kinv k'" "same_view c k k'" "n \<noteq> call_num ECALL_INVOKE_CAP"
  shows "same_result c (syscall_vector irq n r k) (syscall_vector irq n r k')"
  unfolding syscall_vector_def if_distrib [where f = "\<lambda>f. f k"] if_distrib [where f = "\<lambda>f. f k'"]
  by (intro result_if; (rule handler_view [OF assms(1-3)] | use assms(4) in blast))

lemma result_bind:
  assumes "same_result c m m'" "\<And>x k k'. same_view c k k' \<Longrightarrow> same_result c (f (x, k)) (f (x, k'))"
  shows "same_result c (ebind m f) (ebind m' f)"
  using assms by (cases m; cases m') auto

text \<open>C5: a trap shows a process nothing of the others. In any two reachable states with the
  same view for the running process, the same trap, unless it invokes a capability, has the
  same outcome and leaves the same view: what other processes hold, their registers and
  states, the schedule and the receivers make no difference.\<close>

theorem trap_confidential:
  assumes "reachable k" "reachable k'" "same_view c k k'"
    and "mcause = MCAUSE_U_ECALL \<longrightarrow> unat (hw T0) \<noteq> call_num ECALL_INVOKE_CAP"
  shows "same_result c (trap_entry hw mcause mtval irq k) (trap_entry hw mcause mtval irq k')"
proof -
  note inv = assms(1,2) [THEN reachable_kinv]
  note d = same_viewD [OF assms(3)]
  consider "bit mcause 63" | "\<not> bit mcause 63" "mcause \<noteq> MCAUSE_U_ECALL" | "\<not> bit mcause 63" "mcause = MCAUSE_U_ECALL"
    by blast
  then show ?thesis
  proof cases
    case 3
    have e: "same_view c (entered c hw k) (entered c hw k')"
      unfolding entered_def by (intro same_view_put(1) same_view_upd assms(3)) simp
    have pr: "ks_procs (entered c hw k') c = ks_procs (entered c hw k) c" using same_viewD(3) [OF e] .
    have m: "same_result c (if NUM_OF_SYSNR \<le> n then syscall_unimplemented (entered c hw k) else syscall_vector irq n r (entered c hw k))
        (if NUM_OF_SYSNR \<le> n then syscall_unimplemented (entered c hw k') else syscall_vector irq n r (entered c hw k'))"
      if "n \<noteq> call_num ECALL_INVOKE_CAP" for n r
      using register_view(5) [OF _ _ e] vector_view [OF _ _ e that] inv by (intro result_if) simp_all
    have n: "unat (hw T0) \<noteq> call_num ECALL_INVOKE_CAP" using 3 assms(4) by blast
    show ?thesis
      unfolding 3(2) trap_entry_ecall [OF d(1)] trap_entry_ecall [OF d(2)] pr
      by (rule result_bind [OF m [OF n]]) (simp add: same_view_put split: outcome.split)
  qed (use assms(3) d in \<open>simp_all add: trap_entry_def deref_current_def Let_def same_view_upd\<close>)
qed

text \<open>Two boots with different root payloads look the same to process 1.\<close>

theorem trap_confidential_witness:
  "same_result 1 (trap_entry (\<lambda>_. 2) 8 0 (\<lambda>_. False) ((root_running 0 1)\<lparr>ks_current := Some 1\<rparr>))
     (trap_entry (\<lambda>_. 2) 8 0 (\<lambda>_. False) ((root_running 4096 1)\<lparr>ks_current := Some 1\<rparr>)) \<and>
   ks_procs (root_running 0 1) 0 \<noteq> ks_procs (root_running 4096 1) 0"
proof -
  let ?k = "\<lambda>p. (root_running p 1)\<lparr>ks_current := Some 1\<rparr>"
  have r: "reachable (?k p)" if "fits 32 (drop_bit 12 p)" for p
  proof -
    have e: "(root_running p 1)\<lparr>ks_hartid := 1, ks_current := Some 1\<rparr> = ?k p"
      by (simp add: root_running_def boot_state_def bss_def)
    have "kstep (root_running p 1) ((root_running p 1)\<lparr>ks_hartid := 1, ks_current := Some 1\<rparr>)"
      by (rule kstep.enter) (simp_all add: hart_ok_def config_defs)
    moreover have "reachable (root_running p 1)"
      using that by (intro reachable_boot(2)) (simp_all add: hart_ok_def config_defs)
    ultimately show ?thesis unfolding e by (rule reachable_step [rotated])
  qed
  have v: "same_view 1 (?k 0) (?k 4096)"
    by (simp add: same_view_def same_slots_def node_live_def boot_heap_live boot_heap_cap boot_procs_def
        root_running_def boot_state_def bss_def del: not_None_eq)
  have "reachable (?k 0)" "reachable (?k 4096)" by (intro r; simp)+
  from trap_confidential [OF this v, of 8 "\<lambda>_. 2" 0 "\<lambda>_. False"]
  moreover have "p_regs (boot_procs 0 0) PC \<noteq> p_regs (boot_procs 4096 0) PC"
    by (simp add: boot_procs_def)
  ultimately show ?thesis by (auto simp: MCAUSE_U_ECALL_def)
qed

end
