(* ===== verification/Board.thy ===== *)
theory Board
  imports Sched
begin

text \<open>
  The devices of the \<open>virt\<close> board: the timer (CLINT) as 64-bit registers by address, the UART as
  byte registers by offset, the accessors of \<open>bsp/virt.h\<close>, and the part of dispatching that waits
  for a slice to start. What the interrupt-pending register reads is a parameter.
\<close>

section \<open>Device registers\<close>

record board =
  clint :: "u64 \<Rightarrow> u64"
  uart :: "nat \<Rightarrow> 8 word"

type_synonym i32 = "32 word"

definition MTIME :: u64 where "MTIME = 0x200bff8"

text \<open>The index is an \<open>int\<close>: the product overflows outside \<open>[-2^28, 2^28)\<close>, and is sign-extended when
  it is added to the base.\<close>

definition MTIMECMP :: "i32 \<Rightarrow> stop + u64" where
  "MTIMECMP x = (if sint x * 8 < - (2 ^ 31) \<or> 2 ^ 31 \<le> sint x * 8 then Inl Undefined
     else Inr (0x2004000 + word_of_int (sint x * 8)))"

definition read_time :: "board \<Rightarrow> u64" where
  "read_time b = clint b MTIME"

definition write_time :: "u64 \<Rightarrow> board \<Rightarrow> board" where
  "write_time time b = b\<lparr>clint := (clint b)(MTIME := time)\<rparr>"

definition read_timeout :: "i32 \<Rightarrow> board \<Rightarrow> stop + u64" where
  "read_timeout hartid b = ebind (MTIMECMP hartid) (\<lambda>a. Inr (clint b a))"

definition write_timeout :: "i32 \<Rightarrow> u64 \<Rightarrow> board \<Rightarrow> stop + board" where
  "write_timeout hartid timeout b = ebind (MTIMECMP hartid) (\<lambda>a. Inr (b\<lparr>clint := (clint b)(a := timeout)\<rparr>))"

definition uart_init :: "board \<Rightarrow> board" where
  "uart_init b = b\<lparr>uart := (uart b)(3 := 3, 2 := 1)\<rparr>"

definition uart_getchar :: "board \<Rightarrow> i32" where
  "uart_getchar b = (if uart b 5 AND 1 \<noteq> 0 then ucast (uart b 0) else 0)"

section \<open>Waiting for a slice\<close>

text \<open>The loop \<open>while (!(read_csr(mip) & 128)) wfi\<close>: \<open>mip b i\<close> is the \<open>i\<close>-th reading of \<open>mip\<close> while the
  timer registers are those of \<open>b\<close>.\<close>

partial_function (option) wait_mip :: "(board \<Rightarrow> nat \<Rightarrow> u64) \<Rightarrow> nat \<Rightarrow> board \<Rightarrow> nat option" where
  "wait_mip mip i b = (if mip b i AND 128 \<noteq> 0 then Some i else wait_mip mip (Suc i) b)"

text \<open>All of \<open>wait_and_set_timeout\<close>, with the number of readings the loop took.\<close>

definition wait_for_slice ::
    "(board \<Rightarrow> nat \<Rightarrow> u64) \<Rightarrow> u64 \<Rightarrow> u64 \<Rightarrow> u64 \<Rightarrow> u64 \<Rightarrow> board \<Rightarrow> stop + board \<times> nat" where
  "wait_for_slice mip hartid time len timeout b =
     (case wait_and_set_timeout time len timeout of (start_time, end_time) \<Rightarrow>
        ebind (write_timeout (ucast hartid) start_time b) (\<lambda>b.
        ebind (run_loop (map_option Inr (wait_mip mip 0 b))) (\<lambda>i.
        ebind (write_timeout (ucast hartid) end_time b) (\<lambda>b. Inr (b, i)))))"

text \<open>The compare register of a hart.\<close>

definition timer :: "board \<Rightarrow> u64 \<Rightarrow> u64" where
  "timer b hartid = clint b (0x2004000 + 8 * hartid)"

lemma harts:
  assumes "hart_ok h"
  shows "h = 1 \<or> h = 2 \<or> h = 3 \<or> h = 4"
proof -
  have "unat h = 1 \<or> unat h = 2 \<or> unat h = 3 \<or> unat h = 4" using assms by (auto simp: hart_ok_def config_defs)
  moreover have "unat h = n \<Longrightarrow> h = of_nat n" for n by (metis of_nat_unat ucast_id)
  ultimately show ?thesis by fastforce
qed

lemma MTIMECMP_hart: "hart_ok h \<Longrightarrow> MTIMECMP (ucast h) = Inr (0x2004000 + 8 * h)"
  by (drule harts) (auto simp: MTIMECMP_def)

lemma timer_write:
  assumes "hart_ok h"
  shows "write_timeout (ucast h) t b = Inr (b\<lparr>clint := (clint b)(0x2004000 + 8 * h := t)\<rparr>)"
    "read_timeout (ucast h) b = Inr (timer b h)"
  using assms by (simp_all add: write_timeout_def read_timeout_def timer_def MTIMECMP_hart)

lemma timer_apart:
  assumes "hart_ok h" "hart_ok h'"
  shows "timer (b\<lparr>clint := (clint b)(0x2004000 + 8 * h := t)\<rparr>) h' = (if h' = h then t else timer b h')"
    "clint (b\<lparr>clint := (clint b)(0x2004000 + 8 * h := t)\<rparr>) MTIME = clint b MTIME"
  using harts [OF assms(1)] harts [OF assms(2)] by (auto simp: timer_def MTIME_def)

text \<open>The loop ends at the first reading with the bit set, and never if there is none.\<close>

lemma wait_mip_ends:
  assumes "mip b (i + n) AND 128 \<noteq> 0" "\<And>j. j < n \<Longrightarrow> mip b (i + j) AND 128 = 0"
  shows "wait_mip mip i b = Some (i + n)"
  using assms
proof (induction n arbitrary: i)
  case (Suc n)
  have "mip b i AND 128 = 0" using Suc.prems(2) [of 0] by simp
  moreover have "wait_mip mip (Suc i) b = Some (Suc i + n)"
    using Suc.prems(1) Suc.prems(2) [of "Suc j" for j] by (intro Suc.IH) auto
  ultimately show ?case by (subst wait_mip.simps) simp
qed (subst wait_mip.simps, simp)

lemma wait_mip_some:
  assumes "wait_mip mip i b = Some n"
  shows "mip b n AND 128 \<noteq> 0"
  by (rule wait_mip.raw_induct [where P = "\<lambda>mip i b n. mip b n AND 128 \<noteq> 0", OF _ assms])
    (auto split: if_splits)

lemma wait_mip_first:
  "wait_mip mip 0 b = (if \<exists>n. mip b n AND 128 \<noteq> 0 then Some (LEAST n. mip b n AND 128 \<noteq> 0) else None)"
proof (cases "\<exists>n. mip b n AND 128 \<noteq> 0")
  case True
  define n where "n = (LEAST n. mip b n AND 128 \<noteq> 0)"
  have "wait_mip mip 0 b = Some (0 + n)"
  proof (rule wait_mip_ends)
    show "mip b (0 + n) AND 128 \<noteq> 0" using LeastI_ex [OF True] by (simp add: n_def)
    show "mip b (0 + j) AND 128 = 0" if "j < n" for j using not_less_Least [OF that [unfolded n_def]] by simp
  qed
  then show ?thesis using True by (simp add: n_def)
next
  case False
  then have "wait_mip mip 0 b \<noteq> Some n" for n using wait_mip_some by blast
  then show ?thesis using False by auto
qed

text \<open>C34: waiting for a slice. If the timer interrupt of the hart is pending exactly while the clock
  has reached its compare register, the wait ends at the first reading of the clock that is
  not before the start of the slice, and spins for ever if there is none; then the compare
  register holds the end of the slice, and the clock and the registers of the other harts are as before.\<close>

theorem slice_waited_for:
  assumes "hart_ok h" "\<And>b i. mip b i AND 128 \<noteq> 0 \<longleftrightarrow> timer b h \<le> now i"
    and "wait_and_set_timeout time len timeout = (s, e)"
  shows "if \<exists>i. s \<le> now i then \<exists>b' n. wait_for_slice mip h time len timeout b = Inr (b', n) \<and>
      s \<le> now n \<and> (\<forall>i < n. now i < s) \<and> read_time b' = read_time b \<and> uart b' = uart b \<and>
      (\<forall>h'. hart_ok h' \<longrightarrow> read_timeout (ucast h') b' = (if h' = h then Inr e else read_timeout (ucast h') b))
    else wait_for_slice mip h time len timeout b = Inl Spins"
proof -
  let ?b = "b\<lparr>clint := (clint b)(0x2004000 + 8 * h := s)\<rparr>"
  have m: "mip ?b i AND 128 \<noteq> 0 \<longleftrightarrow> s \<le> now i" for i
    using assms(2) [of ?b] timer_apart(1) [OF assms(1,1)] by simp
  have run: "wait_for_slice mip h time len timeout b =
    (if \<exists>i. s \<le> now i then Inr (?b\<lparr>clint := (clint ?b)(0x2004000 + 8 * h := e)\<rparr>, LEAST i. s \<le> now i) else Inl Spins)"
    unfolding wait_for_slice_def assms(3) using m
    by (simp add: timer_write [OF assms(1)] run_loop_def wait_mip_first)
  show ?thesis
  proof (cases "\<exists>i. s \<le> now i")
    case True
    let ?b' = "?b\<lparr>clint := (clint ?b)(0x2004000 + 8 * h := e)\<rparr>"
    have "read_timeout (ucast h') ?b' = (if h' = h then Inr e else read_timeout (ucast h') b)" if "hart_ok h'" for h'
      using that assms(1) timer_apart(1) by (simp add: timer_write del: fun_upd_apply)
    moreover have "read_time ?b' = read_time b" using timer_apart(2) [OF assms(1,1)] by (simp add: read_time_def)
    moreover have "s \<le> now (LEAST i. s \<le> now i)" using True by (rule LeastI_ex)
    moreover have "\<forall>i < (LEAST i. s \<le> now i). now i < s" using not_less_Least not_le by blast
    ultimately show ?thesis using True run by auto
  qed (use run in simp)
qed

text \<open>A slice of five quanta from quantum 2 on, with a clock read once per quantum.\<close>

theorem slice_waited_for_witness:
  "\<exists>b'. wait_for_slice (\<lambda>b i. if timer b 1 \<le> 781 * of_nat i then 128 else 0) 1 2 5 0 \<lparr>clint = \<lambda>_. 7, uart = \<lambda>_. 0\<rparr> =
      Inr (b', 2) \<and> read_timeout 1 b' = Inr 3467 \<and> read_timeout 2 b' = Inr 7"
proof -
  let ?now = "\<lambda>i. 781 * of_nat i :: u64" and ?b = "\<lparr>clint = \<lambda>_. 7, uart = \<lambda>_. 0\<rparr>"
  let ?mip = "\<lambda>b i. if timer b 1 \<le> ?now i then 128 else 0 :: u64"
  have h: "hart_ok 1" "hart_ok 2" by (simp_all add: hart_ok_def config_defs)
  have w: "wait_and_set_timeout 2 5 0 = (1562, 3467)" by code_simp
  have i2: "1562 \<le> ?now 2" by simp
  then have "\<exists>i. 1562 \<le> ?now i" by blast
  moreover have m: "?mip b i AND 128 \<noteq> 0 \<longleftrightarrow> timer b 1 \<le> ?now i" for b :: board and i by simp
  note slice_waited_for [where mip = ?mip and now = ?now and b = ?b, OF h(1) m w]
  ultimately obtain b' n where n: "wait_for_slice ?mip 1 2 5 0 ?b = Inr (b', n)" "1562 \<le> ?now n" "\<forall>i < n. ?now i < 1562"
    "\<And>h'. hart_ok h' \<Longrightarrow> read_timeout (ucast h') b' = (if h' = 1 then Inr 3467 else read_timeout (ucast h') ?b)"
    by auto
  have "\<not> 2 < n" using n(3) i2 leD by blast
  moreover have "n \<noteq> 0" "n \<noteq> 1" by (rule notI, use n(2) in simp)+
  ultimately have "n = 2" by linarith
  then show ?thesis using n(1) n(4) [OF h(1)] n(4) [OF h(2)] timer_write(2) [OF h(2), of ?b] by (simp add: timer_def)
qed

end
