(* ===== verification/UserLib.thy ===== *)
theory UserLib
  imports Locality
begin

text \<open>
  The user library \<open>api/s3k.h\<close>: how each function loads the registers for its system call
  and what it reads back. The constants \<open>S3K_SYSNR_*\<close> and \<open>S3K_OK\<close> are not defined in the
  repository; they are the parameters of the model, the record \<open>api\<close>. A function takes
  the registers as the compiler happens to leave them and gives them as they are at the
  \<open>ecall\<close>.
\<close>

section \<open>System calls with up to eight arguments\<close>

record api =
  sysnr :: "s3k_call \<Rightarrow> u64"
  sup_sysnr :: "s3k_call_sup \<Rightarrow> u64"
  S3K_OK :: u64

definition arg_regs :: "reg list" where
  "arg_regs = [A0, A1, A2, A3, A4, A5, A6, A7]"

text \<open>Loading values into registers, the first value into the first register.\<close>

fun load_regs :: "reg list \<Rightarrow> u64 list \<Rightarrow> regs \<Rightarrow> regs" where
  "load_regs (r # rs) (v # vs) hw = load_regs rs vs (hw(r := v))"
| "load_regs _ _ hw = hw"

text \<open>
  The assembly names as inputs only the first \<open>argc\<close> argument registers and \<open>t0\<close>; the
  default case of the switch loops for ever.
\<close>

definition S3K_SYSCALL :: "nat \<Rightarrow> u64 \<Rightarrow> u64 list \<Rightarrow> regs \<Rightarrow> regs option" where
  "S3K_SYSCALL argc nr args hw =
     (if argc \<le> 8 then Some ((load_regs (take argc arg_regs) args hw)(T0 := nr)) else None)"

definition S3K_SYSCALLn :: "u64 \<Rightarrow> u64 list \<Rightarrow> regs \<Rightarrow> regs option" where
  "S3K_SYSCALLn nr args = S3K_SYSCALL (length args) nr (args @ replicate (8 - length args) 0)"

section \<open>The functions\<close>

definition s3k_get_pid :: "api \<Rightarrow> regs \<Rightarrow> regs option" where
  "s3k_get_pid api = S3K_SYSCALLn (sysnr api ECALL_GET_PID) []"

definition s3k_read_reg :: "api \<Rightarrow> u64 \<Rightarrow> regs \<Rightarrow> regs option" where
  "s3k_read_reg api regnr = S3K_SYSCALLn (sysnr api ECALL_READ_REG) [regnr]"

definition s3k_write_reg :: "api \<Rightarrow> u64 \<Rightarrow> u64 \<Rightarrow> regs \<Rightarrow> regs option" where
  "s3k_write_reg api regnr val = S3K_SYSCALLn (sysnr api ECALL_WRITE_REG) [regnr, val]"

definition s3k_yield :: "api \<Rightarrow> regs \<Rightarrow> regs option" where
  "s3k_yield api = S3K_SYSCALLn (sysnr api ECALL_YIELD) []"

definition s3k_read_cap :: "api \<Rightarrow> u64 \<Rightarrow> regs \<Rightarrow> regs option" where
  "s3k_read_cap api cidx hw = Some (hw(A0 := cidx, T0 := sysnr api ECALL_READ_CAP))"

definition s3k_read_cap_result :: "regs \<Rightarrow> u64 \<times> cap_t" where
  "s3k_read_cap_result hw = (hw A0, \<lparr>word0 = hw A1, word1 = hw A2\<rparr>)"

definition s3k_move_cap :: "api \<Rightarrow> u64 \<Rightarrow> u64 \<Rightarrow> regs \<Rightarrow> regs option" where
  "s3k_move_cap api cidx_src cidx_dest = S3K_SYSCALLn (sysnr api ECALL_MOVE_CAP) [cidx_src, cidx_dest]"

definition s3k_delete_cap :: "api \<Rightarrow> u64 \<Rightarrow> regs \<Rightarrow> regs option" where
  "s3k_delete_cap api cidx = S3K_SYSCALLn (sysnr api ECALL_DELETE_CAP) [cidx]"

definition s3k_revoke_cap :: "api \<Rightarrow> u64 \<Rightarrow> regs \<Rightarrow> regs option" where
  "s3k_revoke_cap api cidx = S3K_SYSCALLn (sysnr api ECALL_REVOKE_CAP) [cidx]"

definition s3k_derive_cap :: "api \<Rightarrow> u64 \<Rightarrow> u64 \<Rightarrow> cap_t \<Rightarrow> regs \<Rightarrow> regs option" where
  "s3k_derive_cap api src_cidx dest_cidx cap =
     S3K_SYSCALLn (sysnr api ECALL_DERIVE_CAP) [src_cidx, dest_cidx, word0 cap, word1 cap]"

definition s3k_supervisor_suspend :: "api \<Rightarrow> u64 \<Rightarrow> u64 \<Rightarrow> regs \<Rightarrow> regs option" where
  "s3k_supervisor_suspend api sup_cid pid =
     S3K_SYSCALLn (sysnr api ECALL_INVOKE_CAP) [sup_cid, pid, sup_sysnr api ECALL_SUP_SUSPEND]"

definition s3k_supervisor_resume :: "api \<Rightarrow> u64 \<Rightarrow> u64 \<Rightarrow> regs \<Rightarrow> regs option" where
  "s3k_supervisor_resume api sup_cid pid =
     S3K_SYSCALLn (sysnr api ECALL_INVOKE_CAP) [sup_cid, pid, sup_sysnr api ECALL_SUP_RESUME]"

text \<open>The number goes to \<open>a7\<close>; \<open>t0\<close>, where the kernel looks for it, is not set.\<close>

definition s3k_supervisor_get_state :: "api \<Rightarrow> u64 \<Rightarrow> u64 \<Rightarrow> regs \<Rightarrow> regs option" where
  "s3k_supervisor_get_state api sup_cid pid hw =
     Some (hw(A0 := sup_cid, A1 := pid, A2 := 2, A7 := sup_sysnr api ECALL_SUP_GET_STATE))"

definition s3k_supervisor_get_state_result :: "api \<Rightarrow> regs \<Rightarrow> u64" where
  "s3k_supervisor_get_state_result api hw = (if hw A0 \<noteq> S3K_OK api then - 1 else hw A1)"

definition s3k_supervisor_read_reg :: "api \<Rightarrow> u64 \<Rightarrow> u64 \<Rightarrow> u64 \<Rightarrow> regs \<Rightarrow> regs option" where
  "s3k_supervisor_read_reg api sup_cid pid reg_nr =
     S3K_SYSCALLn (sysnr api ECALL_INVOKE_CAP) [sup_cid, pid, sup_sysnr api ECALL_SUP_READ_REG, reg_nr]"

definition s3k_supervisor_write_reg :: "api \<Rightarrow> u64 \<Rightarrow> u64 \<Rightarrow> u64 \<Rightarrow> u64 \<Rightarrow> regs \<Rightarrow> regs option" where
  "s3k_supervisor_write_reg api sup_cid pid reg_nr val =
     S3K_SYSCALLn (sysnr api ECALL_INVOKE_CAP) [sup_cid, pid, sup_sysnr api ECALL_SUP_WRITE_REG, reg_nr, val]"

text \<open>The number of the operation, not that of the system call, goes to \<open>t0\<close>.\<close>

definition s3k_supervisor_read_cap :: "api \<Rightarrow> u64 \<Rightarrow> u64 \<Rightarrow> u64 \<Rightarrow> regs \<Rightarrow> regs option" where
  "s3k_supervisor_read_cap api sup_cid pid cid hw =
     Some (hw(A0 := sup_cid, A1 := pid, A2 := 5, A3 := cid, T0 := sup_sysnr api ECALL_SUP_READ_CAP))"

definition s3k_supervisor_read_cap_result :: "api \<Rightarrow> regs \<Rightarrow> cap_t" where
  "s3k_supervisor_read_cap_result api hw =
     (if hw A0 = S3K_OK api then \<lparr>word0 = hw A1, word1 = hw A2\<rparr> else NULL_CAP)"

definition s3k_supervisor_give_cap :: "api \<Rightarrow> u64 \<Rightarrow> u64 \<Rightarrow> u64 \<Rightarrow> u64 \<Rightarrow> regs \<Rightarrow> regs option" where
  "s3k_supervisor_give_cap api sup_cid pid src dest =
     S3K_SYSCALLn (sysnr api ECALL_INVOKE_CAP) [sup_cid, pid, sup_sysnr api ECALL_SUP_GIVE_CAP, src, dest]"

definition s3k_supervisor_take_cap :: "api \<Rightarrow> u64 \<Rightarrow> u64 \<Rightarrow> u64 \<Rightarrow> u64 \<Rightarrow> regs \<Rightarrow> regs option" where
  "s3k_supervisor_take_cap api sup_cid pid src dest =
     S3K_SYSCALLn (sysnr api ECALL_INVOKE_CAP) [sup_cid, pid, sup_sysnr api ECALL_SUP_TAKE_CAP, src, dest]"

definition s3k_receive :: "api \<Rightarrow> u64 \<Rightarrow> u64 \<Rightarrow> regs \<Rightarrow> regs option" where
  "s3k_receive api cid dest hw = Some (hw(A0 := cid, A5 := dest, T0 := sysnr api ECALL_INVOKE_CAP))"

definition s3k_receive_result :: "api \<Rightarrow> regs \<Rightarrow> u64 \<times> u64 list" where
  "s3k_receive_result api hw =
     (hw A0, map (\<lambda>r. if hw A0 = S3K_OK api then hw r else 0) [A1, A2, A3, A4])"

definition s3k_send :: "api \<Rightarrow> u64 \<Rightarrow> u64 list \<Rightarrow> u64 \<Rightarrow> regs \<Rightarrow> regs option" where
  "s3k_send api cid msg src =
     S3K_SYSCALLn (sysnr api ECALL_INVOKE_CAP) [cid, msg ! 0, msg ! 1, msg ! 2, msg ! 3, src]"

section \<open>What the kernel makes of them\<close>

text \<open>A library built with the numbers the kernel has in \<open>inc/consts.h\<close>.\<close>

definition kernel_api :: api where
  "kernel_api = \<lparr>sysnr = (\<lambda>n. of_nat (call_num n)), sup_sysnr = sup_num, S3K_OK = err ERROR_OK\<rparr>"

lemma kernel_api_simps [simp]:
  "sysnr kernel_api n = of_nat (call_num n)" "sup_sysnr kernel_api m = sup_num m" "S3K_OK kernel_api = 0"
  by (simp_all add: kernel_api_def)

lemmas loads = S3K_SYSCALLn_def S3K_SYSCALL_def arg_regs_def

lemma call_num_word: "unat (of_nat (call_num n) :: u64) = call_num n" "call_num n < NUM_OF_SYSNR"
  by (cases n; simp add: NUM_OF_SYSNR_def)+

text \<open>How a trap ends that called handler \<open>h\<close>.\<close>

definition resumed :: "stop + outcome \<times> kstate \<Rightarrow> nat \<Rightarrow> stop + bool \<times> kstate" where
  "resumed r c = ebind r (\<lambda>(out, k). case out of Return v \<Rightarrow> Inr (True, put_reg c A0 v k) | Yield \<Rightarrow> Inr (False, k))"

datatype request =
    Get_pid | Read_reg u64 | Write_reg u64 u64 | Do_yield | Read_cap u64 | Move_cap u64 u64
  | Delete_cap u64 | Revoke_cap u64 | Derive_cap u64 u64 cap_t | Sup_suspend u64 u64
  | Sup_resume u64 u64 | Sup_read_reg u64 u64 u64 | Sup_write_reg u64 u64 u64 u64
  | Sup_get_state u64 u64 | Sup_read_cap u64 u64 u64 | Sup_give_cap u64 u64 u64 u64 | Sup_take_cap u64 u64 u64 u64
  | Receive_msg u64 u64 | Send_msg u64 "u64 list" u64

fun request_regs :: "api \<Rightarrow> request \<Rightarrow> regs \<Rightarrow> regs option" where
  "request_regs api Get_pid = s3k_get_pid api"
| "request_regs api (Read_reg r) = s3k_read_reg api r"
| "request_regs api (Write_reg r v) = s3k_write_reg api r v"
| "request_regs api Do_yield = s3k_yield api"
| "request_regs api (Read_cap i) = s3k_read_cap api i"
| "request_regs api (Move_cap i j) = s3k_move_cap api i j"
| "request_regs api (Delete_cap i) = s3k_delete_cap api i"
| "request_regs api (Revoke_cap i) = s3k_revoke_cap api i"
| "request_regs api (Derive_cap i j c) = s3k_derive_cap api i j c"
| "request_regs api (Sup_suspend i p) = s3k_supervisor_suspend api i p"
| "request_regs api (Sup_resume i p) = s3k_supervisor_resume api i p"
| "request_regs api (Sup_get_state i p) = s3k_supervisor_get_state api i p"
| "request_regs api (Sup_read_reg i p r) = s3k_supervisor_read_reg api i p r"
| "request_regs api (Sup_write_reg i p r v) = s3k_supervisor_write_reg api i p r v"
| "request_regs api (Sup_read_cap i p j) = s3k_supervisor_read_cap api i p j"
| "request_regs api (Sup_give_cap i p s d) = s3k_supervisor_give_cap api i p s d"
| "request_regs api (Sup_take_cap i p s d) = s3k_supervisor_take_cap api i p s d"
| "request_regs api (Receive_msg i d) = s3k_receive api i d"
| "request_regs api (Send_msg i m s) = s3k_send api i m s"

text \<open>
  The handler that serves a request; \<open>hw\<close> are the registers as the compiler left them, which fill the
  arguments the library does not set. \<open>s3k_supervisor_get_state\<close> does not set \<open>t0\<close> either, so what
  serves it is whatever \<open>t0\<close> selects.
\<close>

fun served_by :: "(nat \<Rightarrow> bool) \<Rightarrow> regs \<Rightarrow> request \<Rightarrow> handler" where
  "served_by irq hw Get_pid = syscall_get_pid"
| "served_by irq hw (Read_reg r) = syscall_read_reg r"
| "served_by irq hw (Write_reg r v) = syscall_write_reg r v"
| "served_by irq hw Do_yield = syscall_yield"
| "served_by irq hw (Read_cap i) = syscall_read_cap i"
| "served_by irq hw (Move_cap i j) = syscall_move_cap i j"
| "served_by irq hw (Delete_cap i) = syscall_delete_cap i"
| "served_by irq hw (Revoke_cap i) = syscall_revoke_cap irq i"
| "served_by irq hw (Derive_cap i j c) = syscall_derive_cap (irq 0) i j (word0 c) (word1 c)"
| "served_by irq hw (Sup_suspend i p) =
     syscall_invoke_cap i p (sup_num ECALL_SUP_SUSPEND) (hw A3) (hw A4) (hw A5) (hw A6) (hw A7)"
| "served_by irq hw (Sup_resume i p) =
     syscall_invoke_cap i p (sup_num ECALL_SUP_RESUME) (hw A3) (hw A4) (hw A5) (hw A6) (hw A7)"
| "served_by irq hw (Sup_get_state i p) =
     (if NUM_OF_SYSNR \<le> unat (hw T0) then syscall_unimplemented
      else syscall_vector irq (unat (hw T0)) (hw(A0 := i, A1 := p, A2 := 2, A7 := sup_num ECALL_SUP_GET_STATE)))"
| "served_by irq hw (Sup_read_reg i p r) =
     syscall_invoke_cap i p (sup_num ECALL_SUP_READ_REG) r (hw A4) (hw A5) (hw A6) (hw A7)"
| "served_by irq hw (Sup_write_reg i p r v) =
     syscall_invoke_cap i p (sup_num ECALL_SUP_WRITE_REG) r v (hw A5) (hw A6) (hw A7)"
| "served_by irq hw (Sup_read_cap i p j) = syscall_derive_cap (irq 0) i p 5 j"
| "served_by irq hw (Sup_give_cap i p s d) =
     syscall_invoke_cap i p (sup_num ECALL_SUP_GIVE_CAP) s d (hw A5) (hw A6) (hw A7)"
| "served_by irq hw (Sup_take_cap i p s d) =
     syscall_invoke_cap i p (sup_num ECALL_SUP_TAKE_CAP) s d (hw A5) (hw A6) (hw A7)"
| "served_by irq hw (Receive_msg i d) =
     syscall_invoke_cap i (hw A1) (hw A2) (hw A3) (hw A4) d (hw A6) (hw A7)"
| "served_by irq hw (Send_msg i m s) =
     syscall_invoke_cap i (m ! 0) (m ! 1) (m ! 2) (m ! 3) s (hw A6) (hw A7)"

lemma vector_args:
  assumes "\<And>a. a \<in> {A0, A1, A2, A3, A4, A5, A6, A7} \<Longrightarrow> r a = r' a"
  shows "syscall_vector irq n r = syscall_vector irq n r'"
  using assms by (simp add: syscall_vector_def)

lemma request_chosen:
  "\<exists>hw. request_regs kernel_api req junk = Some hw \<and>
    (if NUM_OF_SYSNR \<le> unat (hw T0) then syscall_unimplemented k'
     else syscall_vector irq (unat (hw T0)) (p_regs (ks_procs (entered c hw k) c)) k') = served_by irq junk req k'"
proof (cases req)
  case (Sup_get_state i p)
  let ?hw = "junk(A0 := i, A1 := p, A2 := 2, A7 := sup_num ECALL_SUP_GET_STATE)"
  have "syscall_vector irq n (p_regs (ks_procs (entered c ?hw k) c)) = syscall_vector irq n ?hw" for n
    by (rule vector_args) (rule entered_args)
  then show ?thesis by (simp add: Sup_get_state s3k_supervisor_get_state_def)
qed (simp_all add: loads syscall_vector_def NUM_OF_SYSNR_def s3k_get_pid_def s3k_read_reg_def
    s3k_write_reg_def s3k_yield_def s3k_read_cap_def s3k_move_cap_def s3k_delete_cap_def
    s3k_revoke_cap_def s3k_derive_cap_def s3k_supervisor_suspend_def s3k_supervisor_resume_def
    s3k_supervisor_read_reg_def s3k_supervisor_write_reg_def s3k_supervisor_read_cap_def
    s3k_supervisor_give_cap_def s3k_supervisor_take_cap_def s3k_receive_def s3k_send_def)

lemma request_served:
  assumes "ks_current k = Some c"
  shows "\<exists>hw. request_regs kernel_api req junk = Some hw \<and>
    trap_entry hw MCAUSE_U_ECALL mtval irq k = resumed (served_by irq junk req (entered c hw k)) c"
proof -
  obtain hw where hw: "request_regs kernel_api req junk = Some hw" using request_chosen by blast
  have "(if NUM_OF_SYSNR \<le> unat (hw T0) then syscall_unimplemented (entered c hw k)
     else syscall_vector irq (unat (hw T0)) (p_regs (ks_procs (entered c hw k) c)) (entered c hw k)) =
    served_by irq junk req (entered c hw k)"
    using request_chosen [of req junk "entered c hw k" irq c k] hw by simp
  then show ?thesis using trap_any_ecall [OF assms] hw by (auto simp: resumed_def)
qed

text \<open>C38: where each function of the user library \<open>s3k.h\<close> enters the kernel, when it is built with
  the kernel's numbers. All but two enter the handler they are named after, with their
  arguments in order. \<open>s3k_supervisor_read_cap\<close> enters \<open>syscall_derive_cap\<close>, and
  \<open>s3k_supervisor_get_state\<close>, which does not load \<open>t0\<close>, whatever handler \<open>t0\<close> happens to
  select.\<close>

theorem library_reaches_kernel:
  assumes "ks_current k = Some c"
  shows "\<exists>hw. request_regs kernel_api req junk = Some hw \<and>
    trap_entry hw MCAUSE_U_ECALL mtval irq k = resumed (served_by irq junk req (entered c hw k)) c"
  using request_served [OF assms, of req] .

theorem library_reaches_kernel_witness:
  "\<exists>hw. s3k_supervisor_read_cap kernel_api 2 1 0 (\<lambda>_. 0) = Some hw \<and>
    trap_entry hw MCAUSE_U_ECALL 0 (\<lambda>_. False) (root_running 0 1) =
      resumed (syscall_derive_cap False 2 1 5 0 (entered 0 hw (root_running 0 1))) 0"
  using library_reaches_kernel [of "root_running 0 1" 0 "Sup_read_cap 2 1 0" "\<lambda>_. 0" 0 "\<lambda>_. False"] by simp

lemma derived_read_back:
  assumes "kinv k" "ks_current k = Some c" "cap_at (ks_nodes k) (slot_of c i) x"
  shows "syscall_read_cap i k = Inr (Return (err ERROR_OK), put_reg c A2 (word1 x) (put_reg c A1 (word0 x) k))"
proof -
  have "node_live (ks_nodes k) (slot_of c i)" "cn_cap (ks_nodes k (slot_of c i)) = x"
    using assms(3) by (simp_all add: cap_at_def)
  then show ?thesis
    by (simp add: syscall_read_cap_def assert_current_def assms(2) get_cap_live Let_def
        cap_node_of_runs [OF assms(1) kinvD(6) [OF assms(1,2)]])
qed

text \<open>C17: derive and read back through the library. After a successful \<open>s3k_derive_cap\<close> the
  destination slot holds the new capability, and \<open>s3k_read_cap\<close> on it returns exactly the
  capability that was passed in.\<close>

theorem library_derive_read:
  assumes "kinv k" "ks_current k = Some c" "cap_at (ks_nodes k) (slot_of c i) x"
    "\<not> node_live (ks_nodes k) (slot_of c j)" "cap_can_derive x new"
  shows "\<exists>hw k1 hw' k2. s3k_derive_cap kernel_api i j new junk = Some hw \<and>
    trap_entry hw MCAUSE_U_ECALL 0 (\<lambda>_. False) k = Inr (True, k1) \<and>
    p_regs (ks_procs k1 c) A0 = err ERROR_OK \<and>
    s3k_read_cap kernel_api j (p_regs (ks_procs k1 c)) = Some hw' \<and>
    trap_entry hw' MCAUSE_U_ECALL 0 irq k1 = Inr (True, k2) \<and>
    s3k_read_cap_result (p_regs (ks_procs k2 c)) = (err ERROR_OK, new)"
proof -
  have e: "\<lparr>word0 = word0 new, word1 = word1 new\<rparr> = new" by simp
  obtain hw where hw: "s3k_derive_cap kernel_api i j new junk = Some hw"
    "trap_entry hw MCAUSE_U_ECALL 0 (\<lambda>_. False) k =
       resumed (syscall_derive_cap False i j (word0 new) (word1 new) (entered c hw k)) c"
    using request_served [OF assms(2), of "Derive_cap i j new" junk 0 "\<lambda>_. False"] by auto
  let ?k = "entered c hw k"
  obtain k' x' where k': "syscall_derive_cap False i j (word0 new) (word1 new) ?k = Inr (Return (err ERROR_OK), k')"
    "\<forall>n y. cap_at (ks_nodes k') n y \<longleftrightarrow>
       (if n = slot_of c j then y = new else if n = slot_of c i then y = x' else cap_at (ks_nodes k) n y)"
    using derive_cap_effect [of ?k c i x j "word0 new" "word1 new", unfolded e entered_frame, OF assms] by blast
  have kp: "kinv k'" "ks_current k' = Some c"
    using derive_cap_keeps [of ?k c False i j "word0 new" "word1 new"] assms(1,2) unfolding k'(1) by simp_all
  let ?k1 = "put_reg c A0 (err ERROR_OK) k'"
  have k1: "kinv ?k1" "ks_current ?k1 = Some c" using kp by simp_all
  obtain hw' where hw': "s3k_read_cap kernel_api j (p_regs (ks_procs ?k1 c)) = Some hw'"
    "trap_entry hw' MCAUSE_U_ECALL 0 irq ?k1 = resumed (syscall_read_cap j (entered c hw' ?k1)) c"
    using request_served [OF k1(2), of "Read_cap j" "p_regs (ks_procs ?k1 c)" 0 irq] by auto
  have "syscall_read_cap j (entered c hw' ?k1) =
      Inr (Return (err ERROR_OK), put_reg c A2 (word1 new) (put_reg c A1 (word0 new) (entered c hw' ?k1)))"
    by (rule derived_read_back) (use k1 k'(2) in simp_all)
  with hw hw' k'(1) show ?thesis
    by (simp add: resumed_def s3k_read_cap_result_def put_reg_def upd_proc_def)
qed

theorem library_derive_read_witness:
  "\<exists>hw k1 hw' k2. s3k_derive_cap kernel_api 3 8 half_hour (\<lambda>_. 0) = Some hw \<and>
    trap_entry hw MCAUSE_U_ECALL 0 (\<lambda>_. False) (root_running 0 1) = Inr (True, k1) \<and>
    s3k_read_cap kernel_api 8 (p_regs (ks_procs k1 0)) = Some hw' \<and>
    trap_entry hw' MCAUSE_U_ECALL 0 (\<lambda>_. False) k1 = Inr (True, k2) \<and>
    s3k_read_cap_result (p_regs (ks_procs k2 0)) = (0, half_hour)"
proof -
  have "cap_at (ks_nodes (root_running 0 1)) (slot_of 0 3) (boot_cap 0 3)"
    "\<not> node_live (ks_nodes (root_running 0 1)) (slot_of 0 8)"
    unfolding slot_of_numeral using root_time(1) root_free [of 8 0] by simp_all
  moreover have "cap_can_derive (boot_cap 0 3) half_hour"
    using hour_simps(3) by (simp add: boot_cap_def hour_def config_defs)
  ultimately show ?thesis using library_derive_read [OF root_kinv] by fastforce
qed

section \<open>Capabilities as text\<close>

text \<open>\<open>s3k_dump_cap\<close>, whose \<open>snprintf\<close> is the C library's: the format that the switch on the type
  of the capability chooses, \<open>None\<close> being its default, and the fields it prints.\<close>

definition type_of_cap :: "cap_t \<Rightarrow> cap_type option" where
  "type_of_cap cap = find (cap_is_type cap)
     [CAP_TYPE_EMPTY, CAP_TYPE_MEMORY, CAP_TYPE_PMP, CAP_TYPE_TIME, CAP_TYPE_CHANNELS, CAP_TYPE_RECEIVER,
      CAP_TYPE_SENDER, CAP_TYPE_SERVER, CAP_TYPE_CLIENT, CAP_TYPE_SUPERVISOR]"

fun dump_format :: "cap_type option \<Rightarrow> char list" where
  "dump_format (Some CAP_TYPE_EMPTY) = ''EMPTY''"
| "dump_format (Some CAP_TYPE_MEMORY) = ''MEMORY{begin=0x%lx,end=0x%lx,rwx=%ld,free=0x%lx,pmp=%ld}''"
| "dump_format (Some CAP_TYPE_PMP) = ''PMP{addr=0x%lx,rwx=%ld}''"
| "dump_format (Some CAP_TYPE_TIME) = ''TIME{hartid=%ld,begin=%ld,end=%ld,free=%ld}''"
| "dump_format (Some CAP_TYPE_CHANNELS) = ''CHANNELS{begin=%ld,end=%ld,free=%ld}''"
| "dump_format (Some CAP_TYPE_RECEIVER) = ''RECEIVER{channel=%ld,mode=%ld}''"
| "dump_format (Some CAP_TYPE_SENDER) = ''SENDER{channel=%ld,mode=%ld}''"
| "dump_format (Some CAP_TYPE_SERVER) = ''SERVER{channel=%ld,mode=%ld}''"
| "dump_format (Some CAP_TYPE_CLIENT) = ''CLIENT{channel=%ld,mode=%ld}''"
| "dump_format (Some CAP_TYPE_SUPERVISOR) = ''SUPERVISOR{begin=%ld,end=%ld,free=%ld}''"
| "dump_format None = ''INVALID''"

fun dump_args :: "cap_type option \<Rightarrow> cap_t \<Rightarrow> u64 list" where
  "dump_args (Some CAP_TYPE_MEMORY) cap = [cap_memory_get_begin cap, cap_memory_get_end cap,
     cap_memory_get_rwx cap, cap_memory_get_free cap, cap_memory_get_pmp cap]"
| "dump_args (Some CAP_TYPE_PMP) cap = [cap_pmp_get_addr cap, cap_pmp_get_rwx cap]"
| "dump_args (Some CAP_TYPE_TIME) cap = [cap_time_get_hartid cap, cap_time_get_begin cap,
     cap_time_get_end cap, cap_time_get_free cap]"
| "dump_args (Some CAP_TYPE_CHANNELS) cap = [cap_channels_get_begin cap, cap_channels_get_end cap,
     cap_channels_get_free cap]"
| "dump_args (Some CAP_TYPE_RECEIVER) cap = [cap_receiver_get_channel cap, cap_receiver_get_grant cap]"
| "dump_args (Some CAP_TYPE_SENDER) cap = [cap_sender_get_channel cap, cap_sender_get_grant cap]"
| "dump_args (Some CAP_TYPE_SERVER) cap = [cap_server_get_channel cap, cap_server_get_grant cap]"
| "dump_args (Some CAP_TYPE_CLIENT) cap = [cap_client_get_channel cap, cap_client_get_grant cap]"
| "dump_args (Some CAP_TYPE_SUPERVISOR) cap = [cap_supervisor_get_begin cap, cap_supervisor_get_end cap,
     cap_supervisor_get_free cap]"
| "dump_args _ cap = []"

definition s3k_dump_cap ::
    "('b \<Rightarrow> 32 word \<Rightarrow> char list \<Rightarrow> u64 list \<Rightarrow> 'r) \<Rightarrow> 'b \<Rightarrow> 32 word \<Rightarrow> cap_t \<Rightarrow> 'r" where
  "s3k_dump_cap snprintf buf n cap =
     (let t = type_of_cap cap in snprintf buf n (dump_format t) (dump_args t cap))"

text \<open>What is dumped tells the type of the capability and what it allows.\<close>

lemma type_of_cap_some: "type_of_cap c = Some t \<longleftrightarrow> cap_is_type c t"
  by (cases t) (auto simp: type_of_cap_def type_eqs)

lemma dump_format_inj: "take 3 (dump_format t) = take 3 (dump_format t') \<Longrightarrow> t = t'"
  by (cases t rule: dump_format.cases; cases t' rule: dump_format.cases) simp_all

lemma dump_tells_authority:
  assumes "dump_format (type_of_cap x) = dump_format (type_of_cap y)"
    "dump_args (type_of_cap x) x = dump_args (type_of_cap y) y"
  shows "authority x = authority y"
proof (cases "type_of_cap y")
  case None
  then have "\<not> cap_is_type c t" if "c = x \<or> c = y" for c t
    using that assms(1) dump_format_inj type_of_cap_some by (metis option.distinct(1))
  then show ?thesis by (simp add: authority_def)
next
  case (Some t)
  then have t: "type_of_cap x = Some t" "cap_is_type x t" "cap_is_type y t"
    using assms(1) dump_format_inj type_of_cap_some by metis+
  show ?thesis using assms(2) t Some
    by (cases t) (simp_all add: authority_simps, simp_all add: authority_def type_eqs)
qed

end
