(* ===== verification/Snprintf.thy ===== *)
theory Snprintf
  imports Prelude
begin

text \<open>
  The kernel's \<open>snprintf\<close> (\<open>snprintf.c\<close>). A destination is the text written so far and the
  number of characters that still fit before the terminator (\<open>ebuf - buf\<close>). The number
  formatters fill a local array from its end: \<open>cap\<close> is the room in it, and a loop that does
  not stop in time runs out of the array. Variadic arguments are a list of typed values.
\<close>

type_synonym dest = "char list \<times> nat"

definition outputStr :: "char list \<Rightarrow> dest \<Rightarrow> dest" where
  "outputStr s = (\<lambda>(out, room). (out @ take room s, room - length s))"

definition digit_char :: "nat \<Rightarrow> char" where
  "digit_char j = char_of (if j \<ge> 10 then 97 + j - 10 else 48 + j)"

text \<open>
  The \<open>do ... while (i != 0)\<close> of \<open>output32\<close> and \<open>output64\<close>: the digits go in front of \<open>cs\<close>, the
  padding width counts down with each.
\<close>

fun digits_loop :: "nat \<Rightarrow> 'a::len word \<Rightarrow> 'a word \<Rightarrow> int \<Rightarrow> char list \<Rightarrow> stop + char list \<times> int \<times> nat" where
  "digits_loop 0 i base w cs = Inl Out_of_bounds"
| "digits_loop (Suc cap) i base w cs =
     (let cs' = digit_char (unat (i mod base)) # cs; i' = i div base
      in if i' \<noteq> 0 then digits_loop cap i' base (w - 1) cs' else Inr (cs', w - 1, cap))"

text \<open>\<open>while (padd_width > 0)\<close>.\<close>

fun pad_loop :: "nat \<Rightarrow> char \<Rightarrow> int \<Rightarrow> char list \<Rightarrow> stop + char list \<times> nat" where
  "pad_loop 0 padding w cs = (if w > 0 then Inl Out_of_bounds else Inr (cs, 0))"
| "pad_loop (Suc cap) padding w cs =
     (if w > 0 then pad_loop cap padding (w - 1) (padding # cs) else Inr (cs, Suc cap))"

text \<open>The text of a number: digits, padding and sign in a local array with room for \<open>cap\<close>.\<close>

definition format_number ::
    "nat \<Rightarrow> 'a::len word \<Rightarrow> bool \<Rightarrow> 'a word \<Rightarrow> char \<Rightarrow> int \<Rightarrow> stop + char list" where
  "format_number cap n sig base padding padd_width =
     (let neg = (n <s 0 \<and> sig);
          i = (if neg then - n else n);
          w = (if neg then padd_width - 1 else padd_width)
      in ebind (digits_loop cap i base w []) (\<lambda>(cs, w, cap).
         ebind (pad_loop cap padding w cs) (\<lambda>(cs, cap).
         if \<not> neg then Inr cs
         else if cap = 0 then Inl Out_of_bounds else Inr (CHR ''-'' # cs))))"

definition output64 :: "dest \<Rightarrow> u64 \<Rightarrow> bool \<Rightarrow> u64 \<Rightarrow> char \<Rightarrow> int \<Rightarrow> stop + dest" where
  "output64 d n sig base padding padd_width =
     ebind (format_number 31 n sig base padding padd_width) (\<lambda>s. Inr (outputStr s d))"

definition output32 :: "dest \<Rightarrow> u32 \<Rightarrow> bool \<Rightarrow> u32 \<Rightarrow> char \<Rightarrow> int \<Rightarrow> stop + dest" where
  "output32 d n sig base padding padd_width =
     ebind (format_number 15 n sig base padding padd_width) (\<lambda>s. Inr (outputStr s d))"

section \<open>Format strings\<close>

datatype arg = Arg_int u32 | Arg_long u64 | Arg_str "char list"

fun va_int :: "arg list \<Rightarrow> stop + u32 \<times> arg list" where
  "va_int (Arg_int n # args) = Inr (n, args)"
| "va_int _ = Inl Undefined"

fun va_long :: "arg list \<Rightarrow> stop + u64 \<times> arg list" where
  "va_long (Arg_long n # args) = Inr (n, args)"
| "va_long _ = Inl Undefined"

fun va_str :: "arg list \<Rightarrow> stop + char list \<times> arg list" where
  "va_str (Arg_str s # args) = Inr (s, args)"
| "va_str _ = Inl Undefined"

fun take_width :: "char list \<Rightarrow> int \<Rightarrow> int \<times> char list" where
  "take_width (c # f) w =
     (if 48 \<le> (of_char c :: int) \<and> (of_char c :: int) \<le> 57 then take_width f (w * 10 + (of_char c - 48))
      else (w, c # f))"
| "take_width [] w = (w, [])"

text \<open>One conversion, from behind the percent sign; \<open>room\<close> is positive.\<close>

definition conversion :: "char list \<Rightarrow> arg list \<Rightarrow> dest \<Rightarrow> stop + char list \<times> arg list \<times> dest" where
  "conversion f args d =
     (case (case f of c # g \<Rightarrow> if c = CHR ''0'' then (CHR ''0'', g) else (CHR '' '', f) | [] \<Rightarrow> (CHR '' '', f))
      of (padding, f) \<Rightarrow>
      (case take_width f 0 of (w, f) \<Rightarrow>
       (case f of
          [] \<Rightarrow> Inl Undefined
        | c # f \<Rightarrow>
            if c = CHR ''d'' then ebind (va_int args) (\<lambda>(n, args).
              ebind (output32 d n True 10 padding w) (\<lambda>d. Inr (f, args, d)))
            else if c = CHR ''u'' then ebind (va_int args) (\<lambda>(n, args).
              ebind (output32 d n False 10 padding w) (\<lambda>d. Inr (f, args, d)))
            else if c = CHR ''x'' then ebind (va_int args) (\<lambda>(n, args).
              ebind (output32 d n False 1 padding w) (\<lambda>d. Inr (f, args, d)))
            else if c = CHR ''s'' then ebind (va_str args) (\<lambda>(s, args). Inr (f, args, outputStr s d))
            else if c = CHR ''c'' then ebind (va_int args) (\<lambda>(n, args).
              Inr (f, args, outputStr [char_of (unat n)] d))
            else if c = CHR ''%'' then Inr (f, args, outputStr ''%'' d)
            else if c = CHR ''l'' then
              (case f of
                 [] \<Rightarrow> Inl Undefined
               | c # f \<Rightarrow>
                   if c = CHR ''d'' then ebind (va_long args) (\<lambda>(n, args).
                     ebind (output64 d n True 10 padding w) (\<lambda>d. Inr (f, args, d)))
                   else if c = CHR ''u'' then ebind (va_long args) (\<lambda>(n, args).
                     ebind (output64 d n False 10 padding w) (\<lambda>d. Inr (f, args, d)))
                   else if c = CHR ''x'' then ebind (va_long args) (\<lambda>(n, args).
                     ebind (output64 d n False 16 padding w) (\<lambda>d. Inr (f, args, d)))
                   else Inl Undefined)
            else Inl Undefined)))"

lemma take_width_length: "take_width f w = (w', f') \<Longrightarrow> length f' \<le> length f"
  by (induction f w rule: take_width.induct) (auto split: if_splits)

lemma conversion_length:
  assumes "conversion f args d = Inr (f', args', d')"
  shows "length f' < length f"
proof -
  define pf where "pf = (case f of c # g \<Rightarrow> if c = CHR ''0'' then (CHR ''0'', g) else (CHR '' '', f)
      | [] \<Rightarrow> (CHR '' '', f))"
  have "length (snd pf) \<le> length f" by (cases f) (auto simp: pf_def)
  then obtain padding f1 where p: "(case f of c # g \<Rightarrow> if c = CHR ''0'' then (CHR ''0'', g) else (CHR '' '', f)
      | [] \<Rightarrow> (CHR '' '', f)) = (padding, f1)" "length f1 \<le> length f"
    unfolding pf_def [symmetric] by (cases pf) auto
  obtain w f2 where w: "take_width f1 0 = (w, f2)" by fastforce
  have "length f' < length f2"
    using assms unfolding conversion_def p(1) prod.case w
    by (auto simp: ebind_Inr_iff split: list.splits if_splits prod.splits)
  then show ?thesis using p(2) take_width_length [OF w] by simp
qed

function format_loop :: "char list \<Rightarrow> arg list \<Rightarrow> dest \<Rightarrow> stop + dest" where
  "format_loop f args d =
     (case f of
        [] \<Rightarrow> Inr d
      | c # f \<Rightarrow>
          if snd d = 0 then Inr d
          else if c \<noteq> CHR ''%'' then format_loop f args (outputStr [c] d)
          else (case conversion f args d of
            Inl e \<Rightarrow> Inl e
          | Inr (f, args, d) \<Rightarrow> format_loop f args d))"
  by pat_completeness auto
termination
  by (relation "measure (\<lambda>(f, args, d). length f)") (auto dest!: conversion_length)

text \<open>The text in the buffer (before its terminator) and the value returned.\<close>

definition vsnprintf :: "nat \<Rightarrow> char list \<Rightarrow> arg list \<Rightarrow> stop + char list \<times> nat" where
  "vsnprintf n format args =
     (if n = 0 then Inr ([], 0) else format_loop format args ([], n - 1))"

definition snprintf :: "nat \<Rightarrow> char list \<Rightarrow> arg list \<Rightarrow> stop + char list \<times> nat" where
  "snprintf n format args = vsnprintf n format args"

section \<open>Numbers read back\<close>

definition digit_val :: "char \<Rightarrow> nat" where
  "digit_val c = (if of_char c \<ge> (97 :: nat) then of_char c - 97 + 10 else of_char c - 48)"

definition read_digits :: "nat \<Rightarrow> char list \<Rightarrow> nat" where
  "read_digits base s = foldl (\<lambda>a c. a * base + digit_val c) 0 s"

lemma digit_val_char: "j < 16 \<Longrightarrow> digit_val (digit_char j) = j"
  by (auto simp: digit_val_def digit_char_def of_char_of)

text \<open>The digits of \<open>i\<close> in front of \<open>cs\<close>, when the array has room for them.\<close>

lemma digits_loop_runs:
  fixes i base :: "'a::len word"
  assumes "2 \<le> unat base" "unat base \<le> 16" "unat i < unat base ^ cap" "0 < cap"
  shows "\<exists>ds. digits_loop cap i base w cs = Inr (ds @ cs, w - int (length ds), cap - length ds) \<and>
    ds \<noteq> [] \<and> length ds \<le> cap \<and> read_digits (unat base) ds = unat i"
  using assms(3,4)
proof (induction cap arbitrary: i w cs)
  case 0
  then show ?case by simp
next
  case (Suc cap)
  let ?d = "digit_char (unat (i mod base))"
  have dv: "digit_val ?d = unat i mod unat base"
    using assms(1,2) by (subst digit_val_char) (simp_all add: unat_mod less_le_trans [of _ "unat base"])
  have q: "unat (i div base) = unat i div unat base" by (simp add: unat_div)
  show ?case
  proof (cases "i div base = 0")
    case True
    then have "unat i div unat base = 0" using q by simp
    then have "read_digits (unat base) [?d] = unat i"
      using dv assms(1) by (auto simp: read_digits_def div_eq_0_iff)
    then show ?thesis using True by (intro exI [of _ "[?d]"]) (simp add: Let_def)
  next
    case False
    have lt: "unat (i div base) < unat base ^ cap"
      using Suc.prems(1) assms(1) by (simp add: q less_mult_imp_div_less mult.commute)
    have "cap \<noteq> 0"
      using lt False by (cases cap) (auto simp: word_unat_eq_iff)
    then obtain ds where ds: "digits_loop cap (i div base) base (w - 1) (?d # cs) =
        Inr (ds @ ?d # cs, w - 1 - int (length ds), cap - length ds)" "length ds \<le> cap"
      "read_digits (unat base) ds = unat i div unat base"
      using Suc.IH [OF lt, of "w - 1" "?d # cs"] q by auto
    have "read_digits (unat base) (ds @ [?d]) = unat i"
      using ds(3) dv by (simp add: read_digits_def)
    then show ?thesis
      using ds False by (intro exI [of _ "ds @ [?d]"]) (simp add: Let_def)
  qed
qed

lemma pad_loop_runs:
  "w \<le> int cap \<Longrightarrow> pad_loop cap padding w cs =
     Inr (replicate (nat w) padding @ cs, cap - nat w)"
proof (induction cap padding w cs rule: pad_loop.induct)
  case (1 padding w cs)
  then show ?case by simp
next
  case (2 cap padding w cs)
  show ?case
  proof (cases "w > 0")
    case True
    have "replicate (nat w) padding @ cs = replicate (nat (w - 1)) padding @ padding # cs"
      using True by (simp add: nat_diff_distrib' replicate_app_Cons_same flip: replicate_Suc)
    with True 2 show ?thesis by (auto simp: Suc_diff_Suc nat_less_iff)
  qed simp
qed

text \<open>
  The text of an unsigned number reads back as the number, padded to the width; with 31
  characters every 64-bit number fits in any base from 4 on and any width up to 31.
\<close>

lemma format_number_reads_back:
  fixes n base :: "'a::len word"
  assumes "2 \<le> unat base" "unat base \<le> 16" "unat n < unat base ^ cap" "0 < cap" "w \<le> int cap"
  shows "\<exists>ds. format_number cap n False base padding w =
      Inr (replicate (nat w - length ds) padding @ ds) \<and>
    read_digits (unat base) ds = unat n \<and> ds \<noteq> []"
proof -
  obtain ds where ds: "digits_loop cap n base w [] = Inr (ds @ [], w - int (length ds), cap - length ds)"
    "ds \<noteq> []" "length ds \<le> cap" "read_digits (unat base) ds = unat n"
    using digits_loop_runs [OF assms(1-4), of w "[]"] by blast
  have "w - int (length ds) \<le> int (cap - length ds)" using assms(5) ds(3) by simp
  from pad_loop_runs [OF this, of padding ds] have
    "pad_loop (cap - length ds) padding (w - int (length ds)) ds =
       Inr (replicate (nat w - length ds) padding @ ds, cap - length ds - nat (w - int (length ds)))"
    by (simp add: nat_diff_distrib')
  then show ?thesis using ds by (auto simp: format_number_def Let_def)
qed

text \<open>Base 1, which \<open>%x\<close> passes to \<open>output32\<close>, leaves the array for every number but 0.\<close>

lemma digits_base_1: "i \<noteq> 0 \<Longrightarrow> digits_loop cap i 1 w cs = Inl Out_of_bounds"
  by (induction cap arbitrary: w cs) (simp_all add: Let_def)

lemma percent_x:
  "vsnprintf 16 ''%x'' [Arg_int n] = (if n = 0 then Inr (''0'', 14) else Inl Out_of_bounds)"
proof (cases "n = 0")
  case True
  have "digit_char 0 = CHR ''0''" by code_simp
  moreover have "digits_loop (Suc 14) (0 :: u32) 1 0 [] = Inr ([digit_char 0], - 1, 14)"
    by (simp add: Let_def del: One_nat_def add_Suc_right add_2_eq_Suc' Suc_numeral)
  then have "digits_loop 15 (0 :: u32) 1 0 [] = Inr ([digit_char 0], - 1, 14)"
    by simp
  ultimately have "format_number 15 n False 1 CHR '' '' 0 = Inr ''0''"
    using True pad_loop_runs [of "- 1" 14 "CHR '' ''" "''0''"]
    by (simp add: format_number_def Let_def)
  then show ?thesis
    using True by (simp add: vsnprintf_def format_loop.simps [of "''%x''"] format_loop.simps [of "[]"]
        conversion_def output32_def outputStr_def Let_def)
next
  case False
  then show ?thesis
    by (simp add: vsnprintf_def format_loop.simps [of "''%x''"] conversion_def
        output32_def format_number_def digits_base_1 Let_def)
qed

text \<open>The buffer is never overrun: the text and its terminator fit in \<open>n\<close> characters.\<close>

lemma outputStr_room: "outputStr s d = (out, room) \<Longrightarrow> room + length out = snd d + length (fst d)"
  by (cases d) (auto simp: outputStr_def min_def)

lemma output_room:
  "output32 d n sig base padding w = Inr (out, room) \<Longrightarrow> room + length out = snd d + length (fst d)"
  "output64 d n' sig base' padding w = Inr (out, room) \<Longrightarrow> room + length out = snd d + length (fst d)"
  by (auto simp: output32_def output64_def ebind_Inr_iff dest: outputStr_room)

lemma conversion_room:
  assumes "conversion f args d = Inr (f', args', out, room)"
  shows "room + length out = snd d + length (fst d)"
  using assms unfolding conversion_def
  by (auto simp: ebind_Inr_iff dest: output_room outputStr_room split: list.splits if_splits prod.splits)

lemma format_loop_room:
  "format_loop f args d = Inr (out, room) \<Longrightarrow> room + length out = snd d + length (fst d)"
proof (induction f args d arbitrary: out room rule: format_loop.induct)
  case (1 f args d)
  note e = format_loop.simps [of f args d]
  show ?case
  proof (cases f)
    case Nil
    then show ?thesis using 1(3) unfolding e by simp
  next
    case (Cons c g)
    consider "snd d = 0" | "snd d \<noteq> 0" "c \<noteq> CHR ''%''" | "snd d \<noteq> 0" "c = CHR ''%''" by blast
    then show ?thesis
    proof cases
      case 1
      then show ?thesis using "1.prems" Cons unfolding e by simp
    next
      case 2
      obtain o' r' where or: "outputStr [c] d = (o', r')" by fastforce
      have "format_loop g args (outputStr [c] d) = Inr (out, room)"
        using "1.prems" Cons 2 unfolding e by simp
      from "1.IH"(1) [OF Cons 2 this] show ?thesis using outputStr_room [OF or] or by simp
    next
      case 3
      then obtain f2 a2 o2 r2 where r: "conversion g args d = Inr (f2, a2, o2, r2)"
        "format_loop f2 a2 (o2, r2) = Inr (out, room)"
        using "1.prems" Cons unfolding e by (auto split: sum.splits)
      have "\<not> c \<noteq> CHR ''%''" using 3 by simp
      from "1.IH"(2) [OF Cons 3(1) this r(1) refl refl r(2)] show ?thesis
        using conversion_room [OF r(1)] by simp
    qed
  qed
qed

lemma vsnprintf_fits:
  assumes "vsnprintf n format args = Inr (out, r)" "0 < n"
  shows "length out + 1 \<le> n" "r = n - 1 - length out"
  using assms format_loop_room [of format args "([], n - 1)" out r]
  by (auto simp: vsnprintf_def)

section \<open>Properties\<close>

text \<open>The text of a number, in a base from 2 to 16 and an array with room for it, is the
  padding and then digits that read back as the number.\<close>

lemma number_text_roundtrip:
  fixes n base :: "'a::len word"
  assumes "2 \<le> unat base" "unat base \<le> 16" "unat n < unat base ^ cap" "0 < cap" "w \<le> int cap"
  shows "\<exists>ds. format_number cap n False base padding w =
      Inr (replicate (nat w - length ds) padding @ ds) \<and>
    read_digits (unat base) ds = unat n \<and> ds \<noteq> []"
  by (rule format_number_reads_back [OF assms])

lemma number_text_roundtrip_example:
  "\<exists>ds. format_number 15 (2026 :: u32) False 10 CHR '' '' 8 =
      Inr (replicate (nat 8 - length ds) CHR '' '' @ ds) \<and>
    read_digits 10 ds = 2026 \<and> ds \<noteq> []"
  using number_text_roundtrip [of "10 :: u32" 2026 15 8 "CHR '' ''"] by simp

text \<open>Whatever the format and the arguments, the text with its terminator fits in the
  buffer; the returned number is the room left, not the length of the text.\<close>

lemma snprintf_fits:
  assumes "snprintf n format args = Inr (out, r)" "0 < n"
  shows "length out + 1 \<le> n \<and> r = n - 1 - length out"
  using vsnprintf_fits [OF assms(1) [unfolded snprintf_def] assms(2)] by blast

lemma snprintf_fits_example:
  "snprintf 3 ''ok!'' [] = Inr (''ok'', 0) \<and> length ''ok'' + 1 \<le> (3 :: nat)"
proof -
  have "snprintf 3 ''ok!'' [] = Inr (''ok'', 0)"
    by (simp add: snprintf_def vsnprintf_def format_loop.simps outputStr_def)
  from snprintf_fits [OF this] this show ?thesis by simp
qed

end
