(* ===== verification/Console.thy ===== *)
theory Console
  imports Snprintf Lock Config
begin

text \<open>
  The console of the kernel: \<open>kprint.c\<close> on top of \<open>vsnprintf\<close> and the ticket lock, and the
  boot banner of \<open>info.c\<close>. The UART is the text it has been sent.
\<close>

section \<open>kprint.c\<close>

record console =
  con_uart :: "char list"
  con_lock :: lock_t

definition uart_putchar :: "char \<Rightarrow> console \<Rightarrow> console" where
  "uart_putchar c k = k\<lparr>con_uart := con_uart k @ [c]\<rparr>"

text \<open>The loop of \<open>puts\<close> over the characters before the terminator; \<open>i\<close> counts them.\<close>

fun puts_loop :: "nat \<Rightarrow> char list \<Rightarrow> console \<Rightarrow> nat \<times> console" where
  "puts_loop i [] k = (i, k)"
| "puts_loop i (c # s) k = puts_loop (Suc i) s (uart_putchar c k)"

definition puts :: "char list \<Rightarrow> console \<Rightarrow> stop + nat \<times> console" where
  "puts s k =
     ebind (lock_acquire (con_lock k)) (\<lambda>l.
     case puts_loop 0 s (k\<lparr>con_lock := l\<rparr>) of (i, k) \<Rightarrow>
       Inr (i, k\<lparr>con_lock := lock_release (con_lock k)\<rparr>))"

definition kprintf :: "char list \<Rightarrow> arg list \<Rightarrow> console \<Rightarrow> stop + nat \<times> console" where
  "kprintf format args k = ebind (vsnprintf 128 format args) (\<lambda>(buf, _). puts buf k)"

section \<open>info.c\<close>

definition PLATFORM_NAME :: "char list" where "PLATFORM_NAME = ''virt''"

definition N_CORES :: u32 where "N_CORES = 5"

text \<open>\<open>TICKS * N_QUANTUM\<close>, \<open>TICKS\<close> and \<open>TICKS_PER_SECOND\<close> are of type \<open>unsigned long\<close>.\<close>

definition NEWLINE :: char where "NEWLINE = CHR 0x0A"

definition info_lines :: "(char list \<times> arg list) list" where
  "info_lines =
    [(''==================================================='', []),
     (''S3K Information'', []),
     (''---------------------------------------------------'', []),
     (''Platform:                     %s'', [Arg_str PLATFORM_NAME]),
     (''Hart count:                   %d'', [Arg_int N_CORES]),
     (''Usable harts:                 %d-%d'', [Arg_int (of_nat MIN_HARTID), Arg_int (of_nat MAX_HARTID)]),
     (''Process count:                %d'', [Arg_int (of_nat N_PROC)]),
     (''Major frame length:           %d ticks'', [Arg_long (TICKS * of_nat N_QUANTUM)]),
     (''Minor frame granularity:      %d ticks'', [Arg_long TICKS]),
     (''Max quanta per major frame:   %d'', [Arg_int (of_nat N_QUANTUM)]),
     (''Slack/scheduler ticks:        %d'', [Arg_int (ucast SCHEDULER_TICKS)]),
     (''Ticks per second:             %d'', [Arg_long TICKS_PER_SECOND]),
     (''==================================================='', [])]"

fun print_lines :: "(char list \<times> arg list) list \<Rightarrow> console \<Rightarrow> stop + console" where
  "print_lines [] k = Inr k"
| "print_lines ((format, args) # ls) k =
     ebind (kprintf (format @ [NEWLINE]) args k) (\<lambda>(_, k). print_lines ls k)"

definition print_info :: "console \<Rightarrow> stop + console" where
  "print_info k = print_lines info_lines k"

section \<open>What is printed\<close>

lemma puts_loop_runs: "puts_loop i s k = (i + length s, k\<lparr>con_uart := con_uart k @ s\<rparr>)"
  by (induction s arbitrary: i k) (simp_all add: uart_putchar_def)

lemma puts_runs:
  assumes "lock_free (con_lock k)"
  shows "\<exists>l. puts s k = Inr (length s, k\<lparr>con_uart := con_uart k @ s, con_lock := l\<rparr>) \<and> lock_free l"
proof -
  obtain l where "lock_acquire (con_lock k) = Inr l" "lock_free (lock_release l)"
    using ticket.critical_section [OF assms] .
  then show ?thesis
    by (intro exI [of _ "lock_release l"]) (simp add: puts_def puts_loop_runs)
qed

text \<open>A second \<open>puts\<close> while one is inside waits for ever: the console is never interleaved.\<close>

lemma puts_busy: "lock_held (con_lock k) \<Longrightarrow> puts s k = Inl Spins"
  using ticket.acq_busy by (simp add: puts_def)

lemma kprintf_prints:
  assumes "lock_free (con_lock k)" "vsnprintf 128 format args = Inr (s, r)"
  shows "\<exists>l. kprintf format args k = Inr (length s, k\<lparr>con_uart := con_uart k @ s, con_lock := l\<rparr>) \<and> lock_free l"
    and "length s < 128"
  using puts_runs [OF assms(1), of s] vsnprintf_fits(1) [OF assms(2)] assms(2) by (auto simp: kprintf_def)

lemma kprintf_stops: "vsnprintf 128 format args = Inl e \<Longrightarrow> kprintf format args k = Inl e"
  by (simp add: kprintf_def)

section \<open>The banner\<close>

definition prints :: "char list \<times> arg list \<Rightarrow> bool" where
  "prints l = (case vsnprintf 128 (fst l @ [NEWLINE]) (snd l) of Inr _ \<Rightarrow> True | Inl _ \<Rightarrow> False)"

lemma print_lines_stop:
  assumes "lock_free (con_lock k)" "list_all prints ls" "vsnprintf 128 (f @ [NEWLINE]) args = Inl e"
  shows "print_lines (ls @ (f, args) # rest) k = Inl e"
  using assms
proof (induction ls arbitrary: k)
  case Nil
  then show ?case by (simp add: kprintf_stops)
next
  case (Cons l ls)
  obtain g a where l: "l = (g, a)" by (cases l)
  with Cons.prems(2) obtain s r where "vsnprintf 128 (g @ [NEWLINE]) a = Inr (s, r)"
    by (auto simp: prints_def split: sum.splits)
  from kprintf_prints(1) [OF Cons.prems(1) this] obtain n where
    "kprintf (g @ [NEWLINE]) a k = Inr (length s, k\<lparr>con_uart := con_uart k @ s, con_lock := n\<rparr>)" "lock_free n"
    by blast
  then show ?case using Cons l by simp
qed

text \<open>
  The eighth line hands an \<open>unsigned long\<close> to \<open>%d\<close>, which takes an \<open>int\<close>: the seven
  lines before it are printed, and from there on the behaviour is undefined.
\<close>

lemma print_info_undefined:
  assumes "lock_free (con_lock k)"
  shows "print_info k = Inl Undefined"
proof -
  have "list_all prints (take 7 info_lines)" by code_simp
  moreover have "vsnprintf 128 (''Major frame length:           %d ticks'' @ [NEWLINE])
      [Arg_long (TICKS * of_nat N_QUANTUM)] = Inl Undefined"
    by code_simp
  moreover have "info_lines = take 7 info_lines @
      (''Major frame length:           %d ticks'', [Arg_long (TICKS * of_nat N_QUANTUM)]) # drop 8 info_lines"
    by (simp add: info_lines_def)
  ultimately show ?thesis
    unfolding print_info_def using print_lines_stop [OF assms] by metis
qed

end
