(* ===== verification/NodeRace.thy ===== *)
theory NodeRace
  imports Proc
begin

text \<open>
  The operations of \<open>inc/cap_node.h\<close> interleaved between harts: one step of a hart is one
  access to a node. Run by one hart alone the steps are the operations of \<open>CapNode\<close>; run by
  several, a node is deleted at most once, but deleting two neighbours at the same time can
  leave a deleted node on the list.
\<close>

section \<open>Steps\<close>

text \<open>
  Where a hart is in \<open>cap_node_delete\<close> (with \<open>cap_node_delete2\<close>) or \<open>cap_node_insert\<close>:
  \<open>D_head\<close> reads \<open>prev\<close>, \<open>D_unlink\<close> does the first compare-and-set, \<open>D_next\<close> reads
  \<open>next\<close>, \<open>D_relink\<close> does the second, \<open>D_link\<close> stores \<open>prev->next\<close>; \<open>I_start\<close> is the
  assertion, \<open>I_cap\<close> and \<open>I_next\<close> the two statements before the loop, \<open>I_check\<close> its
  condition, \<open>I_set\<close>, \<open>I_cas\<close> and \<open>I_reread\<close> its body, \<open>I_link\<close> and \<open>I_live\<close> the stores
  after a successful compare-and-set.
\<close>

datatype node_pc =
    Idle
  | D_head node_ptr
  | D_unlink node_ptr node_ptr
  | D_next node_ptr node_ptr
  | D_relink node_ptr node_ptr node_ptr
  | D_link node_ptr node_ptr node_ptr
  | D_done node_ptr bool
  | I_start cap_t node_ptr node_ptr
  | I_cap cap_t node_ptr node_ptr
  | I_next node_ptr node_ptr
  | I_check node_ptr node_ptr "node_ptr option"
  | I_set node_ptr node_ptr "node_ptr option"
  | I_cas node_ptr node_ptr "node_ptr option"
  | I_reread node_ptr node_ptr
  | I_link node_ptr node_ptr
  | I_live node_ptr node_ptr
  | I_done node_ptr bool

fun node_step :: "node_pc \<Rightarrow> node_heap \<Rightarrow> stop + node_pc \<times> node_heap" where
  "node_step (D_head n) h =
     (case cn_prev (h n) of None \<Rightarrow> Inr (D_done n False, h) | Some p \<Rightarrow> Inr (D_unlink n p, h))"
| "node_step (D_unlink n p) h =
     (case cas_prev h n (Some p) None of (ok, h') \<Rightarrow> Inr (if ok then D_next n p else D_head n, h'))"
| "node_step (D_next n p) h =
     (case cn_next (h n) of None \<Rightarrow> Inl Null_deref | Some m \<Rightarrow> Inr (D_relink n p m, h))"
| "node_step (D_relink n p m) h =
     (case cas_prev h m (Some n) (Some p) of (ok, h') \<Rightarrow> Inr (if ok then D_link n p m else D_next n p, h'))"
| "node_step (D_link n p m) h = Inr (D_done n True, set_next h p (Some m))"
| "node_step (I_start c n p) h = (if cn_prev (h n) = None then Inr (I_cap c n p, h) else Inl Assert_failed)"
| "node_step (I_cap c n p) h = Inr (I_next n p, set_cap h n c)"
| "node_step (I_next n p) h = Inr (I_check n p (cn_next (h p)), h)"
| "node_step (I_check n p m) h = Inr (if cn_prev (h p) = None then I_done n False else I_set n p m, h)"
| "node_step (I_set n p m) h = Inr (I_cas n p m, set_next h n m)"
| "node_step (I_cas n p m) h =
     (case m of
        None \<Rightarrow> Inl Null_deref
      | Some m' \<Rightarrow>
          (case cas_prev h m' (Some p) (Some n) of (ok, h') \<Rightarrow>
             Inr (if ok then I_link n p else I_reread n p, h')))"
| "node_step (I_reread n p) h = Inr (I_check n p (cn_next (h p)), h)"
| "node_step (I_link n p) h = Inr (I_live n p, set_next h p (Some n))"
| "node_step (I_live n p) h = Inr (I_done n True, set_prev h n (Some p))"
| "node_step pc h = Inr (pc, h)"

record node_sys =
  ns_heap :: node_heap
  ns_pc :: "nat \<Rightarrow> node_pc"

inductive nstep :: "node_sys \<Rightarrow> node_sys \<Rightarrow> bool" where
  hart: "node_step (ns_pc s i) (ns_heap s) = Inr (pc, h) \<Longrightarrow>
    nstep s \<lparr>ns_heap = h, ns_pc = (ns_pc s)(i := pc)\<rparr>"

section \<open>One hart alone\<close>

text \<open>\<open>solo c c'\<close>: from one point and heap to another without any other hart.\<close>

inductive solo :: "node_pc \<times> node_heap \<Rightarrow> node_pc \<times> node_heap \<Rightarrow> bool" where
  stay: "solo c c"
| go: "node_step pc h = Inr c \<Longrightarrow> solo c c' \<Longrightarrow> solo (pc, h) c'"

lemma solo_trans: "solo a b \<Longrightarrow> solo b c \<Longrightarrow> solo a c"
  by (induction rule: solo.induct) (auto intro: solo.intros)

lemma solo_nstep:
  "solo c c' \<Longrightarrow> c = (ns_pc s i, ns_heap s) \<Longrightarrow>
    nstep\<^sup>*\<^sup>* s \<lparr>ns_heap = snd c', ns_pc = (ns_pc s)(i := fst c')\<rparr>"
proof (induction arbitrary: s rule: solo.induct)
  case (stay c)
  then show ?case by (cases s) simp
next
  case (go pc h c c')
  let ?s = "\<lparr>ns_heap = snd c, ns_pc = (ns_pc s)(i := fst c)\<rparr>"
  have "nstep s ?s" using go.hyps(1) go.prems by (cases c) (auto intro!: nstep.hart)
  moreover have "nstep\<^sup>*\<^sup>* ?s \<lparr>ns_heap = snd c', ns_pc = (ns_pc s)(i := fst c')\<rparr>"
    using go.IH [of ?s] by (simp add: fun_upd_same del: fun_upd_apply)
  ultimately show ?case by (rule converse_rtranclp_into_rtranclp)
qed

lemma relink_solo:
  assumes "delete2_loop n p h = Some (Inr (m, h'))"
  shows "solo (D_next n p, h) (D_link n p m, h')"
proof -
  have "\<forall>m h'. r = Inr (m, h') \<longrightarrow> solo (D_next n p, h) (D_link n p m, h')"
    if "delete2_loop n p h = Some r" for r
    using that
  proof (induction rule: delete2_loop.raw_induct [rotated, consumes 1, case_names step])
    case (step rec n p h r)
    show ?case
    proof (intro allI impI)
      fix m h'
      assume r: "r = Inr (m, h')"
      then obtain m' ok h1 where n: "cn_next (h n) = Some m'" and c: "cas_prev h m' (Some n) (Some p) = (ok, h1)"
        using step(2) by (cases "cn_next (h n)") (auto split: prod.splits)
      have a: "node_step (D_next n p) h = Inr (D_relink n p m', h)" using n by simp
      show "solo (D_next n p, h) (D_link n p m, h')"
      proof (cases ok)
        case True
        then have "m' = m" "h1 = h'" using step(2) n c r by simp_all
        then have "node_step (D_relink n p m') h = Inr (D_link n p m, h')" using c True by simp
        then show ?thesis using a by (blast intro: solo.intros)
      next
        case False
        then have "rec n p h1 = Some r" using step(2) n c by simp
        then have "solo (D_next n p, h1) (D_link n p m, h')" using step(1) r by blast
        moreover have "node_step (D_relink n p m') h = Inr (D_next n p, h1)" using c False by simp
        ultimately show ?thesis using a by (blast intro: solo.intros)
      qed
    qed
  qed
  then show ?thesis using assms by blast
qed

lemma delete2_solo:
  assumes "cap_node_delete2 n p h = Inr (ok, h')"
  shows "solo (D_unlink n p, h) (if ok then D_done n True else D_head n, h')"
proof -
  obtain b h1 where c: "cas_prev h n (Some p) None = (b, h1)" by fastforce
  show ?thesis
  proof (cases b)
    case False
    then have "ok = False" "h' = h1" using assms c by (simp_all add: cap_node_delete2_def)
    then show ?thesis using c False by (auto intro!: solo.intros)
  next
    case True
    then obtain m h2 where r: "run_loop (delete2_loop n p h1) = Inr (m, h2)" "ok" "h' = set_next h2 p (Some m)"
      using assms c by (auto simp: cap_node_delete2_def ebind_Inr_iff)
    then have "delete2_loop n p h1 = Some (Inr (m, h2))" by (auto simp: run_loop_def split: option.splits)
    from relink_solo [OF this] have "solo (D_next n p, h1) (D_done n True, h')"
      unfolding r(3) by (rule solo_trans) (auto intro!: solo.intros)
    moreover have "node_step (D_unlink n p) h = Inr (D_next n p, h1)" using c True by simp
    ultimately show ?thesis using r(2) by (auto intro: solo.intros)
  qed
qed

lemma delete_solo:
  assumes "cap_node_delete n h = Inr (ok, h')"
  shows "solo (D_head n, h) (D_done n ok, h')"
proof -
  have "\<forall>ok h'. r = Inr (ok, h') \<longrightarrow> solo (D_head n, h) (D_done n ok, h')" if "delete_loop n h = Some r" for r
    using that
  proof (induction rule: delete_loop.raw_induct [rotated, consumes 1, case_names step])
    case (step rec n h r)
    show ?case
    proof (intro allI impI)
      fix ok h'
      assume r: "r = Inr (ok, h')"
      show "solo (D_head n, h) (D_done n ok, h')"
      proof (cases "cn_prev (h n)")
        case None
        then show ?thesis using step(2) r by (auto intro!: solo.intros)
      next
        case (Some p)
        then obtain b h1 where d: "cap_node_delete2 n p h = Inr (b, h1)"
          using step(2) r by (cases "cap_node_delete2 n p h") auto
        have a: "node_step (D_head n) h = Inr (D_unlink n p, h)" using Some by simp
        note s = delete2_solo [OF d]
        show ?thesis
        proof (cases b)
          case True
          then show ?thesis using s a step(2) Some d r by (auto intro: solo.intros)
        next
          case False
          then have "rec n h1 = Some r" using step(2) Some d by simp
          then have "solo (D_head n, h1) (D_done n ok, h')" using step(1) r by blast
          then show ?thesis using s a False by (auto intro: solo.intros solo_trans)
        qed
      qed
    qed
  qed
  moreover have "delete_loop n h = Some (Inr (ok, h'))"
    using assms by (auto simp: cap_node_delete_def run_loop_def split: option.splits)
  ultimately show ?thesis by blast
qed

lemma insert_loop_solo:
  assumes "insert_loop n p m h = Some (Inr (ok, h'))"
  shows "solo (I_check n p m, h) (I_done n ok, h')"
proof -
  have "\<forall>ok h'. r = Inr (ok, h') \<longrightarrow> solo (I_check n p m, h) (I_done n ok, h')"
    if "insert_loop n p m h = Some r" for r
    using that
  proof (induction rule: insert_loop.raw_induct [rotated, consumes 1, case_names step])
    case (step rec n p m h r)
    show ?case
    proof (intro allI impI)
      fix ok h'
      assume r: "r = Inr (ok, h')"
      show "solo (I_check n p m, h) (I_done n ok, h')"
      proof (cases "cn_prev (h p) = None")
        case True
        then show ?thesis using step(2) r by (auto intro!: solo.intros)
      next
        case False
        let ?h = "set_next h n m"
        have a: "node_step (I_check n p m) h = Inr (I_set n p m, h)" "node_step (I_set n p m) h = Inr (I_cas n p m, ?h)"
          using False by simp_all
        obtain m' where m: "m = Some m'" using step(2) False r by (cases m) auto
        obtain b h1 where c: "cas_prev ?h m' (Some p) (Some n) = (b, h1)" by fastforce
        show ?thesis
        proof (cases b)
          case True
          then have "ok" "h' = set_prev (set_next h1 p (Some n)) n (Some p)"
            using step(2) False r m c by (auto simp: Let_def)
          moreover have "solo (I_link n p, h1) (I_done n True, set_prev (set_next h1 p (Some n)) n (Some p))"
            by (auto intro!: solo.intros simp: Let_def)
          ultimately have "solo (I_link n p, h1) (I_done n ok, h')" by (simp only:)
          moreover have "node_step (I_cas n p m) ?h = Inr (I_link n p, h1)" using c True m by simp
          ultimately show ?thesis using a by (blast intro: solo.intros)
        next
          case nb: False
          then have "rec n p (cn_next (h1 p)) h1 = Some r" using step(2) False m c by (simp add: Let_def)
          then have "solo (I_check n p (cn_next (h1 p)), h1) (I_done n ok, h')" using step(1) r by blast
          moreover have "node_step (I_cas n p m) ?h = Inr (I_reread n p, h1)" using c nb m by simp
          moreover have "node_step (I_reread n p) h1 = Inr (I_check n p (cn_next (h1 p)), h1)" by simp
          ultimately show ?thesis using a by (blast intro: solo.intros)
        qed
      qed
    qed
  qed
  then show ?thesis using assms by blast
qed

lemma insert_solo:
  assumes "cap_node_insert c n p h = Inr (ok, h')"
  shows "solo (I_start c n p, h) (I_done n ok, h')"
proof -
  let ?h = "set_cap h n c"
  have n: "cn_prev (h n) = None" using assms by (cases "cn_prev (h n) = None") (simp_all add: cap_node_insert_def)
  then have "insert_loop n p (cn_next (?h p)) ?h = Some (Inr (ok, h'))"
    using assms by (auto simp: cap_node_insert_def run_loop_def Let_def split: option.splits)
  from insert_loop_solo [OF this] show ?thesis using n by (auto intro!: solo.intros)
qed

section \<open>A node is deleted once\<close>

text \<open>The points after a successful first compare-and-set of a deletion of \<open>n\<close>.\<close>

fun unlinked :: "node_pc \<Rightarrow> node_ptr option" where
  "unlinked (D_next n p) = Some n"
| "unlinked (D_relink n p m) = Some n"
| "unlinked (D_link n p m) = Some n"
| "unlinked (D_done n True) = Some n"
| "unlinked _ = None"

fun deletes :: "node_pc \<Rightarrow> bool" where
  "deletes Idle = True"
| "deletes (D_head n) = True"
| "deletes (D_unlink n p) = True"
| "deletes (D_next n p) = True"
| "deletes (D_relink n p m) = True"
| "deletes (D_link n p m) = True"
| "deletes (D_done n b) = True"
| "deletes _ = False"

definition once_inv :: "node_sys \<Rightarrow> bool" where
  "once_inv s \<longleftrightarrow> (\<forall>i. deletes (ns_pc s i)) \<and>
     (\<forall>i n. unlinked (ns_pc s i) = Some n \<longrightarrow> cn_prev (ns_heap s n) = None) \<and>
     (\<forall>i j n. unlinked (ns_pc s i) = Some n \<longrightarrow> unlinked (ns_pc s j) = Some n \<longrightarrow> i = j)"

text \<open>What a step of a deletion does: it unlinks its node, or it neither unlinks nor revives one.\<close>

lemma delete_step_cases:
  assumes "node_step pc h = Inr (pc', h')" "deletes pc"
  shows "deletes pc' \<and> (\<forall>n. cn_prev (h n) = None \<longrightarrow> cn_prev (h' n) = None) \<and>
    (unlinked pc' = unlinked pc \<or>
     (\<exists>n. unlinked pc = None \<and> unlinked pc' = Some n \<and> cn_prev (h n) \<noteq> None \<and> cn_prev (h' n) = None))"
  using assms
  by (cases pc) (auto simp: cas_prev_def compare_and_set_def compare_and_swap_def Let_def split: option.splits if_splits)

lemma once_step:
  assumes "nstep s s'" "once_inv s"
  shows "once_inv s'"
  using assms(1)
proof (cases rule: nstep.cases)
  case (hart i pc h)
  note inv = assms(2) [unfolded once_inv_def]
  let ?pc = "ns_pc s i"
  have d: "deletes ?pc" using inv by blast
  note st = delete_step_cases [OF hart(2) d]
  have other: "unlinked (ns_pc s' j) = unlinked (ns_pc s j)" if "j \<noteq> i" for j using that hart(1) by simp
  have mine: "unlinked (ns_pc s' i) = unlinked pc" using hart(1) by simp
  show ?thesis unfolding once_inv_def
  proof (intro conjI allI impI)
    fix j
    show "deletes (ns_pc s' j)" using inv st hart(1) by simp
  next
    fix j n
    assume u: "unlinked (ns_pc s' j) = Some n"
    show "cn_prev (ns_heap s' n) = None"
    proof (cases "j = i")
      case True
      then show ?thesis using u mine st inv hart(1) by auto
    next
      case False
      then show ?thesis using u other st inv hart(1) by auto
    qed
  next
    fix j k n
    assume u: "unlinked (ns_pc s' j) = Some n" "unlinked (ns_pc s' k) = Some n"
    have new: False if "unlinked pc = Some n" "unlinked ?pc = None" "unlinked (ns_pc s l) = Some n" for l
      using st that inv by auto
    show "j = k"
      using u other mine st inv new by (cases "j = i"; cases "k = i") (metis option.distinct(1))+
  qed
qed

text \<open>C25: a capability is deleted once. However the harts interleave, if all they do is delete
  nodes, at most one of them is told that it deleted a given node.\<close>

theorem node_deleted_once:
  assumes "\<forall>i. deletes (pcs i) \<and> unlinked (pcs i) = None"
    and "nstep\<^sup>*\<^sup>* \<lparr>ns_heap = h, ns_pc = pcs\<rparr> s"
    and "ns_pc s i = D_done n True" "ns_pc s j = D_done n True"
  shows "i = j"
proof -
  from assms(2) have "once_inv s"
  proof (induction rule: rtranclp_induct)
    case base
    then show ?case using assms(1) by (simp add: once_inv_def)
  next
    case (step y z)
    then show ?case using once_step by blast
  qed
  then show ?thesis using assms(3,4) unfolding once_inv_def by (metis unlinked.simps(4))
qed

text \<open>All harts delete slot 4 of process 0; hart 0 comes first and is the only one to succeed.\<close>

theorem node_deleted_once_witness:
  "\<exists>s. nstep\<^sup>*\<^sup>* \<lparr>ns_heap = boot_heap 0, ns_pc = (\<lambda>_. D_head (Slot 0 4))\<rparr> s \<and>
    ns_pc s 0 = D_done (Slot 0 4) True \<and> (\<forall>j. ns_pc s j = D_done (Slot 0 4) True \<longrightarrow> j = 0)"
proof -
  have live: "node_live (boot_heap 0) (Slot 0 4)"
    by (simp add: node_live_def boot_heap_live del: not_None_eq)
  obtain h where "cap_node_delete (Slot 0 4) (boot_heap 0) = Inr (True, h)"
    using rep_delete_effect [OF boot_rep _ live] by auto
  from solo_nstep [OF delete_solo [OF this], of "\<lparr>ns_heap = boot_heap 0, ns_pc = (\<lambda>_. D_head (Slot 0 4))\<rparr>" 0]
  obtain s where s: "nstep\<^sup>*\<^sup>* \<lparr>ns_heap = boot_heap 0, ns_pc = (\<lambda>_. D_head (Slot 0 4))\<rparr> s"
    "ns_pc s 0 = D_done (Slot 0 4) True" by auto
  have "\<forall>i :: nat. deletes (D_head (Slot 0 4)) \<and> unlinked (D_head (Slot 0 4)) = None" by simp
  from node_deleted_once [OF this s(1) _ s(2)] s show ?thesis by blast
qed

section \<open>Two neighbours deleted at once\<close>

lemma insert_spins:
  assumes "cn_prev (h p) \<noteq> None" "cn_next (h p) = Some b" "cn_prev (h b) = None" "d \<noteq> p"
  shows "insert_loop d p (Some b) h = None"
proof -
  have False if "insert_loop d p m h = Some r" "m = Some b" "cn_prev (h p) \<noteq> None" "cn_next (h p) = Some b"
      "cn_prev (h b) = None" "d \<noteq> p" for m r
    using that
  proof (induction rule: insert_loop.raw_induct [rotated, consumes 1, case_names step])
    case (step rec d p m h r)
    let ?h = "set_next h d (Some b)"
    have "cas_prev ?h b (Some p) (Some d) = (False, ?h)"
      using step.prems by (auto simp: cas_prev_def compare_and_set_def compare_and_swap_def fun_upd_idem)
    then have "rec d p (Some b) ?h = Some r"
      using step(2) step.prems by (simp add: Let_def split: if_splits)
    moreover have "cn_prev (?h b) = None" using step.prems by auto
    ultimately show ?case using step(1) [of d p "Some b" ?h r] step.prems by auto
  qed
  then show ?thesis using assms by (cases "insert_loop d p (Some b) h") blast+
qed

lemma delete_spins:
  assumes "cn_next (h p) = Some b" "cn_prev (h b) = None" 
  shows "delete2_loop p q h = None"
proof -
  have False if "delete2_loop p q h = Some r" "cn_next (h p) = Some b" "cn_prev (h b) = None" for r
    using that
  proof (induction rule: delete2_loop.raw_induct [rotated, consumes 1, case_names step])
    case (step rec p q h r)
    have "cas_prev h b (Some p) (Some q) = (False, h)"
      using step.prems by (simp add: cas_prev_def compare_and_set_def compare_and_swap_def fun_upd_idem)
    then have "rec p q h = Some r" using step(2) step.prems by simp
    then show ?case using step(1) step.prems by blast
  qed
  then show ?thesis using assms by (cases "delete2_loop p q h") blast+
qed

text \<open>
  The list from \<open>p\<close> on leads to a deleted node: no insertion behind \<open>p\<close>, no deletion of \<open>p\<close>
  and no revocation from \<open>p\<close> gets past it.
\<close>

lemma dangling_next:
  assumes "cn_prev (h p) \<noteq> None" "cn_next (h p) = Some b" "cn_prev (h b) = None"
  shows "cn_prev (h d) = None \<Longrightarrow> cap_node_insert c d p h = Inl Spins"
    and "cap_node_delete p h = Inl Spins" and "cap_node_delete2 b p h = Inr (False, h)"
proof -
  show "cap_node_insert c d p h = Inl Spins" if "cn_prev (h d) = None"
  proof -
    have "insert_loop d p (Some b) (set_cap h d c) = None"
      by (rule insert_spins) (use assms that in auto)
    then show ?thesis using that assms by (auto simp: cap_node_insert_def Let_def)
  qed
  obtain q where q: "cn_prev (h p) = Some q" using assms(1) by blast
  have "p \<noteq> b" using assms by auto
  then have "delete2_loop p q (set_prev h p None) = None" using assms by (intro delete_spins) auto
  moreover have "cas_prev h p (Some q) None = (True, set_prev h p None)"
    using q by (simp add: cas_prev_def compare_and_set_def compare_and_swap_def)
  ultimately have "cap_node_delete2 p q h = Inl Spins" by (simp add: cap_node_delete2_def)
  then show "cap_node_delete p h = Inl Spins" using q by (simp add: cap_node_delete_def delete_loop.simps)
  show "cap_node_delete2 b p h = Inr (False, h)" using assms(3) by (simp add: delete2_not_next)
qed

text \<open>C24: deleting two neighbours at the same time corrupts the list. Where \<open>a\<close> and \<open>b\<close> follow
  \<open>p\<close>, one hart can delete \<open>a\<close> and stop short of its last store, another delete \<open>b\<close>, and the
  first then finish: both deletions succeed, but \<open>p\<close> leads to the deleted node \<open>b\<close>. From then
  on deriving from \<open>p\<close>, deleting or moving \<open>p\<close> never returns, and a revocation never advances.\<close>

theorem adjacent_deletes_corrupt:
  assumes "linked h p a" "linked h a b" "linked h b n" "distinct [p, a, b, n]" "cn_prev (h p) \<noteq> None"
    and "i \<noteq> j" "pcs i = D_head a" "pcs j = D_head b"
  shows "\<exists>s. nstep\<^sup>*\<^sup>* \<lparr>ns_heap = h, ns_pc = pcs\<rparr> s \<and>
    ns_pc s i = D_done a True \<and> ns_pc s j = D_done b True \<and>
    cn_prev (ns_heap s b) = None \<and> cn_next (ns_heap s p) = Some b \<and>
    (\<forall>c d. cn_prev (ns_heap s d) = None \<longrightarrow> cap_node_insert c d p (ns_heap s) = Inl Spins) \<and>
    cap_node_delete p (ns_heap s) = Inl Spins \<and>
    cap_node_delete2 b p (ns_heap s) = Inr (False, ns_heap s)"
proof -
  note l = assms(1-3) [unfolded linked_def]
  let ?h1 = "set_prev (set_prev h a None) b (Some p)"
  let ?h2 = "set_next (set_prev (set_prev ?h1 b None) n (Some p)) p (Some n)"
  let ?h3 = "set_next ?h2 p (Some b)"
  let ?p1 = "pcs(i := D_link a p b)" and ?p2 = "pcs(i := D_link a p b, j := D_done b True)"
  have ne: "a \<noteq> p" "b \<noteq> p" "n \<noteq> p" "b \<noteq> a" "n \<noteq> a" "n \<noteq> b" using assms(4) by auto
  note cas = cas_prev_def compare_and_set_def compare_and_swap_def
  have s1: "solo (D_head a, h) (D_link a p b, ?h1)"
  proof -
    have "node_step (D_head a) h = Inr (D_unlink a p, h)"
      "node_step (D_unlink a p) h = Inr (D_next a p, set_prev h a None)"
      "node_step (D_next a p) (set_prev h a None) = Inr (D_relink a p b, set_prev h a None)"
      "node_step (D_relink a p b) (set_prev h a None) = Inr (D_link a p b, ?h1)"
      using l assms(4) ne by (simp_all add: cas)
    then show ?thesis by (blast intro: solo.intros)
  qed
  have s2: "solo (D_head b, ?h1) (D_done b True, ?h2)"
  proof -
    let ?g = "set_prev ?h1 b None"
    have "node_step (D_head b) ?h1 = Inr (D_unlink b p, ?h1)"
      "node_step (D_unlink b p) ?h1 = Inr (D_next b p, ?g)"
      "node_step (D_next b p) ?g = Inr (D_relink b p n, ?g)"
      "node_step (D_relink b p n) ?g = Inr (D_link b p n, set_prev ?g n (Some p))"
      "node_step (D_link b p n) (set_prev ?g n (Some p)) = Inr (D_done b True, ?h2)"
      using l assms(4) ne by (simp_all add: cas)
    then show ?thesis by (blast intro: solo.intros)
  qed
  have s3: "solo (D_link a p b, ?h2) (D_done a True, ?h3)" by (auto intro!: solo.intros)
  let ?s = "\<lparr>ns_heap = ?h3, ns_pc = pcs(i := D_link a p b, j := D_done b True, i := D_done a True)\<rparr>"
  have "nstep\<^sup>*\<^sup>* \<lparr>ns_heap = h, ns_pc = pcs\<rparr> \<lparr>ns_heap = ?h1, ns_pc = pcs(i := D_link a p b)\<rparr>"
    using solo_nstep [OF s1, of "\<lparr>ns_heap = h, ns_pc = pcs\<rparr>" i] assms(7) by simp
  moreover have "nstep\<^sup>*\<^sup>* \<lparr>ns_heap = ?h1, ns_pc = pcs(i := D_link a p b)\<rparr>
      \<lparr>ns_heap = ?h2, ns_pc = pcs(i := D_link a p b, j := D_done b True)\<rparr>"
    using solo_nstep [OF s2, of "\<lparr>ns_heap = ?h1, ns_pc = pcs(i := D_link a p b)\<rparr>" j] assms(6,8) by simp
  moreover have "nstep\<^sup>*\<^sup>* \<lparr>ns_heap = ?h2, ns_pc = pcs(i := D_link a p b, j := D_done b True)\<rparr> ?s"
    using solo_nstep [OF s3, of "\<lparr>ns_heap = ?h2, ns_pc = pcs(i := D_link a p b, j := D_done b True)\<rparr>" i] assms(6)
    by simp
  ultimately have "nstep\<^sup>*\<^sup>* \<lparr>ns_heap = h, ns_pc = pcs\<rparr> ?s" by (meson rtranclp_trans)
  moreover define g where "g = ?h3"
  have g: "cn_prev (g p) \<noteq> None" "cn_next (g p) = Some b" "cn_prev (g b) = None"
    using ne assms(5) by (simp_all add: g_def)
  note d = dangling_next [OF g]
  ultimately show ?thesis
    using assms(6) g d unfolding g_def [symmetric]
    by (intro exI [of _ "\<lparr>ns_heap = g, ns_pc = pcs(i := D_link a p b, j := D_done b True, i := D_done a True)\<rparr>"] conjI)
      simp_all
qed

theorem adjacent_deletes_corrupt_witness:
  "\<exists>s. nstep\<^sup>*\<^sup>* \<lparr>ns_heap = boot_heap 0, ns_pc = (\<lambda>i. if i = 1 then D_head (Slot 0 5) else D_head (Slot 0 4))\<rparr> s \<and>
    ns_pc s 1 = D_done (Slot 0 5) True \<and> ns_pc s 2 = D_done (Slot 0 4) True \<and>
    cap_node_delete (Slot 0 6) (ns_heap s) = Inl Spins"
proof -
  have "linked (boot_heap 0) (Slot 0 6) (Slot 0 5)" "linked (boot_heap 0) (Slot 0 5) (Slot 0 4)"
    "linked (boot_heap 0) (Slot 0 4) (Slot 0 3)" "cn_prev (boot_heap 0 (Slot 0 6)) \<noteq> None"
    by (simp_all add: linked_def boot_heap_def nth_Cons numeral_eq_Suc)
  then show ?thesis
    using adjacent_deletes_corrupt [of "boot_heap 0" "Slot 0 6" "Slot 0 5" "Slot 0 4" "Slot 0 3" 1 2
        "\<lambda>i. if i = 1 then D_head (Slot 0 5) else D_head (Slot 0 4)"] by auto
qed

end
