(* ===== verification/Layout.thy ===== *)
theory Layout
  imports Proc
begin

text \<open>
  How the C structures lie in memory, by the layout rules of the RISC-V ABI, and the offsets that
  \<open>gen/asm_consts.c\<close> extracts for the assembly code.
\<close>

section \<open>Structures\<close>

text \<open>A member type is its size and its alignment.\<close>

record ctype =
  ct_size :: nat
  ct_align :: nat

definition UINT64 :: ctype where "UINT64 = \<lparr>ct_size = 8, ct_align = 8\<rparr>"

definition POINTER :: ctype where "POINTER = \<lparr>ct_size = 8, ct_align = 8\<rparr>"

definition pad_to :: "nat \<Rightarrow> nat \<Rightarrow> nat" where
  "pad_to a n = n + (a - n mod a) mod a"

text \<open>Every member starts at the first multiple of its alignment; \<open>at\<close> is the end of the member before.\<close>

fun member_offsets :: "nat \<Rightarrow> ('m \<times> ctype) list \<Rightarrow> ('m \<times> nat) list" where
  "member_offsets at [] = []"
| "member_offsets at ((m, t) # ms) =
     (let start = pad_to (ct_align t) at in (m, start) # member_offsets (start + ct_size t) ms)"

fun members_end :: "nat \<Rightarrow> ('m \<times> ctype) list \<Rightarrow> nat" where
  "members_end at [] = at"
| "members_end at ((m, t) # ms) = members_end (pad_to (ct_align t) at + ct_size t) ms"

definition struct_type :: "('m \<times> ctype) list \<Rightarrow> ctype" where
  "struct_type ms = (let a = fold (\<lambda>(_, t). max (ct_align t)) ms 1
     in \<lparr>ct_size = pad_to a (members_end 0 ms), ct_align = a\<rparr>)"

definition offsetof :: "('m \<times> ctype) list \<Rightarrow> 'm \<Rightarrow> nat" where
  "offsetof ms m = the (map_of (member_offsets 0 ms) m)"

section \<open>The structures of the kernel\<close>

definition regs_t :: "(reg \<times> ctype) list" where
  "regs_t = map (\<lambda>r. (r, UINT64)) reg_order"

datatype proc_member =
  proc_regs | proc_pid | proc_state | proc_dest_cidx | proc_cap_table | proc_client

definition proc_t :: "(proc_member \<times> ctype) list" where
  "proc_t = [(proc_regs, struct_type regs_t), (proc_pid, UINT64), (proc_state, UINT64),
     (proc_dest_cidx, UINT64), (proc_cap_table, POINTER), (proc_client, POINTER)]"

datatype cap_member = cap_word0 | cap_word1

definition cap_struct :: "(cap_member \<times> ctype) list" where
  "cap_struct = [(cap_word0, UINT64), (cap_word1, UINT64)]"

datatype cap_node_member = node_prev | node_next | node_cap

definition cap_node_t :: "(cap_node_member \<times> ctype) list" where
  "cap_node_t = [(node_prev, POINTER), (node_next, POINTER), (node_cap, struct_type cap_struct)]"

section \<open>gen/asm_consts.c\<close>

text \<open>The registers whose offsets are extracted, in the order of the file. \<open>DEST_CIDX\<close> is not there.\<close>

definition asm_regs :: "reg list" where
  "asm_regs = [PC, RA, SP, GP, TP, T0, T1, T2, T3, T4, T5, T6, A0, A1, A2, A3, A4, A5, A6, A7,
     S0, S1, S2, S3, S4, S5, S6, S7, S8, S9, S10, S11, PMP, TIMEOUT, TPC, TSP, CAUSE, TVAL,
     PPC, PSP, PA0, PA1]"

text \<open>The macros: \<open>REGS_*\<close>, \<open>PROC_*\<close>, \<open>CAP_NODE_*\<close> and \<open>CAP_*\<close> by what they are the offset of.\<close>

datatype asm_const =
  REGS reg | PROC proc_member | CAP_NODE cap_node_member | CAP cap_member | ENUM_NUM_OF_SYSNR

definition asm_consts :: "(asm_const \<times> nat) list" where
  "asm_consts =
     map (\<lambda>r. (REGS r, offsetof regs_t r)) asm_regs @
     map (\<lambda>m. (PROC m, offsetof proc_t m)) [proc_regs, proc_pid, proc_state, proc_cap_table, proc_client] @
     map (\<lambda>m. (CAP_NODE m, offsetof cap_node_t m)) [node_prev, node_next, node_cap] @
     map (\<lambda>m. (CAP m, offsetof cap_struct m)) [cap_word0, cap_word1] @
     [(ENUM_NUM_OF_SYSNR, NUM_OF_SYSNR)]"

definition asm_const :: "asm_const \<Rightarrow> nat" where
  "asm_const c = the (map_of asm_consts c)"

section \<open>Offsets\<close>

lemma words_offsets:
  "member_offsets (8 * k) (map (\<lambda>m. (m, UINT64)) ms) = zip ms (map ((*) 8) [k..<k + length ms])"
proof (induction ms arbitrary: k)
  case (Cons m ms)
  have "8 * k + 8 = 8 * Suc k" by simp
  then show ?case using Cons [of "Suc k"]
    by (simp add: pad_to_def UINT64_def Let_def upt_conv_Cons del: mult_Suc_right upt_Suc)
qed simp

lemma words_offsetof:
  assumes "distinct ms" "i < length ms"
  shows "offsetof (map (\<lambda>m. (m, UINT64)) ms) (ms ! i) = 8 * i"
  using words_offsets [of 0 ms] assms by (simp add: offsetof_def map_of_zip_nth)

text \<open>The array view of \<open>proc_read_register\<close> and the member view agree.\<close>

lemma regs_offsetof: "i < N_REGISTERS \<Longrightarrow> offsetof regs_t (reg_order ! i) = 8 * i"
  unfolding regs_t_def N_REGISTERS_def by (rule words_offsetof [OF reg_order_distinct])

lemma map_of_consts:
  "inj f \<Longrightarrow> r \<in> set rs \<Longrightarrow> map_of (map (\<lambda>r. (f r, g r)) rs @ xs) (f r) = Some (g r)"
  by (induction rs) (auto simp: inj_eq)

lemma asm_const_REGS: "r \<in> set asm_regs \<Longrightarrow> asm_const (REGS r) = offsetof regs_t r"
  unfolding asm_const_def asm_consts_def by (subst map_of_consts) (auto simp: inj_def)

lemma words_end: "members_end (8 * k) (map (\<lambda>m. (m, UINT64)) ms) = 8 * (k + length ms)"
proof (induction ms arbitrary: k)
  case (Cons m ms)
  have "8 * k + 8 = 8 * Suc k" by simp
  then show ?case using Cons [of "Suc k"] by (simp add: pad_to_def UINT64_def del: mult_Suc_right)
qed simp

lemma words_align: "fold (\<lambda>(_, t). max (ct_align t)) (map (\<lambda>m. (m, UINT64)) ms) 8 = 8"
  by (induction ms) (simp_all add: UINT64_def)

lemma regs_struct: "struct_type regs_t = \<lparr>ct_size = 344, ct_align = 8\<rparr>"
proof -
  obtain m ms where r: "reg_order = m # ms" "length ms = 42" by (simp add: reg_order_def)
  show ?thesis using words_end [of 0 reg_order] words_align [of ms]
    by (simp add: struct_type_def regs_t_def r) (simp add: UINT64_def pad_to_def)
qed

lemma map_of_skip: "(\<And>r. f r \<noteq> c) \<Longrightarrow> map_of (map (\<lambda>r. (f r, g r)) rs @ xs) c = map_of xs c"
  by (induction rs) auto

lemma asm_const_PROC: "m \<noteq> proc_dest_cidx \<Longrightarrow> asm_const (PROC m) = offsetof proc_t m"
  unfolding asm_const_def asm_consts_def
  by (subst map_of_skip, simp, subst map_of_consts) (cases m; auto simp: inj_def)+

lemma asm_const_NUM_OF_SYSNR: "asm_const ENUM_NUM_OF_SYSNR = NUM_OF_SYSNR"
  unfolding asm_const_def asm_consts_def
  by (subst map_of_skip, simp)+ simp

lemma pad_aligned: "pad_to 8 (8 * n) = 8 * n"
  by (simp add: pad_to_def)

lemma proc_members: "member_offsets 0 proc_t = [(proc_regs, 0), (proc_pid, 344), (proc_state, 352),
    (proc_dest_cidx, 360), (proc_cap_table, 368), (proc_client, 376)]"
  using pad_aligned [of 43] pad_aligned [of 44] pad_aligned [of 45] pad_aligned [of 46] pad_aligned [of 47]
    pad_aligned [of 0]
  by (simp add: proc_t_def regs_struct UINT64_def POINTER_def Let_def)

lemma proc_offsets:
  "offsetof proc_t proc_regs = 0" "offsetof proc_t proc_pid = 344" "offsetof proc_t proc_state = 352"
  "offsetof proc_t proc_dest_cidx = 360" "offsetof proc_t proc_cap_table = 368" "offsetof proc_t proc_client = 376"
  by (simp_all add: offsetof_def proc_members)

text \<open>The registers the trap code names, with their place.\<close>

lemma saved_offsets:
  "i < 32 \<Longrightarrow> asm_const (REGS (reg_order ! i)) = 8 * i"
proof -
  assume i: "i < 32"
  have "\<forall>i < 32. reg_order ! i \<in> set asm_regs"
    by (simp add: reg_order_def asm_regs_def All_less_Suc numeral_eq_Suc)
  moreover have "N_REGISTERS = 43" by (simp add: N_REGISTERS_def reg_order_def)
  ultimately show ?thesis using i by (simp add: asm_const_REGS regs_offsetof)
qed

end
