(* ===== verification/Riscv.thy ===== *)
theory Riscv
  imports Proc
begin

text \<open>
  The instructions that the assembly files use, on a hart with its registers, its control
  registers and the memory. Labels and C functions are parameters: a run leaves the assembly
  code at a call.
\<close>

datatype csr =
  MSCRATCH | MEPC | MCAUSE | MTVAL | MSTATUS | MHARTID | MTVEC | MIE | MIP | PMPCFG0 | PMPADDR0

text \<open>Memory as the code accesses it: 64-bit words by \<open>sd\<close> and \<open>ld\<close>, 32-bit words by \<open>sw\<close>. No code
  here uses both on the same address.\<close>

record machine =
  m_x :: "reg \<Rightarrow> u64"
  m_csr :: "csr \<Rightarrow> u64"
  m_mem :: "u64 \<Rightarrow> u64"
  m_word :: "u64 \<Rightarrow> u32"

text \<open>What the linker decides: the global pointer, the stacks, and the halves of the
  pc-relative address of \<open>syscall_vector\<close>.\<close>

record link =
  lk_global_pointer :: u64
  lk_stack :: u64
  lk_vector_hi :: u64
  lk_vector_lo :: u64

datatype ('l, 'f) instr =
    Sd reg nat reg | Ld reg nat reg | Sw reg nat reg | Sw_zero nat reg
  | Csrr reg csr | Csrw csr reg | Csrwi csr u64 | Csrrw reg csr reg | Csrrw_zero reg csr
  | Li reg u64 | Mv reg reg | Addi reg reg u64 | Andi reg reg u64 | Slli reg reg nat
  | Add reg reg reg | Sub reg reg reg
  | Beqz reg 'l | Bltz reg 'l | Bgez reg 'l | Beq reg reg 'l | Bne reg reg 'l | Bgeu reg reg 'l | J 'l
  | Jalr reg u64 | Call 'f | Tail 'f | Mret | Wfi

datatype 'f leaving = Calls 'f | Tails 'f | Jumps u64 | To_user

datatype ('l, 'f) control = Next | Branch 'l | Leave "'f leaving"

definition set_x :: "reg \<Rightarrow> u64 \<Rightarrow> machine \<Rightarrow> machine" where
  "set_x r v m = m\<lparr>m_x := (m_x m)(r := v)\<rparr>"

definition set_csr :: "csr \<Rightarrow> u64 \<Rightarrow> machine \<Rightarrow> machine" where
  "set_csr c v m = m\<lparr>m_csr := (m_csr m)(c := v)\<rparr>"

definition set_word :: "u64 \<Rightarrow> u32 \<Rightarrow> machine \<Rightarrow> machine" where
  "set_word a v m = m\<lparr>m_word := (m_word m)(a := v)\<rparr>"

definition branch :: "bool \<Rightarrow> 'l \<Rightarrow> ('l, 'f) control" where
  "branch b l = (if b then Branch l else Next)"

fun exec :: "('l, 'f) instr \<Rightarrow> machine \<Rightarrow> ('l, 'f) control \<times> machine" where
  "exec (Sd rs off base) m =
     (Next, m\<lparr>m_mem := (m_mem m)(m_x m base + of_nat off := m_x m rs)\<rparr>)"
| "exec (Ld rd off base) m = (Next, set_x rd (m_mem m (m_x m base + of_nat off)) m)"
| "exec (Sw rs off base) m = (Next, set_word (m_x m base + of_nat off) (ucast (m_x m rs)) m)"
| "exec (Sw_zero off base) m = (Next, set_word (m_x m base + of_nat off) 0 m)"
| "exec (Csrr rd c) m = (Next, set_x rd (m_csr m c) m)"
| "exec (Csrw c rs) m = (Next, set_csr c (m_x m rs) m)"
| "exec (Csrwi c v) m = (Next, set_csr c v m)"
| "exec (Csrrw rd c rs) m = (Next, set_x rd (m_csr m c) (set_csr c (m_x m rs) m))"
| "exec (Csrrw_zero rd c) m = (Next, set_x rd (m_csr m c) (set_csr c 0 m))"
| "exec (Li rd v) m = (Next, set_x rd v m)"
| "exec (Mv rd rs) m = (Next, set_x rd (m_x m rs) m)"
| "exec (Addi rd rs v) m = (Next, set_x rd (m_x m rs + v) m)"
| "exec (Andi rd rs v) m = (Next, set_x rd (m_x m rs AND v) m)"
| "exec (Slli rd rs n) m = (Next, set_x rd (push_bit n (m_x m rs)) m)"
| "exec (Add rd r1 r2) m = (Next, set_x rd (m_x m r1 + m_x m r2) m)"
| "exec (Sub rd r1 r2) m = (Next, set_x rd (m_x m r1 - m_x m r2) m)"
| "exec (Beqz r l) m = (branch (m_x m r = 0) l, m)"
| "exec (Bltz r l) m = (branch (sint (m_x m r) < 0) l, m)"
| "exec (Bgez r l) m = (branch (0 \<le> sint (m_x m r)) l, m)"
| "exec (Beq r1 r2 l) m = (branch (m_x m r1 = m_x m r2) l, m)"
| "exec (Bne r1 r2 l) m = (branch (m_x m r1 \<noteq> m_x m r2) l, m)"
| "exec (Bgeu r1 r2 l) m = (branch (m_x m r2 \<le> m_x m r1) l, m)"
| "exec (J l) m = (Branch l, m)"
| "exec (Jalr r v) m = (Leave (Jumps (m_x m r + v)), m)"
| "exec (Call f) m = (Leave (Calls f), m)"
| "exec (Tail f) m = (Leave (Tails f), m)"
| "exec Mret m = (Leave To_user, m)"
| "exec Wfi m = (Next, m)"

lemma set_x_simps [simp]:
  "m_x (set_x r v m) = (m_x m)(r := v)" "m_csr (set_x r v m) = m_csr m" "m_mem (set_x r v m) = m_mem m"
  "m_word (set_x r v m) = m_word m" "m_word (set_csr c v m) = m_word m"
  "m_x (set_word a w m) = m_x m" "m_csr (set_word a w m) = m_csr m" "m_mem (set_word a w m) = m_mem m"
  "m_word (set_word a w m) = (m_word m)(a := w)"
  "m_x (set_csr c v m) = m_x m" "m_csr (set_csr c v m) = (m_csr m)(c := v)" "m_mem (set_csr c v m) = m_mem m"
  by (simp_all add: set_x_def set_csr_def set_word_def)

section \<open>load_gp and load_sp of macros.S\<close>

definition load_gp_code :: "'a link_scheme \<Rightarrow> ('l, 'f) instr list" where
  "load_gp_code lk = [Li GP (lk_global_pointer lk)]"

definition LOG_STACK_SIZE :: nat where "LOG_STACK_SIZE = 10"

definition load_sp_code :: "'a link_scheme \<Rightarrow> ('l, 'f) instr list" where
  "load_sp_code lk =
     [Li SP (lk_stack lk - of_nat MIN_HARTID * push_bit LOG_STACK_SIZE 1),
      Csrr T1 MHARTID, Slli T1 T1 LOG_STACK_SIZE, Sub SP SP T1]"

end
