(* ===== verification/TrapCode.thy ===== *)
theory TrapCode
  imports Locality Layout Riscv
begin

text \<open>
  The code of \<open>trap.S\<close> and \<open>macros.S\<close>, instruction by instruction, on a machine with the registers,
  the control registers and the memory that it uses. The C functions it calls are where a run
  leaves off. The entry code implements \<open>trap_entry\<close>, and the exit code gives the process its
  registers back, also after a timer interrupt in the middle of it.
\<close>

section \<open>Labels and calls\<close>

datatype label =
    L_trap_entry | L_trap_exception | L_trap_timer_preempted | L_trap_timer | L_trap_syscall | L_2
  | L_trap_resume_proc | L_hang

datatype c_function = C_sched_yield | C_exception_handler

type_synonym trap_instr = "(label, c_function) instr"

section \<open>The code\<close>

text \<open>Where \<open>(PROC_REGS + REGS_r)(tp)\<close> points.\<close>

definition reg_at :: "reg \<Rightarrow> nat" where
  "reg_at r = asm_const (PROC proc_regs) + asm_const (REGS r)"

definition save_to :: "reg \<Rightarrow> reg \<Rightarrow> trap_instr" where "save_to rs r = Sd rs (reg_at r) TP"

definition restore_to :: "reg \<Rightarrow> reg \<Rightarrow> trap_instr" where "restore_to rd r = Ld rd (reg_at r) TP"

abbreviation save :: "reg \<Rightarrow> trap_instr" where "save r \<equiv> save_to r r"

abbreviation restore :: "reg \<Rightarrow> trap_instr" where "restore r \<equiv> restore_to r r"

definition save_context_code :: "trap_instr list" where
  "save_context_code = map save
     [RA, SP, GP, T0, T1, T2, S0, S1, A0, A1, A2, A3, A4, A5, A6, A7,
      S2, S3, S4, S5, S6, S7, S8, S9, S10, S11, T3, T4, T5, T6]"

definition restore_context_code :: "trap_instr list" where
  "restore_context_code = map restore
     [T6, T5, T4, T3, S11, S10, S9, S8, S7, S6, S5, S4, S3, S2,
      A7, A6, A5, A4, A3, A2, A1, A0, S1, S0, T2, T1, T0, RA]"

definition MSTATUS_IE :: u64 where "MSTATUS_IE = 8"

text \<open>From each label to the end of the file, the last one first.\<close>

definition hang_code :: "trap_instr list" where
  "hang_code = [Wfi, J L_hang]"

definition trap_resume_proc_code :: "trap_instr list" where
  "trap_resume_proc_code =
     [Csrwi MSTATUS MSTATUS_IE, restore_to T0 PC, Csrw MEPC T0] @ restore_context_code @
     [Csrwi MSTATUS 0, Csrw MSCRATCH TP, restore SP, restore GP, restore TP, Mret] @ hang_code"

definition call_handler_code :: "link \<Rightarrow> trap_instr list" where
  "call_handler_code lk = [Jalr RA (lk_vector_lo lk), save A0] @ trap_resume_proc_code"

definition trap_syscall_code :: "link \<Rightarrow> trap_instr list" where
  "trap_syscall_code lk =
     [Addi S0 S0 4, save_to S0 PC, Li RA (lk_vector_hi lk), Li T1 (of_nat (asm_const ENUM_NUM_OF_SYSNR)),
      Bgeu T0 T1 L_2, Slli T0 T0 2, Add RA RA T0] @ call_handler_code lk"

definition trap_timer_code :: "link \<Rightarrow> trap_instr list" where
  "trap_timer_code lk = [Tail C_sched_yield] @ trap_syscall_code lk"

definition trap_timer_preempted_code :: "link \<Rightarrow> trap_instr list" where
  "trap_timer_preempted_code lk =
     [Csrrw_zero TP MSCRATCH, Csrr T0 MCAUSE, Bgez T0 L_hang] @ trap_timer_code lk"

definition trap_exception_code :: "link \<Rightarrow> trap_instr list" where
  "trap_exception_code lk =
     [Mv A0 S1, Mv A2 S0, Csrr A1 MTVAL, Call C_exception_handler, J L_trap_resume_proc] @
     trap_timer_preempted_code lk"

definition trap_entry_code :: "link \<Rightarrow> trap_instr list" where
  "trap_entry_code lk =
     [Csrrw TP MSCRATCH TP, Beqz TP L_trap_timer_preempted] @ save_context_code @
     [Csrr S0 MEPC, Csrrw_zero T1 MSCRATCH, save_to S0 PC, save_to T1 TP] @
     load_gp_code lk @ load_sp_code lk @
     [Csrr S1 MCAUSE, Bltz S1 L_trap_timer, Li T1 MCAUSE_U_ECALL, Beq S1 T1 L_trap_syscall] @
     trap_exception_code lk"

fun code :: "link \<Rightarrow> label \<Rightarrow> trap_instr list" where
  "code lk L_trap_entry = trap_entry_code lk"
| "code lk L_trap_exception = trap_exception_code lk"
| "code lk L_trap_timer_preempted = trap_timer_preempted_code lk"
| "code lk L_trap_timer = trap_timer_code lk"
| "code lk L_trap_syscall = trap_syscall_code lk"
| "code lk L_2 = call_handler_code lk"
| "code lk L_trap_resume_proc = trap_resume_proc_code"
| "code lk L_hang = hang_code"

text \<open>A run up to where it leaves this file, with the code that follows a call.\<close>

partial_function (option) run ::
    "link \<Rightarrow> trap_instr list \<Rightarrow> machine \<Rightarrow> (c_function leaving \<times> machine \<times> trap_instr list) option" where
  "run lk is m =
     (case is of
        [] \<Rightarrow> None
      | i # is \<Rightarrow> (case exec i m of
          (Next, m) \<Rightarrow> run lk is m
        | (Branch l, m) \<Rightarrow> run lk (code lk l) m
        | (Leave e, m) \<Rightarrow> Some (e, m, is)))"


lemma run_Nil [simp]: "run lk [] m = None" by (subst run.simps) simp

lemma run_Cons: "run lk (i # is) m = (case exec i m of
    (Next, m) \<Rightarrow> run lk is m | (Branch l, m) \<Rightarrow> run lk (code lk l) m | (Leave e, m) \<Rightarrow> Some (e, m, is))"
  by (subst run.simps) simp

section \<open>The process control block in memory\<close>

definition reg_place :: "reg \<Rightarrow> nat" where
  "reg_place r = offsetof proc_t proc_regs + offsetof regs_t r"

definition pcb_regs :: "u64 \<Rightarrow> (u64 \<Rightarrow> u64) \<Rightarrow> regs" where
  "pcb_regs pcb \<mu> r = \<mu> (pcb + of_nat (reg_place r))"

definition trap_regs :: "reg list" where "trap_regs = take 32 reg_order"

lemma reg_at_saved: "i < 32 \<Longrightarrow> reg_at (reg_order ! i) = 8 * i"
  by (simp add: reg_at_def saved_offsets asm_const_PROC proc_offsets)

lemma regs_place: "\<exists>i < 43. r = reg_order ! i \<and> reg_place r = 8 * i"
proof -
  have n: "N_REGISTERS = 43" by (simp add: N_REGISTERS_def reg_order_def)
  have "r \<in> set reg_order" by (cases r) (simp_all add: reg_order_def)
  then obtain i where "i < 43" "r = reg_order ! i" using n by (auto simp: in_set_conv_nth N_REGISTERS_def)
  then show ?thesis using regs_offsetof n by (auto simp: reg_place_def proc_offsets)
qed


lemma trap_regs_place: "r \<in> set trap_regs \<Longrightarrow> reg_at r = reg_place r"
proof -
  assume "r \<in> set trap_regs"
  then obtain i where i: "i < 32" "r = reg_order ! i"
    by (auto simp: trap_regs_def in_set_conv_nth)
  moreover have "N_REGISTERS = 43" by (simp add: N_REGISTERS_def reg_order_def)
  ultimately show ?thesis by (simp add: reg_at_saved reg_place_def regs_offsetof proc_offsets)
qed

lemma places_apart: "(of_nat (reg_place r) :: u64) = of_nat (reg_place r') \<longleftrightarrow> r = r'"
proof -
  obtain i j where i: "i < 43" "r = reg_order ! i" "reg_place r = 8 * i"
    and j: "j < 43" "r' = reg_order ! j" "reg_place r' = 8 * j"
    using regs_place by metis
  have "(of_nat (8 * i) :: u64) = of_nat (8 * j) \<longleftrightarrow> i = j"
    using i(1) j(1) by (subst word_of_nat_eq_iff) (simp add: take_bit_eq_mod)
  moreover have "length reg_order = 43" by (simp add: reg_order_def)
  ultimately show ?thesis using i j by (auto simp: reg_order_distinct nth_eq_iff_index_eq)
qed

lemma store_reg: "r \<in> set trap_regs \<Longrightarrow>
    pcb_regs pcb (\<mu>(pcb + of_nat (reg_at r) := v)) = (pcb_regs pcb \<mu>)(r := v)"
  by (rule ext) (simp add: trap_regs_place pcb_regs_def places_apart)

text \<open>A block of saves, and a block of restores.\<close>

primrec store_all :: "(reg \<Rightarrow> u64) \<Rightarrow> reg list \<Rightarrow> (u64 \<Rightarrow> u64) \<Rightarrow> u64 \<Rightarrow> u64" where
  "store_all x [] \<mu> = \<mu>"
| "store_all x (r # rs) \<mu> = store_all x rs (\<mu>(x TP + of_nat (reg_at r) := x r))"

definition load_all :: "(u64 \<Rightarrow> u64) \<Rightarrow> reg list \<Rightarrow> (reg \<Rightarrow> u64) \<Rightarrow> reg \<Rightarrow> u64" where
  "load_all \<mu> rs x = (\<lambda>r. if r \<in> set rs then \<mu> (x TP + of_nat (reg_at r)) else x r)"

lemma exec_save:
  "exec (save_to rs r) m = (Next, m\<lparr>m_mem := (m_mem m)(m_x m TP + of_nat (reg_at r) := m_x m rs)\<rparr>)"
  "exec (restore_to rd r) m = (Next, set_x rd (m_mem m (m_x m TP + of_nat (reg_at r))) m)"
  by (simp_all add: save_to_def restore_to_def)

lemma run_save: "run lk (save_to rs r # is) m =
    run lk is (m\<lparr>m_mem := (m_mem m)(m_x m TP + of_nat (reg_at r) := m_x m rs)\<rparr>)"
  by (simp add: run_Cons save_to_def)

lemma run_restore: "run lk (restore_to rd r # is) m =
    run lk is (m\<lparr>m_x := (m_x m)(rd := m_mem m (m_x m TP + of_nat (reg_at r)))\<rparr>)"
  by (simp add: run_Cons restore_to_def set_x_def)

lemma run_saves:
  "run lk (map save rs @ is) m = run lk is (m\<lparr>m_mem := store_all (m_x m) rs (m_mem m)\<rparr>)"
  by (induction rs arbitrary: m) (simp_all add: run_save)

lemma load_all_step: "r \<noteq> TP \<Longrightarrow> load_all \<mu> rs (x(r := \<mu> (x TP + of_nat (reg_at r)))) = load_all \<mu> (r # rs) x"
  by (auto simp: load_all_def fun_eq_iff)

lemma run_restores:
  "TP \<notin> set rs \<Longrightarrow> run lk (map restore rs @ is) m = run lk is (m\<lparr>m_x := load_all (m_mem m) rs (m_x m)\<rparr>)"
proof (induction rs arbitrary: m)
  case (Cons r rs)
  then have "r \<noteq> TP" by auto
  with Cons show ?case by (simp add: run_restore load_all_step)
qed (simp add: load_all_def)

lemma store_all_regs:
  "x TP = pcb \<Longrightarrow> set rs \<subseteq> set trap_regs \<Longrightarrow>
    pcb_regs pcb (store_all x rs \<mu>) = (\<lambda>r. if r \<in> set rs then x r else pcb_regs pcb \<mu> r)"
  by (induction rs arbitrary: \<mu>) (auto simp: store_reg fun_eq_iff)

lemma store_all_frame:
  "(\<And>r. r \<in> set rs \<Longrightarrow> a \<noteq> x TP + of_nat (reg_at r)) \<Longrightarrow> store_all x rs \<mu> a = \<mu> a"
  by (induction rs arbitrary: \<mu>) auto

lemma restored_reg: "r \<in> set trap_regs \<Longrightarrow> \<mu> (pcb + of_nat (reg_at r)) = pcb_regs pcb \<mu> r"
  by (simp add: trap_regs_place pcb_regs_def)


section \<open>Entry\<close>

text \<open>The registers of the user program at the trap.\<close>

definition user_regs :: "machine \<Rightarrow> regs" where
  "user_regs m = (m_x m)(PC := m_csr m MEPC)"

text \<open>The jump that the \<open>i\<close>-th word of \<open>syscall_vector\<close> holds leads to handler \<open>i\<close>.\<close>

definition handler_index :: "link \<Rightarrow> u64 \<Rightarrow> nat" where
  "handler_index lk a = unat ((a - (lk_vector_hi lk + lk_vector_lo lk)) div 4)"

text \<open>What the C code does from where the entry code leaves off: process \<open>c\<close>, whose control block
  is at \<open>pcb\<close>, has the registers that are in memory. The result of a system call is stored in
  \<open>a0\<close>, as the instruction behind the call does (\<open>entry_returns\<close>).\<close>

definition after_entry ::
    "link \<Rightarrow> (nat \<Rightarrow> bool) \<Rightarrow> nat \<Rightarrow> u64 \<Rightarrow> c_function leaving \<times> machine \<times> trap_instr list \<Rightarrow> kstate \<Rightarrow> stop + bool \<times> kstate" where
  "after_entry lk irq c pcb r k = (case r of (e, m, rest) \<Rightarrow>
     let k = upd_proc c (\<lambda>p. p\<lparr>p_regs := pcb_regs pcb (m_mem m)\<rparr>) k
     in case e of
          Tails C_sched_yield \<Rightarrow> Inr (False, k)
        | Calls C_exception_handler \<Rightarrow>
            Inr (True, upd_proc c (exception_handler (m_x m A0) (m_x m A1) (m_x m A2)) k)
        | Jumps a \<Rightarrow> ebind (syscall_vector irq (handler_index lk a) (m_x m) k)
            (\<lambda>(out, k). case out of Return v \<Rightarrow> Inr (True, put_reg c A0 v k) | Yield \<Rightarrow> Inr (False, k))
        | _ \<Rightarrow> Inl Undefined)"

lemma upd_proc_cong: "f (ks_procs k c) = g (ks_procs k c) \<Longrightarrow> upd_proc c f k = upd_proc c g k"
  by (simp add: upd_proc_def)

lemma neg_bit: "sint (w :: u64) < 0 \<longleftrightarrow> bit w 63"
  using bit_last_iff [of w] by simp

definition saved_list :: "reg list" where
  "saved_list = [RA, SP, GP, T0, T1, T2, S0, S1, A0, A1, A2, A3, A4, A5, A6, A7,
      S2, S3, S4, S5, S6, S7, S8, S9, S10, S11, T3, T4, T5, T6]"

lemma saved_list: "save_context_code = map save saved_list" "set saved_list \<subseteq> set trap_regs"
  "set trap_regs = saved_regs" "r \<in> saved_regs \<longleftrightarrow> r = PC \<or> r = TP \<or> r \<in> set saved_list"
  "PC \<in> set trap_regs" "TP \<in> set trap_regs" "TP \<notin> set saved_list" "PC \<notin> set saved_list"
  by (simp_all add: save_context_code_def saved_list_def trap_regs_def saved_regs_def reg_order_def) (cases r; simp)

lemma entry_run:
  assumes "m_csr m MSCRATCH = pcb" "pcb \<noteq> 0"
  shows "\<exists>m'. run lk (code lk L_trap_entry) m =
      Some (if bit (m_csr m MCAUSE) 63 then Tails C_sched_yield
        else if m_csr m MCAUSE = MCAUSE_U_ECALL
        then Jumps (lk_vector_hi lk + lk_vector_lo lk +
          push_bit 2 (if of_nat NUM_OF_SYSNR \<le> m_x m T0 then 0 else m_x m T0))
        else Calls C_exception_handler, m',
      if bit (m_csr m MCAUSE) 63 then trap_syscall_code lk
        else if m_csr m MCAUSE = MCAUSE_U_ECALL then save A0 # trap_resume_proc_code
        else J L_trap_resume_proc # trap_timer_preempted_code lk) \<and>
    pcb_regs pcb (m_mem m') = (\<lambda>r. if r = PC \<and> \<not> bit (m_csr m MCAUSE) 63 \<and> m_csr m MCAUSE = MCAUSE_U_ECALL
        then m_csr m MEPC + 4 else if r \<in> saved_regs then user_regs m r else pcb_regs pcb (m_mem m) r) \<and>
    (\<forall>a. (\<forall>r \<in> saved_regs. a \<noteq> pcb + of_nat (reg_at r)) \<longrightarrow> m_mem m' a = m_mem m a) \<and> m_word m' = m_word m \<and>
    m_x m' TP = pcb \<and> m_csr m' MSCRATCH = 0 \<and>
    m_x m' SP = lk_stack lk - 1024 * (1 + m_csr m MHARTID) \<and>
    (if m_csr m MCAUSE = MCAUSE_U_ECALL
     then \<forall>r \<in> {A0, A1, A2, A3, A4, A5, A6, A7}. m_x m' r = m_x m r
     else \<not> bit (m_csr m MCAUSE) 63 \<longrightarrow>
       m_x m' A0 = m_csr m MCAUSE \<and> m_x m' A1 = m_csr m MTVAL \<and> m_x m' A2 = m_csr m MEPC)"
proof -
  let ?x = "(m_x m)(TP := pcb)"
  let ?\<mu> = "(store_all ?x saved_list (m_mem m))
    (pcb + of_nat (reg_at PC) := m_csr m MEPC, pcb + of_nat (reg_at TP) := m_x m TP)"
  have regs: "pcb_regs pcb ?\<mu> = (\<lambda>r. if r \<in> saved_regs then user_regs m r else pcb_regs pcb (m_mem m) r)"
    using store_all_regs [of ?x pcb, OF _ saved_list(2)]
    by (intro ext) (simp add: store_reg saved_list user_regs_def)
  have frame: "?\<mu> a = m_mem m a" if "\<forall>r \<in> saved_regs. a \<noteq> pcb + of_nat (reg_at r)" for a
    using that store_all_frame [of saved_list a ?x "m_mem m"] by (auto simp: saved_list)
  have pc: "pcb_regs pcb (?\<mu>(pcb + of_nat (reg_at PC) := v)) = (pcb_regs pcb ?\<mu>)(PC := v)" for v
    by (rule store_reg [OF saved_list(5)])
  note code = trap_entry_code_def trap_exception_code_def trap_timer_code_def trap_syscall_code_def
    call_handler_code_def saved_list(1) load_gp_code_def load_sp_code_def
  have sp: "push_bit LOG_STACK_SIZE h = 1024 * h" "of_nat MIN_HARTID = (1 :: u64)" "2 ^ LOG_STACK_SIZE = (1024 :: u64)" for h :: u64
    by (simp_all add: MIN_HARTID_def LOG_STACK_SIZE_def push_bit_eq_mult)
  have e: "\<not> bit MCAUSE_U_ECALL 63" using bit_push_mask [of 3 1 63] by (simp add: MCAUSE_U_ECALL_def)
  note go = sp run_Cons exec_save run_saves branch_def neg_bit
  consider "bit (m_csr m MCAUSE) 63" | "\<not> bit (m_csr m MCAUSE) 63" "m_csr m MCAUSE \<noteq> MCAUSE_U_ECALL"
    | "\<not> bit (m_csr m MCAUSE) 63" "m_csr m MCAUSE = MCAUSE_U_ECALL" by blast
  then show ?thesis
  proof cases
    case 1
    then show ?thesis using assms regs frame e by (auto simp: code go)
  next
    case 2
    then show ?thesis using assms regs frame e by (auto simp: code go)
  next
    case 3
    then show ?thesis using assms regs frame pc e
      by (auto simp: code go asm_const_NUM_OF_SYSNR fun_eq_iff saved_list(4))
  qed
qed


text \<open>Only the argument registers matter to a system call.\<close>

lemma syscall_vector_args:
  "(\<And>a. a \<in> {A0, A1, A2, A3, A4, A5, A6, A7} \<Longrightarrow> r a = r' a) \<Longrightarrow> syscall_vector irq n r = syscall_vector irq n r'"
  by (simp add: syscall_vector_def)

lemma handler_index_jump:
  assumes "unat n < NUM_OF_SYSNR"
  shows "handler_index lk (lk_vector_hi lk + lk_vector_lo lk + push_bit 2 n) = unat n"
proof -
  have n: "unat n < 11" using assms by (simp add: NUM_OF_SYSNR_def)
  then have "unat (4 * n) = 4 * unat n" by (subst unat_mult_lem [THEN iffD1]) simp_all
  then show ?thesis by (simp add: handler_index_def push_bit_eq_mult unat_div mult.commute)
qed

lemma syscall_vector_0: "syscall_vector irq 0 r = syscall_unimplemented"
  by (simp add: syscall_vector_def)

text \<open>After a system call the code jumps to the handler that \<open>trap_syscall\<close> selects.\<close>

lemma syscall_outcome:
  assumes "ks_current k = Some c" "pcb_regs pcb (m_mem m) = p_regs (ks_procs k c)" and e: "m_csr m MCAUSE = MCAUSE_U_ECALL"
    and mem: "pcb_regs pcb (m_mem m') = (\<lambda>r. if r = PC then m_csr m MEPC + 4
      else if r \<in> saved_regs then user_regs m r else pcb_regs pcb (m_mem m) r)"
    and x: "\<forall>r \<in> {A0, A1, A2, A3, A4, A5, A6, A7}. m_x m' r = m_x m r"
  shows "after_entry lk irq c pcb (Jumps (lk_vector_hi lk + lk_vector_lo lk +
        push_bit 2 (if of_nat NUM_OF_SYSNR \<le> m_x m T0 then 0 else m_x m T0)), m', rest) k =
      trap_entry (user_regs m) (m_csr m MCAUSE) mtval irq k"
proof -
  let ?k = "put_reg c PC (p_regs (save_context (user_regs m) (ks_procs k c)) PC + 4) (upd_proc c (save_context (user_regs m)) k)"
  have b: "\<not> bit MCAUSE_U_ECALL 63" using bit_push_mask [of 3 1 63] by (simp add: MCAUSE_U_ECALL_def)
  have k: "upd_proc c (\<lambda>p. p\<lparr>p_regs := pcb_regs pcb (m_mem m')\<rparr>) k = ?k"
    unfolding mem assms(2)
    by (auto simp: put_reg_def upd_proc_def save_context_def saved_list(4) user_regs_def fun_eq_iff)
  have r: "p_regs (save_context (user_regs m) (ks_procs k c)) a = m_x m a" if "a \<noteq> PC" "a \<in> saved_regs" for a
    using that by (simp add: save_context_def user_regs_def)
  have args: "syscall_vector irq n (m_x m') = syscall_vector irq n (p_regs (ks_procs ?k c))" for n
  proof (rule syscall_vector_args)
    fix a
    assume a: "a \<in> {A0, A1, A2, A3, A4, A5, A6, A7}"
    then have "a \<noteq> PC" "a \<in> saved_regs" by (auto simp: saved_list(4) saved_list_def)
    moreover have "m_x m' a = m_x m a" using x a by blast
    ultimately show "m_x m' a = p_regs (ks_procs ?k c) a" using r [of a] by (simp add: put_reg_def upd_proc_def)
  qed
  have t0: "p_regs (ks_procs ?k c) T0 = m_x m T0"
    using r [of T0] by (simp add: put_reg_def upd_proc_def saved_list(4) saved_list_def)
  have n: "of_nat NUM_OF_SYSNR \<le> m_x m T0 \<longleftrightarrow> NUM_OF_SYSNR \<le> unat (m_x m T0)"
    by (simp add: word_le_nat_alt NUM_OF_SYSNR_def)
  have u: "handler_index lk (lk_vector_hi lk + lk_vector_lo lk +
      push_bit 2 (if of_nat NUM_OF_SYSNR \<le> m_x m T0 then 0 else m_x m T0)) =
    (if NUM_OF_SYSNR \<le> unat (m_x m T0) then 0 else unat (m_x m T0))"
    using handler_index_jump [of 0 lk] handler_index_jump [of "m_x m T0" lk] n by (simp add: NUM_OF_SYSNR_def)
  have v: "syscall_vector irq (if b then 0 else n) r k = (if b then syscall_unimplemented k else syscall_vector irq n r k)"
    for b n r k by (simp add: syscall_vector_0)
  have "p_regs (ks_procs (upd_proc c (save_context (user_regs m)) k) c) PC = p_regs (save_context (user_regs m) (ks_procs k c)) PC"
    by (simp add: upd_proc_def)
  then show ?thesis using b e assms(1)
    by (simp add: after_entry_def k u t0 args v trap_entry_def trap_syscall_def deref_current_def Let_def)
qed

lemma entry_implements:
  assumes "ks_current k = Some c" "m_csr m MSCRATCH = pcb" "pcb \<noteq> 0"
    and "pcb_regs pcb (m_mem m) = p_regs (ks_procs k c)"
  shows "\<exists>e m' rest. run lk (code lk L_trap_entry) m = Some (e, m', rest) \<and>
    after_entry lk irq c pcb (e, m', rest) k =
      trap_entry (user_regs m) (m_csr m MCAUSE) (m_csr m MTVAL) irq k \<and>
    (\<forall>a. (\<forall>r \<in> saved_regs. a \<noteq> pcb + of_nat (reg_at r)) \<longrightarrow> m_mem m' a = m_mem m a) \<and> m_word m' = m_word m \<and>
    m_x m' TP = pcb \<and> m_csr m' MSCRATCH = 0"
proof -
  obtain m' where m': "run lk (code lk L_trap_entry) m =
      Some (if bit (m_csr m MCAUSE) 63 then Tails C_sched_yield
        else if m_csr m MCAUSE = MCAUSE_U_ECALL
        then Jumps (lk_vector_hi lk + lk_vector_lo lk +
          push_bit 2 (if of_nat NUM_OF_SYSNR \<le> m_x m T0 then 0 else m_x m T0))
        else Calls C_exception_handler, m',
      if bit (m_csr m MCAUSE) 63 then trap_syscall_code lk
        else if m_csr m MCAUSE = MCAUSE_U_ECALL then save A0 # trap_resume_proc_code
        else J L_trap_resume_proc # trap_timer_preempted_code lk)"
    "pcb_regs pcb (m_mem m') = (\<lambda>r. if r = PC \<and> \<not> bit (m_csr m MCAUSE) 63 \<and> m_csr m MCAUSE = MCAUSE_U_ECALL
        then m_csr m MEPC + 4 else if r \<in> saved_regs then user_regs m r else pcb_regs pcb (m_mem m) r)"
    "(\<forall>a. (\<forall>r \<in> saved_regs. a \<noteq> pcb + of_nat (reg_at r)) \<longrightarrow> m_mem m' a = m_mem m a) \<and> m_word m' = m_word m"
    "m_x m' TP = pcb" "m_csr m' MSCRATCH = 0"
    "if m_csr m MCAUSE = MCAUSE_U_ECALL
     then \<forall>r \<in> {A0, A1, A2, A3, A4, A5, A6, A7}. m_x m' r = m_x m r
     else \<not> bit (m_csr m MCAUSE) 63 \<longrightarrow>
       m_x m' A0 = m_csr m MCAUSE \<and> m_x m' A1 = m_csr m MTVAL \<and> m_x m' A2 = m_csr m MEPC"
    using entry_run [OF assms(2,3), of lk] by blast
  have saved: "upd_proc c (\<lambda>p. p\<lparr>p_regs := (\<lambda>r. if r \<in> saved_regs then user_regs m r else pcb_regs pcb (m_mem m) r)\<rparr>) k =
      upd_proc c (save_context (user_regs m)) k"
    unfolding assms(4) by (rule upd_proc_cong) (simp add: save_context_def)
  have e: "\<not> bit MCAUSE_U_ECALL 63" using bit_push_mask [of 3 1 63] by (simp add: MCAUSE_U_ECALL_def)
  consider "bit (m_csr m MCAUSE) 63" | "\<not> bit (m_csr m MCAUSE) 63" "m_csr m MCAUSE \<noteq> MCAUSE_U_ECALL"
    | "m_csr m MCAUSE = MCAUSE_U_ECALL" by blast
  then have "after_entry lk irq c pcb (the (run lk (code lk L_trap_entry) m)) k =
      trap_entry (user_regs m) (m_csr m MCAUSE) (m_csr m MTVAL) irq k"
  proof cases
    case 3
    then show ?thesis
      using syscall_outcome [OF assms(1,4) 3, of m'] m'(2,6) e unfolding m'(1) by simp
  qed (unfold m'(1), use assms(1) m'(6) in
    \<open>simp_all add: m'(2) saved after_entry_def trap_entry_def deref_current_def user_regs_def Let_def\<close>)
  then show ?thesis using m' by auto
qed

section \<open>Exit\<close>

definition restore_list :: "reg list" where
  "restore_list = [T6, T5, T4, T3, S11, S10, S9, S8, S7, S6, S5, S4, S3, S2,
      A7, A6, A5, A4, A3, A2, A1, A0, S1, S0, T2, T1, T0, RA]"

lemma restore_list: "restore_context_code = map restore restore_list" "TP \<notin> set restore_list"
  "r \<in> saved_regs \<longleftrightarrow> r \<in> {PC, SP, GP, TP} \<or> r \<in> set restore_list"
  "SP \<notin> set restore_list" "GP \<notin> set restore_list" "PC \<notin> set restore_list"
  by (simp_all add: restore_context_code_def restore_list_def saved_regs_def reg_order_def) (cases r; simp)

lemma resume_run:
  assumes "m_x m TP = pcb"
  shows "\<exists>m'. run lk trap_resume_proc_code m = Some (To_user, m', hang_code) \<and>
    (\<forall>r \<in> saved_regs. user_regs m' r = pcb_regs pcb (m_mem m) r) \<and>
    m_csr m' MSCRATCH = pcb \<and> m_csr m' MSTATUS = 0 \<and> m_mem m' = m_mem m"
proof -
  have p: "r \<in> saved_regs \<Longrightarrow> pcb_regs pcb (m_mem m) r = m_mem m (pcb + of_nat (reg_at r))" for r
    by (simp add: restored_reg saved_list(3))
  show ?thesis
    using assms
    by (simp add: trap_resume_proc_code_def restore_list(1) run_Cons exec_save run_restores restore_list(2))
      (auto simp: p user_regs_def load_all_def restore_list)
qed

text \<open>When a handler returns its result in \<open>a0\<close>, the code behind the call stores it in the
  control block; when the exception handler returns, it stores nothing.\<close>

definition with_result :: "c_function leaving \<Rightarrow> machine \<Rightarrow> regs \<Rightarrow> regs" where
  "with_result e m regs = (case e of Jumps a \<Rightarrow> regs(A0 := m_x m A0) | _ \<Rightarrow> regs)"

lemma entry_returns:
  assumes "m_csr m MSCRATCH = pcb" "pcb \<noteq> 0" "run lk (code lk L_trap_entry) m = Some (e, m', rest)"
    and "e \<noteq> Tails C_sched_yield" "m_x m2 TP = pcb"
  shows "\<exists>m3. run lk rest m2 = Some (To_user, m3, hang_code) \<and>
    (\<forall>r \<in> saved_regs. user_regs m3 r = with_result e m2 (pcb_regs pcb (m_mem m2)) r)"
proof (cases "m_csr m MCAUSE = MCAUSE_U_ECALL")
  case True
  let ?m = "m2\<lparr>m_mem := (m_mem m2)(pcb + of_nat (reg_at A0) := m_x m2 A0)\<rparr>"
  have a0: "A0 \<in> set trap_regs" by (simp add: saved_list)  (simp add: saved_list_def)
  have e: "\<exists>a. e = Jumps a" "rest = save A0 # trap_resume_proc_code"
    using entry_run [OF assms(1,2), of lk] assms(3,4) True by (auto split: if_splits)
  then show ?thesis
    using resume_run [of ?m pcb lk] assms(5) by (auto simp: run_save store_reg [OF a0] with_result_def)
next
  case False
  then have "e = Calls C_exception_handler" "rest = J L_trap_resume_proc # trap_timer_preempted_code lk"
    using entry_run [OF assms(1,2), of lk] assms(3,4) by (auto split: if_splits)
  then show ?thesis
    using resume_run [OF assms(5), of lk] by (auto simp: run_Cons with_result_def)
qed

text \<open>C10: the entry code implements \<open>trap_entry\<close>. From a trap with the control block of process \<open>c\<close> in
  \<open>mscratch\<close>, the code saves the registers in that control block, writes no other memory, and leaves to
  the scheduler, a system call or the exception handler such that the outcome is that of
  \<open>trap_entry\<close>; \<open>tp\<close> points to the control block and \<open>mscratch\<close> marks the kernel. When
  a handler returns, with \<open>tp\<close> as it was, the code behind the call takes the process back to user
  mode with the registers of its control block, where \<open>a0\<close> is the result of a system call.\<close>

theorem trap_code_implements:
  assumes "ks_current k = Some c" "m_csr m MSCRATCH = pcb" "pcb \<noteq> 0"
    and "pcb_regs pcb (m_mem m) = p_regs (ks_procs k c)"
  shows "\<exists>e m' rest. run lk (code lk L_trap_entry) m = Some (e, m', rest) \<and>
    after_entry lk irq c pcb (e, m', rest) k =
      trap_entry (user_regs m) (m_csr m MCAUSE) (m_csr m MTVAL) irq k \<and>
    (\<forall>a. (\<forall>r \<in> saved_regs. a \<noteq> pcb + of_nat (reg_at r)) \<longrightarrow> m_mem m' a = m_mem m a) \<and> m_word m' = m_word m \<and>
    m_x m' TP = pcb \<and> m_csr m' MSCRATCH = 0 \<and>
    (\<forall>m2. e \<noteq> Tails C_sched_yield \<and> m_x m2 TP = pcb \<longrightarrow>
      (\<exists>m3. run lk rest m2 = Some (To_user, m3, hang_code) \<and>
        (\<forall>r \<in> saved_regs. user_regs m3 r = with_result e m2 (pcb_regs pcb (m_mem m2)) r)))"
proof -
  obtain e m' rest where run: "run lk (code lk L_trap_entry) m = Some (e, m', rest)"
    and enters: "after_entry lk irq c pcb (e, m', rest) k = trap_entry (user_regs m) (m_csr m MCAUSE) (m_csr m MTVAL) irq k"
      "\<forall>a. (\<forall>r \<in> saved_regs. a \<noteq> pcb + of_nat (reg_at r)) \<longrightarrow> m_mem m' a = m_mem m a"
      "m_word m' = m_word m" "m_x m' TP = pcb" "m_csr m' MSCRATCH = 0"
    using entry_implements [OF assms, of lk irq] by blast
  show ?thesis
    by (intro exI [of _ e] exI [of _ m'] exI [of _ rest] conjI run enters allI impI
        entry_returns [OF assms(2,3) run]; blast)
qed

definition sample_link :: link where
  "sample_link = \<lparr>lk_global_pointer = 32768, lk_stack = 65536, lk_vector_hi = 512, lk_vector_lo = 36\<rparr>"

text \<open>A process waiting at boot: its control block at 4096 is all zeros, and its first timer interrupt comes.\<close>

theorem trap_code_implements_witness:
  "\<exists>e m' rest. run sample_link (code sample_link L_trap_entry)
      \<lparr>m_x = (\<lambda>_. 3), m_csr = (\<lambda>_. 0)(MSCRATCH := 4096, MCAUSE := push_bit 63 1), m_mem = (\<lambda>_. 0), m_word = (\<lambda>_. 0)\<rparr> = Some (e, m', rest) \<and>
    after_entry sample_link (\<lambda>_. False) 0 4096 (e, m', rest) (root_running 0 1) =
      Inr (False, upd_proc 0 (save_context ((\<lambda>_. 3)(PC := 0))) (root_running 0 1)) \<and> m_x m' TP = 4096"
proof -
  let ?m = "\<lparr>m_x = (\<lambda>_. 3), m_csr = (\<lambda>_. 0)(MSCRATCH := 4096, MCAUSE := push_bit 63 1), m_mem = (\<lambda>_. 0), m_word = (\<lambda>_. 0)\<rparr>"
  have p: "pcb_regs 4096 (m_mem ?m) = p_regs (ks_procs (root_running 0 1) 0)"
    by (simp add: pcb_regs_def boot_procs_def boot_proc_def fun_eq_iff)
  have "bit (push_bit 63 1 :: u64) 63" by (simp add: bit_simps)
  then have "trap_entry (user_regs ?m) (m_csr ?m MCAUSE) (m_csr ?m MTVAL) (\<lambda>_. False) (root_running 0 1) =
      Inr (False, upd_proc 0 (save_context ((\<lambda>_. 3)(PC := 0))) (root_running 0 1))"
    by (simp add: trap_entry_def deref_current_def user_regs_def)
  with trap_code_implements [OF _ _ _ p, where lk = sample_link and irq = "\<lambda>_. False"] show ?thesis by auto
qed

text \<open>A trap of the hart: the control registers that it sets.\<close>

definition trapped :: "u64 \<Rightarrow> u64 \<Rightarrow> u64 \<Rightarrow> machine \<Rightarrow> machine" where
  "trapped cause pc status m = set_csr MCAUSE cause (set_csr MEPC pc (set_csr MSTATUS status m))"

text \<open>The machine after the first instructions of straight-line code.\<close>

definition after :: "trap_instr list \<Rightarrow> machine \<Rightarrow> machine" where
  "after is m = fold (\<lambda>i m. snd (exec i m)) is m"

lemma after_simps [simp]: "after [] m = m" "after (i # is) m = after is (snd (exec i m))"
  "after (is @ js) m = after js (after is m)"
  by (simp_all add: after_def)

fun quiet :: "trap_instr \<Rightarrow> bool" where
  "quiet (Ld rd off base) \<longleftrightarrow> rd \<noteq> TP"
| "quiet (Csrw c rs) \<longleftrightarrow> c \<noteq> MSCRATCH"
| "quiet (Csrwi c v) \<longleftrightarrow> c \<noteq> MSCRATCH"
| "quiet _ \<longleftrightarrow> False"

lemma quiet_after:
  "\<forall>i \<in> set is. quiet i \<Longrightarrow> m_x (after is m) TP = m_x m TP \<and> m_mem (after is m) = m_mem m \<and>
    m_csr (after is m) MSCRATCH = m_csr m MSCRATCH"
proof (induction "is" arbitrary: m)
  case (Cons i "is")
  then show ?case by (cases i) auto
qed simp

text \<open>A timer interrupt in the kernel gives up the hart and touches no memory.\<close>

lemma preempted_run:
  assumes "m_csr m MSCRATCH = 0" "m_x m TP = pcb" "bit cause 63"
  shows "\<exists>m'. run lk (code lk L_trap_entry) (trapped cause pc status m) =
      Some (Tails C_sched_yield, m', trap_syscall_code lk) \<and>
    m_x m' TP = pcb \<and> m_csr m' MSCRATCH = 0 \<and> m_mem m' = m_mem m"
  using assms neg_bit [of cause]
  by (auto simp: trapped_def trap_entry_code_def trap_timer_preempted_code_def trap_timer_code_def run_Cons branch_def not_le)


definition resume_open :: "trap_instr list" where
  "resume_open = [Csrwi MSTATUS MSTATUS_IE, restore_to T0 PC, Csrw MEPC T0] @ restore_context_code"

definition resume_closed :: "trap_instr list" where
  "resume_closed = [Csrw MSCRATCH TP, restore SP, restore GP, restore TP, Mret] @ hang_code"

lemma resume_parts: "trap_resume_proc_code = resume_open @ Csrwi MSTATUS 0 # resume_closed"
  by (simp add: trap_resume_proc_code_def resume_open_def resume_closed_def)

lemma open_quiet: "i \<in> set resume_open \<Longrightarrow> quiet i"
  by (auto simp: resume_open_def restore_list(1) restore_to_def restore_list_def)

lemma closed_status: "m_csr (after (take n resume_closed) m) MSTATUS = m_csr m MSTATUS"
proof -
  have one: "i \<in> set resume_closed \<Longrightarrow> m_csr (snd (exec i m)) MSTATUS = m_csr m MSTATUS" for i m
    by (auto simp: resume_closed_def hang_code_def restore_to_def branch_def)
  have "set is \<subseteq> set resume_closed \<Longrightarrow> m_csr (after is m) MSTATUS = m_csr m MSTATUS" for "is"
    by (induction "is" arbitrary: m) (simp_all add: one)
  then show ?thesis by (simp add: set_take_subset)
qed

text \<open>C11: leaving the kernel gives a process its registers back. The exit code ends in user mode with every
  saved register, the program counter included, as it is in the control block, and writes no
  memory. A timer interrupt can arrive after any of its instructions that leaves interrupts on; it ends in
  the scheduler with the control block untouched, so that the process resumes from it later.\<close>

theorem resume_restores:
  assumes "m_x m TP = pcb" "m_csr m MSCRATCH = 0" "\<not> bit (m_csr m MSTATUS) 3"
  shows "(\<exists>m'. run lk (code lk L_trap_resume_proc) m = Some (To_user, m', hang_code) \<and>
      (\<forall>r \<in> saved_regs. user_regs m' r = pcb_regs pcb (m_mem m) r) \<and> m_csr m' MSCRATCH = pcb \<and> m_mem m' = m_mem m) \<and>
    (\<forall>n m1. n \<le> length trap_resume_proc_code \<and> m1 = after (take n trap_resume_proc_code) m \<and>
        bit (m_csr m1 MSTATUS) 3 \<and> bit cause 63 \<longrightarrow>
      (\<exists>m'. run lk (code lk L_trap_entry) (trapped cause pc status m1) = Some (Tails C_sched_yield, m', trap_syscall_code lk) \<and>
        m_x m' TP = pcb \<and> m_csr m' MSCRATCH = 0 \<and> m_mem m' = m_mem m))"
proof (intro conjI allI impI; (elim conjE)?)
  show "\<exists>m'. run lk (code lk L_trap_resume_proc) m = Some (To_user, m', hang_code) \<and>
      (\<forall>r \<in> saved_regs. user_regs m' r = pcb_regs pcb (m_mem m) r) \<and> m_csr m' MSCRATCH = pcb \<and> m_mem m' = m_mem m"
    using resume_run [OF assms(1), of lk] by auto
next
  fix n m1
  assume n: "n \<le> length trap_resume_proc_code" and m1: "m1 = after (take n trap_resume_proc_code) m"
    and on: "bit (m_csr m1 MSTATUS) 3" and c: "bit cause 63"
  have "n \<le> length resume_open"
  proof (rule ccontr)
    assume "\<not> n \<le> length resume_open"
    then obtain k where k: "n = length resume_open + Suc k" by (metis add_Suc_right less_imp_Suc_add not_le)
    then have "k \<le> length resume_closed" using n by (simp add: resume_parts)
    then have "m_csr m1 MSTATUS = 0" using k closed_status by (simp add: m1 resume_parts)
    then show False using on by simp
  qed
  then have "m1 = after (take n resume_open) m" using m1 by (simp add: resume_parts)
  moreover have "\<forall>i \<in> set (take n resume_open). quiet i" using open_quiet in_set_takeD by fast
  ultimately have "m_x m1 TP = pcb" "m_csr m1 MSCRATCH = 0" "m_mem m1 = m_mem m"
    using quiet_after assms(1,2) by auto
  then show "\<exists>m'. run lk (code lk L_trap_entry) (trapped cause pc status m1) =
      Some (Tails C_sched_yield, m', trap_syscall_code lk) \<and>
      m_x m' TP = pcb \<and> m_csr m' MSCRATCH = 0 \<and> m_mem m' = m_mem m"
    using preempted_run [OF _ _ c, of m1 pcb lk pc status] by simp
qed

theorem resume_restores_witness:
  "(\<exists>m'. run sample_link (code sample_link L_trap_resume_proc) \<lparr>m_x = (\<lambda>_. 4096), m_csr = (\<lambda>_. 0), m_mem = (\<lambda>_. 7), m_word = (\<lambda>_. 0)\<rparr> = Some (To_user, m', hang_code) \<and>
     user_regs m' PC = 7 \<and> user_regs m' A0 = 7 \<and> m_csr m' MSCRATCH = 4096) \<and>
   (\<exists>m'. run sample_link (code sample_link L_trap_entry) (trapped (push_bit 63 1) 0 0 (after (take 1 trap_resume_proc_code)
       \<lparr>m_x = (\<lambda>_. 4096), m_csr = (\<lambda>_. 0), m_mem = (\<lambda>_. 7), m_word = (\<lambda>_. 0)\<rparr>)) = Some (Tails C_sched_yield, m', trap_syscall_code sample_link) \<and>
     m_x m' TP = 4096)"
proof -
  let ?m = "\<lparr>m_x = (\<lambda>_. 4096), m_csr = (\<lambda>_. 0), m_mem = (\<lambda>_. 7), m_word = (\<lambda>_. 0)\<rparr>"
  note th = resume_restores [of ?m 4096 sample_link "push_bit 63 1" 0 0]
  have r: "PC \<in> saved_regs" "A0 \<in> saved_regs" by (simp_all add: restore_list(3) restore_list_def)
  have "1 \<le> length trap_resume_proc_code" "bit (push_bit 63 1 :: u64) 63"
    "bit (m_csr (after (take 1 trap_resume_proc_code) ?m) MSTATUS) 3"
    by (simp_all add: trap_resume_proc_code_def bit_simps MSTATUS_IE_def)
  with th r show ?thesis by (auto simp: pcb_regs_def)
qed

section \<open>Stacks\<close>

definition STACK_SIZE :: nat where "STACK_SIZE = 2 ^ LOG_STACK_SIZE"

definition stack_area :: "link \<Rightarrow> nat set" where
  "stack_area lk = {unat (lk_stack lk) - (MAX_HARTID - MIN_HARTID + 1) * STACK_SIZE ..< unat (lk_stack lk)}"

text \<open>C31: the kernel stacks. The stack pointer that the entry code loads leaves hart \<open>h\<close> the
  \<open>STACK_SIZE\<close> bytes below \<open>stack - (MIN_HARTID + h) * STACK_SIZE\<close>: harts 1 and 2 stay inside the area that
  \<open>stack.S\<close> reserves below \<open>stack\<close>, harts 3 and 4 are below all of it.\<close>

theorem kernel_stacks:
  assumes "m_csr m MSCRATCH \<noteq> 0" "hart_ok (m_csr m MHARTID)" "8192 \<le> unat (lk_stack lk)"
    and "run lk (code lk L_trap_entry) m = Some (e, m', rest)"
  shows "unat (m_x m' SP) = unat (lk_stack lk) - (MIN_HARTID + unat (m_csr m MHARTID)) * STACK_SIZE \<and>
    (if unat (m_csr m MHARTID) \<le> 2 then {unat (m_x m' SP) - STACK_SIZE ..< unat (m_x m' SP)} \<subseteq> stack_area lk
      else {unat (m_x m' SP) - STACK_SIZE ..< unat (m_x m' SP)} \<inter> stack_area lk = {})"
proof -
  let ?h = "m_csr m MHARTID"
  have sp: "m_x m' SP = lk_stack lk - 1024 * (1 + ?h)" using entry_run [OF refl assms(1), of lk] assms(4) by auto
  have h: "1 \<le> unat ?h" "unat ?h \<le> 4" using assms(2) by (simp_all add: hart_ok_def config_defs)
  have u: "unat (1024 * (1 + ?h)) = 1024 * (1 + unat ?h)"
  proof -
    have "unat (1 + ?h) = 1 + unat ?h" using h by (subst unat_add_lem [THEN iffD1]) simp_all
    then show ?thesis using h by (subst unat_mult_lem [THEN iffD1]) simp_all
  qed
  then have "1024 * (1 + ?h) \<le> lk_stack lk" using h assms(3) by (simp add: word_le_nat_alt)
  then have s: "unat (m_x m' SP) = unat (lk_stack lk) - (MIN_HARTID + unat ?h) * STACK_SIZE"
    unfolding sp using u by (simp add: unat_sub STACK_SIZE_def LOG_STACK_SIZE_def config_defs)
  then show ?thesis
    unfolding s stack_area_def using h assms(3) by (auto simp: STACK_SIZE_def LOG_STACK_SIZE_def config_defs)
qed

text \<open>Hart 3 starts at the very bottom of the area.\<close>

theorem kernel_stacks_witness:
  "\<exists>e m' rest. run sample_link (code sample_link L_trap_entry)
      \<lparr>m_x = (\<lambda>_. 0), m_csr = (\<lambda>_. 0)(MSCRATCH := 4096, MHARTID := 3), m_mem = (\<lambda>_. 0), m_word = (\<lambda>_. 0)\<rparr> = Some (e, m', rest) \<and>
    unat (m_x m' SP) = 61440 \<and> {60416 ..< 61440} \<inter> stack_area sample_link = {}"
proof -
  let ?m = "\<lparr>m_x = (\<lambda>_. 0), m_csr = (\<lambda>_. 0)(MSCRATCH := 4096, MHARTID := 3), m_mem = (\<lambda>_. 0), m_word = (\<lambda>_. 0)\<rparr>"
  obtain e m' rest where r: "run sample_link (code sample_link L_trap_entry) ?m = Some (e, m', rest)"
    using entry_run [of ?m 4096 sample_link] by auto
  have h: "hart_ok 3" by (simp add: hart_ok_def config_defs)
  note d = STACK_SIZE_def LOG_STACK_SIZE_def config_defs sample_link_def
  note th = kernel_stacks [OF _ _ _ r]
  have s: "unat (m_x m' SP) = 61440" using th h by (simp add: d)
  have "{60416 ..< 61440} \<inter> stack_area sample_link = {}" using th h by (simp add: s d)
  with r s show ?thesis by blast
qed

end
