(* ===== verification/Preempt.thy ===== *)
theory Preempt
  imports TrapCode
begin

text \<open>
  A preemption is invisible to the process: the instructions of the trap, the steps of the
  kernel for other processes, the dispatch and the instructions of the way back together
  leave its registers as they were.
\<close>

section \<open>Steps away from a process\<close>

text \<open>Steps of the kernel other than traps of process \<open>p\<close> itself and of processes that can act on it.\<close>

inductive away :: "nat \<Rightarrow> kstate \<Rightarrow> kstate \<Rightarrow> bool" for p where
  away_enter: "hart_ok h \<Longrightarrow> \<forall>c. cur = Some c \<longrightarrow> c < N_PROC \<Longrightarrow>
    away p k (k\<lparr>ks_hartid := h, ks_current := cur\<rparr>)"
| away_start: "ks_current k = None \<Longrightarrow> sched_dispatch clock k = Inr k' \<Longrightarrow> away p k k'"
| away_resume: "ks_current k = Some c \<Longrightarrow> c \<noteq> p \<Longrightarrow> \<not> acts_on k c p \<Longrightarrow>
    trap_entry hw mcause mtval irq k = Inr (True, k') \<Longrightarrow> away p k k'"
| away_yield: "ks_current k = Some c \<Longrightarrow> c \<noteq> p \<Longrightarrow> \<not> acts_on k c p \<Longrightarrow>
    trap_entry hw mcause mtval irq k = Inr (False, k1) \<Longrightarrow> sched_yield clock k1 = Inr k' \<Longrightarrow> away p k k'"

lemma away_kstep: "away p k k' \<Longrightarrow> kstep k k'"
  by (cases rule: away.cases) (auto intro: kstep.intros)

text \<open>Dispatching changes the state of a process, never its registers.\<close>

lemma dispatch_regs:
  assumes "kinv k" "sched_dispatch clock k = Inr k'"
  shows "p_regs (ks_procs k' p) = p_regs (ks_procs k p)"
proof -
  obtain d ps where s: "sched_start clock 0 (ks_schedule k) (ks_hartid k) (ks_procs k) = Some (Inr (d, ps))"
    and k': "ks_procs k' = ps"
    using assms(2) by (auto simp: sched_dispatch_def ebind_Inr_iff run_loop_def split: option.splits)
  have v: "sched_valid (ks_schedule k)" "hart_ok (ks_hartid k)"
    using assms(1) by (simp_all add: kinv_def tables_ok_def)
  obtain now where "sched_try (ks_schedule k) (ks_hartid k) now (ks_procs k) = Inr (Some (d, ps))"
    using sched_start_result [OF s] by blast
  then have "\<exists>q. ps = (ks_procs k)(q := (ks_procs k q)\<lparr>p_state := pstate PROC_STATE_RUNNING\<rparr>)"
    using sched_try_cases [OF v, of now "ks_procs k"] by auto
  then show ?thesis by (auto simp: k')
qed

lemma yield_regs:
  assumes "kinv k" "sched_yield clock k = Inr k'"
  shows "p_regs (ks_procs k' p) = p_regs (ks_procs k p)"
proof -
  obtain c where c: "ks_current k = Some c" using assms(2) by (cases "ks_current k") (auto simp: sched_yield_def deref_current_def)
  then have "sched_dispatch clock (put_state c (proc_release (state_of k c)) k) = Inr k'"
    using assms(2) by (simp add: sched_yield_def deref_current_def)
  moreover have "kinv (put_state c (proc_release (state_of k c)) k)" using assms(1) by simp
  ultimately show ?thesis using dispatch_regs [of "put_state c (proc_release (state_of k c)) k" clock k' p]
    by (simp add: put_state_def upd_proc_def)
qed

lemma kinv_yield: "kinv k \<Longrightarrow> sched_yield clock k = Inr k' \<Longrightarrow> kinv k'"
  using sched_dispatch_kinv(1) [of "put_state c (proc_release (state_of k c)) k" clock k' for c]
  by (cases "ks_current k") (auto simp: sched_yield_def deref_current_def)

lemma away_regs:
  assumes "away p k k'" "kinv k"
  shows "p_regs (ks_procs k' p) = p_regs (ks_procs k p)"
  using assms(1)
proof (cases rule: away.cases)
  case (away_start clock)
  then show ?thesis using dispatch_regs [OF assms(2)] by blast
next
  case (away_resume c hw mcause mtval irq)
  then show ?thesis using trap_spares [OF assms(2) away_resume(1-3), of hw mcause mtval irq] by (simp add: same_proc_def)
next
  case (away_yield c hw mcause mtval irq k1 clock)
  have "kinv k1" using trap_entry_keeps [OF assms(2) away_yield(1), of hw mcause mtval irq] away_yield(4) by simp
  then show ?thesis using yield_regs [OF _ away_yield(5)] away_yield
      trap_spares [OF assms(2) away_yield(1-3), of hw mcause mtval irq] by (simp add: same_proc_def)
qed simp

lemma away_all_regs:
  assumes "(away p)\<^sup>*\<^sup>* k k'" "kinv k"
  shows "p_regs (ks_procs k' p) = p_regs (ks_procs k p) \<and> kinv k'"
  using assms
proof (induction rule: rtranclp_induct)
  case (step y z)
  then show ?case using away_regs [of p y z] kstep_keeps(1) [OF away_kstep [OF step(2)]] by simp
qed simp

section \<open>Preemption\<close>

text \<open>C12: a preempted process goes on with the registers it had. The entry code saves them at a timer
  interrupt; whatever follows, on any hart, short of traps of the process itself and of processes that can
  act on it, the exit code that returns to it loads the same values, the program counter included.\<close>

theorem preemption_transparent:
  assumes "reachable k" "ks_current k = Some p"
    and "m_csr m MSCRATCH = pcb" "pcb \<noteq> 0" "pcb_regs pcb (m_mem m) = p_regs (ks_procs k p)" "bit (m_csr m MCAUSE) 63"
    and "run lk (code lk L_trap_entry) m = Some r" "after_entry lk irq p pcb r k = Inr (resumes, k1)"
    and "sched_yield clock k1 = Inr k2" "(away p)\<^sup>*\<^sup>* k2 k3"
    and "m_x m3 TP = pcb" "pcb_regs pcb (m_mem m3) = p_regs (ks_procs k3 p)"
  shows "\<not> resumes \<and> (\<exists>m'. run lk (code lk L_trap_resume_proc) m3 = Some (To_user, m', hang_code) \<and>
    (\<forall>r \<in> saved_regs. user_regs m' r = user_regs m r))"
proof -
  have "after_entry lk irq p pcb r k = trap_entry (user_regs m) (m_csr m MCAUSE) (m_csr m MTVAL) irq k"
    using entry_implements [OF assms(2-5), of lk irq] assms(7) by auto
  then have k1: "\<not> resumes" "k1 = upd_proc p (save_context (user_regs m)) k"
    using assms(2,6,8) by (simp_all add: trap_entry_def deref_current_def)
  have inv: "kinv k1" using reachable_kinv [OF assms(1)] by (simp add: k1(2) kinv_context)
  have "p_regs (ks_procs k2 p) = p_regs (ks_procs k1 p)" by (rule yield_regs [OF inv assms(9)])
  moreover have "kinv k2" by (rule kinv_yield [OF inv assms(9)])
  ultimately have "p_regs (ks_procs k3 p) = p_regs (ks_procs k1 p)" using away_all_regs [OF assms(10)] by simp
  then have "\<forall>r \<in> saved_regs. pcb_regs pcb (m_mem m3) r = user_regs m r"
    by (simp add: assms(12) k1(2) upd_proc_def save_context_def)
  then show ?thesis using resume_run [OF assms(11), of lk] k1(1) by auto
qed


lemma root_preempted:
  "\<exists>k2. sched_yield (\<lambda>i. of_nat (i * 781)) (upd_proc 0 (save_context hw) (root_running 0 1)) = Inr k2"
proof -
  let ?k = "upd_proc 0 (save_context hw) (root_running 0 1)"
  let ?k' = "put_state 0 (proc_release (state_of ?k 0)) ?k"
  have "p_state (ks_procs ?k' 0) = pstate PROC_STATE_READY" "p_regs (ks_procs ?k' 0) TIMEOUT = 0"
    by (simp_all add: put_state_def upd_proc_def state_of_def save_context_def boot_procs_def boot_proc_def
      proc_release_def fetch_and_and_def saved_regs_def reg_order_def)
  then have "runnable boot_schedule 1 (of_nat (2 * 781)) (ks_procs ?k') 0 125"
    using boot_runnable by (simp add: runnable_def boot_proc_def)
  then obtain r where "sched_start (\<lambda>i. of_nat (i * 781)) 0 boot_schedule 1 (ks_procs ?k') = Some (Inr r)"
    using sched_start_live [OF boot_schedule_valid hart_ok_1, of "\<lambda>i. of_nat (i * 781)" 2 "ks_procs ?k'" 0 125] by blast
  moreover have "ks_schedule ?k' = boot_schedule" "ks_hartid ?k' = 1" "ks_current ?k = Some 0"
    by (simp_all add: put_state_def upd_proc_def)
  ultimately show ?thesis
    by (cases r) (simp add: sched_yield_def deref_current_def sched_dispatch_def run_loop_def del: of_nat_mult)
qed

lemma timer_saves:
  assumes "m_csr m MSCRATCH = pcb" "pcb \<noteq> 0" "bit (m_csr m MCAUSE) 63"
  shows "\<exists>e m' rest. run lk (code lk L_trap_entry) m = Some (e, m', rest) \<and>
    pcb_regs pcb (m_mem m') = (\<lambda>r. if r \<in> saved_regs then user_regs m r else pcb_regs pcb (m_mem m) r)"
  using entry_run [OF assms(1,2), of lk] assms(3) by auto

theorem preemption_transparent_witness:
  "\<exists>k2 m3 m'. sched_yield (\<lambda>i. of_nat (i * 781)) (upd_proc 0 (save_context ((\<lambda>_. 3)(PC := 9))) (root_running 0 1)) = Inr k2 \<and>
    run sample_link (code sample_link L_trap_resume_proc) m3 = Some (To_user, m', hang_code) \<and>
    m_x m3 S11 = 4096 \<and> m_x m' S11 = 3 \<and> m_csr m' MEPC = 9"
proof -
  let ?m = "\<lparr>m_x = (\<lambda>_. 3), m_csr = (\<lambda>_. 9)(MSCRATCH := 4096, MCAUSE := push_bit 63 1), m_mem = (\<lambda>_. 0), m_word = (\<lambda>_. 0)\<rparr>"
  have p: "pcb_regs 4096 (m_mem ?m) = p_regs (ks_procs (root_running 0 1) 0)"
    by (simp add: pcb_regs_def boot_procs_def boot_proc_def fun_eq_iff)
  have b: "bit (push_bit 63 1 :: u64) 63" by (simp add: bit_simps)
  let ?k = "root_running 0 1" and ?k1 = "upd_proc 0 (save_context (user_regs ?m)) (root_running 0 1)"
  obtain r where r: "run sample_link (code sample_link L_trap_entry) ?m = Some r"
    "after_entry sample_link (\<lambda>_. False) 0 4096 r ?k = trap_entry (user_regs ?m) (m_csr ?m MCAUSE) (m_csr ?m MTVAL) (\<lambda>_. False) ?k"
    using entry_implements [OF _ _ _ p, where lk = sample_link and irq = "\<lambda>_. False"] by auto
  have sc: "m_csr ?m MSCRATCH = 4096" "(4096 :: u64) \<noteq> 0" by simp_all
  obtain m1 :: machine where "pcb_regs 4096 (m_mem m1) = (\<lambda>r. if r \<in> saved_regs then user_regs ?m r else pcb_regs 4096 (m_mem ?m) r)"
    using timer_saves [OF sc, of sample_link] b by auto
  then have m1: "pcb_regs 4096 (m_mem m1) = (\<lambda>r. if r \<in> saved_regs then user_regs ?m r else 0)"
    by (simp add: pcb_regs_def fun_eq_iff)
  have e: "after_entry sample_link (\<lambda>_. False) 0 4096 r ?k = Inr (False, ?k1)"
    using b by (simp add: r(2) trap_entry_def deref_current_def)
  obtain k2 where k2: "sched_yield (\<lambda>i. of_nat (i * 781)) (upd_proc 0 (save_context (user_regs ?m)) (root_running 0 1)) = Inr k2"
    using root_preempted by blast
  let ?m3 = "\<lparr>m_x = (\<lambda>_. 4096), m_csr = (\<lambda>_. 0), m_mem = m_mem m1, m_word = (\<lambda>_. 0)\<rparr>"
  have "kinv ?k1" by (simp add: kinv_context root_kinv)
  then have "p_regs (ks_procs k2 0) = p_regs (ks_procs ?k1 0)" by (rule yield_regs [OF _ k2])
  then have "pcb_regs 4096 (m_mem ?m3) = p_regs (ks_procs k2 0)"
    by (simp add: m1 upd_proc_def save_context_def boot_procs_def boot_proc_def fun_eq_iff)
  then obtain m' where m': "run sample_link (code sample_link L_trap_resume_proc) ?m3 = Some (To_user, m', hang_code)"
    "\<forall>r \<in> saved_regs. user_regs m' r = user_regs ?m r"
    using preemption_transparent [OF root_reachable _ _ _ p _ r(1) e k2 rtranclp.rtrancl_refl, of ?m3] b by auto
  have "S11 \<in> saved_regs" "PC \<in> saved_regs" by (simp_all add: saved_regs_def reg_order_def)
  then have "m_x m' S11 = 3" "m_csr m' MEPC = 9" using m'(2) [THEN bspec, of S11] m'(2) [THEN bspec, of PC] by (simp_all add: user_regs_def)
  moreover have "user_regs ?m = (\<lambda>_. 3)(PC := 9)" by (simp add: user_regs_def)
  ultimately show ?thesis using k2 m'(1) by (intro exI [of _ k2] exI [of _ ?m3] exI [of _ m']) simp
qed

end
