(* ===== verification/Timer.thy ===== *)
theory Timer
  imports Locality
begin

text \<open>
  The timers of the harts. A dispatch arms the timer of its hart with the end of the slice, read
  from the schedule at the first clock reading at which a process can run
  (\<open>dispatch_runs\<close>), and no trap writes a timer afterwards (\<open>trap_timers\<close>).
\<close>

section \<open>Traps\<close>

definition timers_kept :: "kstate \<Rightarrow> stop + 'a \<times> kstate \<Rightarrow> bool" where
  "timers_kept k r \<longleftrightarrow> (case r of Inl e \<Rightarrow> True | Inr (x, k') \<Rightarrow> ks_mtimecmp k' = ks_mtimecmp k)"

lemma timers_simps [simp]:
  "timers_kept k (Inl e)" "timers_kept k (Inr (x, k')) \<longleftrightarrow> ks_mtimecmp k' = ks_mtimecmp k"
  by (simp_all add: timers_kept_def)

lemma shift_timers: "timers_kept k1 r \<Longrightarrow> ks_mtimecmp k1 = ks_mtimecmp k \<Longrightarrow> timers_kept k r"
  by (auto simp: timers_kept_def split: sum.splits)

lemma timers_bind:
  assumes "timers_kept k m" "\<And>x k1. ks_mtimecmp k1 = ks_mtimecmp k \<Longrightarrow> timers_kept k1 (f (x, k1))"
  shows "timers_kept k (ebind m f)"
proof (cases m)
  case (Inr y)
  moreover obtain x k1 where "y = (x, k1)" by (cases y)
  ultimately show ?thesis using assms shift_timers [of k1 "f (x, k1)" k] by simp
qed simp

lemma timers_pure: "(\<And>x. timers_kept k (f x)) \<Longrightarrow> timers_kept k (ebind m f)"
  by (cases m) simp_all

lemma timers_state:
  assumes "\<And>k'. m = Inr k' \<Longrightarrow> ks_mtimecmp k' = ks_mtimecmp k"
    "\<And>k1. ks_mtimecmp k1 = ks_mtimecmp k \<Longrightarrow> timers_kept k1 (f k1)"
  shows "timers_kept k (ebind m f)"
  using assms shift_timers by (cases m) auto

lemma timers_frame [simp]:
  "ks_mtimecmp (put_reg i r v k) = ks_mtimecmp k" "ks_mtimecmp (put_state i w k) = ks_mtimecmp k"
  "ks_mtimecmp (upd_proc i f k) = ks_mtimecmp k"
  "ks_mtimecmp (set_receiver ch i' p k) = ks_mtimecmp k"
  "ks_mtimecmp (preemption_enable k) = ks_mtimecmp k" "ks_mtimecmp (preemption_disable k) = ks_mtimecmp k"
  "ks_mtimecmp (snd (with_state i g k)) = ks_mtimecmp k"
  by (simp_all add: put_reg_def put_state_def upd_proc_def set_receiver_def preemption_enable_def
      preemption_disable_def with_state_def split: prod.splits)

lemma hook_timers: "cap_update_hook p n cap k = Inr k' \<Longrightarrow> ks_mtimecmp k' = ks_mtimecmp k"
  using update_hook_frame by blast

lemma update_timers:
  "timers_kept k (ebind m (\<lambda>x. ebind (cap_update_hook p n y (k\<lparr>ks_nodes := h x\<rparr>)) (\<lambda>k. Inr (v, k))))"
proof (rule timers_pure, rule timers_state)
  show "cap_update_hook p n y (k\<lparr>ks_nodes := h x\<rparr>) = Inr k' \<Longrightarrow> ks_mtimecmp k' = ks_mtimecmp k" for x k'
    using hook_timers [of p n y "k\<lparr>ks_nodes := h x\<rparr>" k'] by simp
qed simp

lemma node_timers: "timers_kept k (node_insert cap n p k)" "timers_kept k (node_move cap s d k)"
  "timers_kept k (node_delete n k)"
  unfolding node_insert_def node_move_def node_delete_def by (intro timers_pure; simp split: prod.split)+

lemma with_timers: "with_state i g k = (ok, k') \<Longrightarrow> ks_mtimecmp k' = ks_mtimecmp k"
  using timers_frame(7) [of i g k] by simp

lemma if_timers: "(b \<Longrightarrow> timers_kept k r) \<Longrightarrow> (\<not> b \<Longrightarrow> timers_kept k r') \<Longrightarrow> timers_kept k (if b then r else r')"
  by simp

lemma move_timers: "timers_kept k (interprocess_move s i d j k)"
  unfolding interprocess_move_def Let_def
  by (intro timers_pure if_timers timers_state [OF hook_timers] timers_bind [OF node_timers(2)] timers_simps(2) [THEN iffD2])
    simp_all

lemma with_supervisee_timers:
  assumes "\<And>k. timers_kept k (body k)"
  shows "timers_kept k (with_supervisee i body k)"
proof -
  obtain ok k1 where k1: "with_state i proc_supervisor_acquire k = (ok, k1)" by (cases "with_state i proc_supervisor_acquire k")
  have "timers_kept k1 (ebind (body k1) (\<lambda>(code, k). ebind (proc_supervisor_release (state_of k i)) (\<lambda>w.
      Inr (Return code, put_state i w k))))"
    by (intro timers_bind [OF assms]) (simp add: timers_pure)
  from shift_timers [OF this with_timers [OF k1]] show ?thesis
    by (simp add: with_supervisee_def k1 with_timers [OF k1])
qed

lemma supervisor_timers: "timers_kept k (syscall_invoke_supervisor c cap pid op a0 a1 k)"
  unfolding syscall_invoke_supervisor_def Let_def
  by (intro timers_pure if_timers with_supervisee_timers move_timers)
    (auto simp: with_timers split: prod.split)

lemma deliver_timers: "deliver c r m0 m1 m2 m3 src k = Inr k' \<Longrightarrow> ks_mtimecmp k' = ks_mtimecmp k"
  using move_timers [of k c src r "p_regs (ks_procs k r) DEST_CIDX"]
  by (auto simp: deliver_def Let_def ebind_Inr_iff split: if_splits)

lemma send_timers: "timers_kept k (syscall_invoke_sender c cap m0 m1 m2 m3 src k)"
proof -
  have "timers_kept k (case with_state r g k of (ok, k) \<Rightarrow> if \<not> ok then Inr (v, k)
      else ebind (deliver c r m0 m1 m2 m3 src k) (\<lambda>k. Inr (v', put_state r (f k) k)))" for r g v v' f
  proof (cases "with_state r g k")
    case (Pair ok k1)
    show ?thesis unfolding Pair prod.case
      by (rule shift_timers [OF _ with_timers [OF Pair]])
        (intro if_timers timers_state [OF deliver_timers]; simp)
  qed
  then show ?thesis unfolding syscall_invoke_sender_def Let_def
    by (intro timers_pure) (auto split: option.split)
qed

lemma wait_timers: "timers_kept k (wait_and_yield c ch k)"
  by (simp add: wait_and_yield_def)

lemma reply_timers: "(case r of None \<Rightarrow> Inr k | Some r \<Rightarrow> (case with_state r (g r) k of (ok, k) \<Rightarrow> if \<not> ok then Inr k
      else ebind (deliver c r m0 m1 m2 m3 src k) (\<lambda>k. Inr (put_state r (w r k) k)))) = Inr k' \<Longrightarrow>
    ks_mtimecmp k' = ks_mtimecmp k"
  by (auto simp: ebind_Inr_iff dest!: with_timers deliver_timers split: option.splits prod.splits if_splits)

lemma server_timers: "timers_kept k (syscall_invoke_server c cap m0 m1 m2 m3 src f k)"
  unfolding syscall_invoke_server_def Let_def
  by (rule timers_pure, rule timers_pure, rule timers_state [OF reply_timers wait_timers])

lemma client_timers: "timers_kept k (syscall_invoke_client c cap m0 m1 m2 m3 src k)"
proof -
  have "timers_kept k (case with_state r g k of (ok, k) \<Rightarrow> if \<not> ok then Inr (v, k)
      else ebind (deliver c r m0 m1 m2 m3 src k) (\<lambda>k. Inr (Yield, put_state r (f k)
        (put_reg c A0 e (snd (with_state c g' (set_receiver ch 1 (p k) k)))))))" for r g g' v f e p ch
  proof (cases "with_state r g k")
    case (Pair ok k1)
    show ?thesis unfolding Pair prod.case
      by (rule shift_timers [OF _ with_timers [OF Pair]])
        (intro if_timers timers_state [OF deliver_timers]; simp)
  qed
  then show ?thesis unfolding syscall_invoke_client_def Let_def
    by (intro timers_pure) (auto split: option.split)
qed

lemma invoke_timers: "timers_kept k (syscall_invoke_cap i a1 a2 a3 a4 a5 a6 a7 k)"
  unfolding syscall_invoke_cap_def Let_def
  by (intro timers_pure if_timers supervisor_timers send_timers server_timers client_timers)
    (simp_all add: syscall_invoke_receiver_def timers_pure wait_timers)

lemma revoke_loop_timers:
  assumes "revoke_loop irq i c node cap k = Some (Inr (p, k'))"
  shows "ks_mtimecmp k' = ks_mtimecmp k"
proof -
  have "\<forall>p k'. y = Inr (p, k') \<longrightarrow> ks_mtimecmp k' = ks_mtimecmp k" if "revoke_loop irq i c node cap k = Some y" for y
    using that
  proof (rule revoke_loop.raw_induct [where P = "\<lambda>irq i c node cap k y. \<forall>p k'. y = Inr (p, k') \<longrightarrow> ks_mtimecmp k' = ks_mtimecmp k", rotated])
    fix f irq i c node cap k y
    assume ih: "\<And>irq i c node cap k y. f irq i c node cap k = Some y \<Longrightarrow>
        \<forall>p k'. y = Inr (p, k') \<longrightarrow> ks_mtimecmp k' = ks_mtimecmp k"
      and y: "(if irq i then Some (Inr (True, preemption_disable k))
      else if cap_node_is_deleted (ks_nodes k) node then Some (Inr (False, k))
      else (case cn_next (ks_nodes k node) of
        None \<Rightarrow> Some (Inl Null_deref)
      | Some next_node \<Rightarrow>
          (let next_cap = cn_cap (ks_nodes k next_node)
           in if \<not> cap_is_child cap next_cap then Some (Inr (False, k))
              else (case cap_node_delete2 next_node node (ks_nodes k) of
                Inl e \<Rightarrow> Some (Inl e)
              | Inr (ok, h) \<Rightarrow>
                  (case (let k1 = (preemption_disable k)\<lparr>ks_nodes := h\<rparr>
                         in if ok then cap_update_hook (Some c) node next_cap k1 else Inr k1) of
                     Inl e \<Rightarrow> Some (Inl e)
                   | Inr k2 \<Rightarrow> f irq (Suc i) c node cap (preemption_enable k2)))))) = Some y"
    show "\<forall>p k'. y = Inr (p, k') \<longrightarrow> ks_mtimecmp k' = ks_mtimecmp k"
      using y by (auto simp: Let_def dest!: ih hook_timers split: if_splits option.splits sum.splits prod.splits)
  qed
  with assms show ?thesis by blast
qed

lemma revoke_timers: "timers_kept k (syscall_revoke_cap irq sc k)"
proof (rule shift_timers)
  let ?k = "\<lambda>c. preemption_enable (put_reg c A0 (err ERROR_PREEMPTED) k)"
  have "run_loop (revoke_loop irq 1 c n x k1) = Inr (p, k2) \<Longrightarrow> ks_mtimecmp k2 = ks_mtimecmp k1" for c n x k1 p k2
    by (auto simp: run_loop_def dest: revoke_loop_timers split: option.splits)
  then have l: "timers_kept k1 (run_loop (revoke_loop irq 1 c n x k1))" for c n x k1
    by (cases "run_loop (revoke_loop irq 1 c n x k1)") (auto simp: timers_kept_def)
  have "timers_kept (?k c) (if irq 0 then Inr (Yield, preemption_disable (?k c)) else if b then Inr (v, ?k c)
      else ebind (run_loop (revoke_loop irq 1 c n x (?k c))) (\<lambda>(preempted, k). if preempted then Inr (Yield, k)
        else ebind (revoke_update_cap x) (\<lambda>x'. ebind (cap_update_hook (Some c) n x
          ((preemption_disable k)\<lparr>ks_nodes := set_cap (ks_nodes (preemption_disable k)) n x'\<rparr>)) (\<lambda>k. Inr (v', k)))))"
    for c b v n x v'
    by (intro if_timers timers_bind [OF l]) (simp_all add: shift_timers [OF update_timers])
  then have "timers_kept k (if irq 0 then Inr (Yield, preemption_disable (?k c)) else if b then Inr (v, ?k c)
      else ebind (run_loop (revoke_loop irq 1 c n x (?k c))) (\<lambda>(preempted, k). if preempted then Inr (Yield, k)
        else ebind (revoke_update_cap x) (\<lambda>x'. ebind (cap_update_hook (Some c) n x
          ((preemption_disable k)\<lparr>ks_nodes := set_cap (ks_nodes (preemption_disable k)) n x'\<rparr>)) (\<lambda>k. Inr (v', k)))))"
    for c b v n x v'
    by (rule shift_timers) simp
  then show "timers_kept k (syscall_revoke_cap irq sc k)"
    unfolding syscall_revoke_cap_def Let_def by (intro timers_pure)
qed simp

lemma derive_timers: "timers_kept k (syscall_derive_cap irq i j w0 w1 k)"
proof -
  have "timers_kept k1 (ebind (derive_update_cap x y) (\<lambda>x'. ebind (cap_update_hook p n y (k1\<lparr>ks_nodes := h x'\<rparr>)) (\<lambda>k.
      ebind (node_insert y d n k) (\<lambda>(ok, k). Inr (f ok, k)))))" for k1 x y p n h d f
  proof (rule timers_pure, rule timers_state)
    show "cap_update_hook p n y (k1\<lparr>ks_nodes := h x'\<rparr>) = Inr k' \<Longrightarrow> ks_mtimecmp k' = ks_mtimecmp k1" for x' k'
      using hook_timers [of p n y "k1\<lparr>ks_nodes := h x'\<rparr>" k'] by simp
  qed (rule timers_bind [OF node_timers(1)], simp)
  note step = shift_timers [OF this]
  show ?thesis unfolding syscall_derive_cap_def Let_def
    by (rule timers_pure, rule timers_pure, rule timers_pure) (intro if_timers; simp add: step)
qed

lemma delete_timers: "timers_kept k (syscall_delete_cap i k)"
  unfolding syscall_delete_cap_def Let_def
  by (intro timers_pure if_timers timers_state [OF hook_timers] timers_bind [OF node_timers(3)] timers_simps(2) [THEN iffD2])
    (auto intro: timers_state [OF hook_timers])

lemma vector_timers: "timers_kept k (syscall_vector irq n r k)"
  unfolding syscall_vector_def if_distrib [where f = "\<lambda>f. f k"]
  by (intro if_timers invoke_timers revoke_timers derive_timers delete_timers)
    (auto simp: syscall_read_cap_def syscall_move_cap_def syscall_get_pid_def syscall_read_reg_def syscall_write_reg_def
      syscall_yield_def syscall_unimplemented_def Let_def intro!: timers_pure timers_bind [OF node_timers(2)])

lemma trap_timers: "timers_kept k (trap_entry hw mcause mtval irq k)"
proof -
  have "timers_kept k1 (ebind (if b then syscall_unimplemented k1 else syscall_vector irq n r k1)
      (\<lambda>(out, k). case out of Return v \<Rightarrow> Inr (True, put_reg c A0 v k) | Yield \<Rightarrow> Inr (False, k)))" for k1 b n r c
    by (rule timers_bind) (simp_all add: vector_timers syscall_unimplemented_def split: outcome.split)
  from shift_timers [OF this] show ?thesis
    unfolding trap_entry_def trap_syscall_def Let_def deref_current_def
    by (cases "ks_current k") simp_all
qed

section \<open>Dispatching\<close>

text \<open>The clock reading at which the loop of \<open>sched_start\<close> stops.\<close>

definition dispatches_at :: "(nat \<Rightarrow> u64) \<Rightarrow> kstate \<Rightarrow> nat \<Rightarrow> bool" where
  "dispatches_at clock k n \<longleftrightarrow>
     (\<forall>m < n. sched_try (ks_schedule k) (ks_hartid k) (clock m) (ks_procs k) = Inr None) \<and>
     sched_try (ks_schedule k) (ks_hartid k) (clock n) (ks_procs k) \<noteq> Inr None"

lemma dispatch_runs:
  assumes "kinv k" "dispatches_at clock k n"
  obtains p l where "who_runs (ks_schedule k) (unat (ks_hartid k)) (unat (sched_time (clock n))) = Some (p, l)"
    "sched_dispatch clock k = Inr (k\<lparr>ks_procs := (ks_procs k)(p := (ks_procs k p)\<lparr>p_state := pstate PROC_STATE_RUNNING\<rparr>),
       ks_current := Some p,
       ks_mtimecmp := (ks_mtimecmp k)(unat (ks_hartid k) := slice_end (sched_time (clock n)) l)\<rparr>)"
proof -
  have v: "sched_valid (ks_schedule k)" "hart_ok (ks_hartid k)"
    using assms(1) by (simp_all add: kinv_def tables_ok_def)
  obtain p l where r: "runnable (ks_schedule k) (ks_hartid k) (clock n) (ks_procs k) p l"
    and t: "sched_try (ks_schedule k) (ks_hartid k) (clock n) (ks_procs k) =
      Inr (Some (\<lparr>d_proc = p, d_start = max (sched_time (clock n) * TICKS) (p_regs (ks_procs k p) TIMEOUT),
        d_end = slice_end (sched_time (clock n)) l\<rparr>, (ks_procs k)(p := (ks_procs k p)\<lparr>p_state := pstate PROC_STATE_RUNNING\<rparr>)))"
    using sched_try_cases [OF v, of "clock n" "ks_procs k"] assms(2) by (auto simp: dispatches_at_def)
  have "sched_start clock 0 (ks_schedule k) (ks_hartid k) (ks_procs k) =
    Some (Inr (\<lparr>d_proc = p, d_start = max (sched_time (clock n) * TICKS) (p_regs (ks_procs k p) TIMEOUT),
        d_end = slice_end (sched_time (clock n)) l\<rparr>, (ks_procs k)(p := (ks_procs k p)\<lparr>p_state := pstate PROC_STATE_RUNNING\<rparr>)))"
    by (rule sched_start_first [where n = n]) (use assms(2) t in \<open>auto simp: dispatches_at_def\<close>)
  then show ?thesis
    using that r by (simp add: sched_dispatch_def run_loop_def runnable_def)
qed

end
