(* ===== verification/Start.thy ===== *)
theory Start
  imports Trap Riscv
begin

text \<open>
  The start-up code \<open>init.S\<close>, which all harts run at the same time: the instructions of each hart are
  interleaved with those of the others. One hart clears the \<open>.bss\<close> section and initialises the kernel, the
  others wait for a software interrupt from it.
\<close>

section \<open>The code\<close>

datatype init_label = L_zero | L_zero_test | L_wake | L_wait | L_init_hang

datatype init_function = C_proc_init | C_sched_init | C_print_info | C_sched_start

type_synonym init_instr = "(init_label, init_function) instr"

record init_link = link +
  lk_hang :: u64
  lk_bss :: u64
  lk_ebss :: u64
  lk_root_payload :: u64
  lk_trap_entry :: u64
  lk_trap_resume_proc :: u64

definition CLINT :: u64 where "CLINT = 0x2000000"

text \<open>From each label to the end of the file, the last one first. \<open>x0\<close> as a source is the constant 0.\<close>

definition init_hang_code :: "init_instr list" where
  "init_hang_code = [Wfi, J L_init_hang]"

definition wait_code :: "init_link \<Rightarrow> init_instr list" where
  "wait_code lk =
     [Csrwi MIE (push_bit 3 1), Wfi, Csrr T0 MIP, Andi T0 T0 (push_bit 3 1), Beqz T0 L_wait,
      Li T0 CLINT, Csrr T1 MHARTID, Slli T1 T1 2, Add T0 T0 T1, Sw_zero 0 T0,
      Li T0 128, Csrw MIE T0,
      Li T0 (lk_trap_entry lk), Csrw MTVEC T0,
      Li RA (lk_trap_resume_proc lk), Tail C_sched_start] @ init_hang_code"

definition wake_loop_code :: "init_link \<Rightarrow> init_instr list" where
  "wake_loop_code lk = [Sw T2 0 T0, Addi T0 T0 4, Bgeu T1 T0 L_wake] @ wait_code lk"

definition wake_code :: "init_link \<Rightarrow> init_instr list" where
  "wake_code lk =
     [Li T2 1, Li T0 (of_nat MIN_HARTID * 4 + CLINT), Li T1 (of_nat MAX_HARTID * 4 + CLINT)] @ wake_loop_code lk"

definition zero_test_code :: "init_link \<Rightarrow> init_instr list" where
  "zero_test_code lk =
     [Bne T0 T1 L_zero, Li A0 (lk_root_payload lk), Call C_proc_init, Call C_sched_init, Call C_print_info] @
     wake_code lk"

definition zero_code :: "init_link \<Rightarrow> init_instr list" where
  "zero_code lk = [Sw_zero 0 T0, Addi T0 T0 4] @ zero_test_code lk"

definition initialize_kernel_code :: "init_link \<Rightarrow> init_instr list" where
  "initialize_kernel_code lk = [Li T0 (lk_bss lk), Li T1 (lk_ebss lk), J L_zero_test] @ zero_code lk"

definition start_code :: "init_link \<Rightarrow> init_instr list" where
  "start_code lk =
     load_gp_code lk @ load_sp_code lk @
     [Csrwi MSCRATCH 0, Csrwi MSTATUS 0, Li T0 (lk_hang lk), Csrw MTVEC T0,
      Csrwi PMPCFG0 0x0f, Li T0 0xfffffffffff, Csrw PMPADDR0 T0,
      Csrr T0 MHARTID, Li T1 (of_nat MIN_HARTID), Bne T0 T1 L_wait] @ initialize_kernel_code lk"

fun init_code :: "init_link \<Rightarrow> init_label \<Rightarrow> init_instr list" where
  "init_code lk L_zero = zero_code lk"
| "init_code lk L_zero_test = zero_test_code lk"
| "init_code lk L_wake = wake_loop_code lk"
| "init_code lk L_wait = wait_code lk"
| "init_code lk L_init_hang = init_hang_code"

section \<open>Harts side by side\<close>

record hart =
  h_code :: "init_instr list"
  h_x :: "reg \<Rightarrow> u64"
  h_csr :: "csr \<Rightarrow> u64"

text \<open>The 32-bit words of memory are shared. \<open>st_calls\<close> are the C functions that were called.\<close>

record start_state =
  st_hart :: "u64 \<Rightarrow> hart"
  st_word :: "u64 \<Rightarrow> u32"
  st_calls :: "init_function list"

definition msip :: "u64 \<Rightarrow> u64" where "msip h = CLINT + 4 * h"

text \<open>The machine that hart \<open>h\<close> sees; the software interrupt is pending while its word in the CLINT is odd.\<close>

definition hart_view :: "start_state \<Rightarrow> u64 \<Rightarrow> machine" where
  "hart_view s h = \<lparr>m_x = h_x (st_hart s h),
     m_csr = (h_csr (st_hart s h))(MIP := if bit (st_word s (msip h)) 0 then 8 else 0),
     m_mem = (\<lambda>_. 0), m_word = st_word s\<rparr>"

definition hart_done :: "start_state \<Rightarrow> u64 \<Rightarrow> init_instr list \<Rightarrow> machine \<Rightarrow> start_state" where
  "hart_done s h is m = s\<lparr>st_hart := (st_hart s)(h := \<lparr>h_code = is, h_x = m_x m, h_csr = m_csr m\<rparr>), st_word := m_word m\<rparr>"

text \<open>One instruction of one hart. A C function leaves the stack pointer and the software interrupts alone.\<close>

inductive boot_step :: "init_link \<Rightarrow> start_state \<Rightarrow> start_state \<Rightarrow> bool" for lk where
  next_instr: "unat h < 5 \<Longrightarrow> h_code (st_hart s h) = i # is \<Longrightarrow> exec i (hart_view s h) = (Next, m) \<Longrightarrow>
    boot_step lk s (hart_done s h is m)"
| jump: "unat h < 5 \<Longrightarrow> h_code (st_hart s h) = i # is \<Longrightarrow> exec i (hart_view s h) = (Branch l, m) \<Longrightarrow>
    boot_step lk s (hart_done s h (init_code lk l) m)"
| c_call: "unat h < 5 \<Longrightarrow> h_code (st_hart s h) = i # is \<Longrightarrow> exec i (hart_view s h) = (Leave (Calls f), m) \<Longrightarrow>
    m_x m' SP = m_x m SP \<Longrightarrow> m_csr m' = m_csr m \<Longrightarrow> \<forall>g. unat g < 5 \<longrightarrow> m_word m' (msip g) = m_word m (msip g) \<Longrightarrow>
    boot_step lk s ((hart_done s h is m')\<lparr>st_calls := st_calls s @ [f]\<rparr>)"

definition reset :: "init_link \<Rightarrow> start_state \<Rightarrow> bool" where
  "reset lk s \<longleftrightarrow> st_calls s = [] \<and> (\<forall>h. unat h < 5 \<longrightarrow> h_code (st_hart s h) = start_code lk \<and>
     h_csr (st_hart s h) MHARTID = h \<and> st_word s (msip h) = 0)"

section \<open>What holds at each instruction\<close>

text \<open>The code of a hart is a part of \<open>start_code\<close> from some instruction on; the labels are these instructions.\<close>

fun label_pos :: "init_label \<Rightarrow> nat" where
  "label_pos L_zero = 18" | "label_pos L_zero_test = 20" | "label_pos L_wake = 28"
| "label_pos L_wait = 31" | "label_pos L_init_hang = 47"

lemmas start_code_defs = start_code_def load_gp_code_def load_sp_code_def initialize_kernel_code_def zero_code_def
  zero_test_code_def wake_code_def wake_loop_code_def wait_code_def init_hang_code_def

lemma start_code_length: "length (start_code lk) = 49"
  by (simp add: start_code_defs)

lemma init_code_drop: "init_code lk l = drop (label_pos l) (start_code lk)"
  by (cases l) (simp_all add: start_code_defs)

definition all_calls :: "init_function list" where "all_calls = [C_proc_init, C_sched_init, C_print_info]"

text \<open>The calls made when the initialising hart is at instruction \<open>n\<close>.\<close>

definition calls_at :: "nat \<Rightarrow> init_function list" where "calls_at n = take (n - 22) all_calls"

text \<open>How far the \<open>.bss\<close> section, of \<open>K\<close> words, is cleared.\<close>

definition bss_at :: "init_link \<Rightarrow> nat \<Rightarrow> nat \<Rightarrow> machine \<Rightarrow> bool" where
  "bss_at lk K n m \<longleftrightarrow>
     (16 \<le> n \<and> n \<le> 17 \<longrightarrow> m_x m T0 = lk_bss lk) \<and> (17 \<le> n \<and> n \<le> 20 \<longrightarrow> m_x m T1 = lk_ebss lk) \<and>
     (18 \<le> n \<and> n \<le> 20 \<longrightarrow> (\<exists>k \<le> K. m_x m T0 = lk_bss lk + 4 * of_nat k \<and> (n < 20 \<longrightarrow> k < K) \<and>
       (\<forall>j < (if n = 19 then Suc k else k). m_word m (lk_bss lk + 4 * of_nat j) = 0))) \<and>
     (21 \<le> n \<and> n \<le> 22 \<longrightarrow> (\<forall>j < K. m_word m (lk_bss lk + 4 * of_nat j) = 0))"

definition hart_regs :: "init_link \<Rightarrow> u64 \<Rightarrow> nat \<Rightarrow> machine \<Rightarrow> bool" where
  "hart_regs lk h n m \<longleftrightarrow> m_csr m MHARTID = h \<and>
     (2 \<le> n \<and> n \<le> 4 \<longrightarrow> m_x m SP = lk_stack lk - 1024) \<and> (n = 3 \<longrightarrow> m_x m T1 = h) \<and> (n = 4 \<longrightarrow> m_x m T1 = 1024 * h) \<and>
     (5 \<le> n \<longrightarrow> m_x m SP = lk_stack lk - 1024 * (1 + h)) \<and>
     (6 \<le> n \<longrightarrow> m_csr m MSCRATCH = 0) \<and> (7 \<le> n \<longrightarrow> m_csr m MSTATUS = 0) \<and>
     (n = 8 \<longrightarrow> m_x m T0 = lk_hang lk) \<and> (9 \<le> n \<and> n \<le> 44 \<longrightarrow> m_csr m MTVEC = lk_hang lk) \<and>
     (13 \<le> n \<and> n \<le> 14 \<longrightarrow> m_x m T0 = h) \<and> (n = 14 \<longrightarrow> m_x m T1 = 1) \<and> (15 \<le> n \<and> n \<le> 30 \<longrightarrow> h = 1) \<and>
     (26 \<le> n \<and> n \<le> 30 \<longrightarrow> m_x m T2 = 1) \<and> (27 \<le> n \<and> n \<le> 29 \<longrightarrow> m_x m T0 \<in> {msip 1, msip 2, msip 3, msip 4}) \<and>
     (n = 30 \<longrightarrow> m_x m T0 \<in> {msip 2, msip 3, msip 4, msip 5}) \<and>
     (28 \<le> n \<and> n \<le> 30 \<longrightarrow> m_x m T1 = msip 4) \<and>
     (n = 42 \<longrightarrow> m_x m T0 = 128) \<and> (43 \<le> n \<longrightarrow> m_csr m MIE = 128) \<and>
     (n = 44 \<longrightarrow> m_x m T0 = lk_trap_entry lk) \<and> (45 \<le> n \<longrightarrow> m_csr m MTVEC = lk_trap_entry lk) \<and>
     (n = 46 \<longrightarrow> m_x m RA = lk_trap_resume_proc lk)"

text \<open>A hart that has seen its software interrupt.\<close>

definition past_wait :: "nat \<Rightarrow> machine \<Rightarrow> bool" where
  "past_wait n m \<longleftrightarrow> n = 34 \<and> bit (m_x m T0) 3 \<or> n = 35 \<and> m_x m T0 \<noteq> 0 \<or> 36 \<le> n"

definition hart_inv :: "init_link \<Rightarrow> nat \<Rightarrow> u64 \<Rightarrow> nat \<Rightarrow> machine \<Rightarrow> init_function list \<Rightarrow> bool" where
  "hart_inv lk K h n m calls \<longleftrightarrow> n \<le> 46 \<and> hart_regs lk h n m \<and>
     (past_wait n m \<longrightarrow> calls = all_calls \<and> hart_ok h) \<and> (h = 1 \<longrightarrow> calls = calls_at n \<and> bss_at lk K n m)"

definition signals :: "(u64 \<Rightarrow> u32) \<Rightarrow> init_function list \<Rightarrow> bool" where
  "signals w calls \<longleftrightarrow> (\<forall>g. unat g < 5 \<and> w (msip g) \<noteq> 0 \<longrightarrow> calls = all_calls \<and> hart_ok g)"

definition start_inv :: "init_link \<Rightarrow> nat \<Rightarrow> start_state \<Rightarrow> bool" where
  "start_inv lk K s \<longleftrightarrow> signals (st_word s) (st_calls s) \<and>
     (\<forall>h. unat h < 5 \<longrightarrow> (\<exists>n. h_code (st_hart s h) = drop n (start_code lk) \<and> hart_inv lk K h n (hart_view s h) (st_calls s)))"

lemma upto_46: "n \<le> 46 \<Longrightarrow> n \<in> {0, 1, 2, 3, 4, 5, 6, 7, 8, 9, 10, 11, 12, 13, 14, 15, 16, 17, 18, 19, 20, 21, 22, 23, 24, 25, 26, 27, 28, 29, 30, 31, 32, 33, 34, 35, 36, 37, 38, 39, 40, 41, 42, 43, 44, 45, 46}"
  for n :: nat
proof -
  have "[0..<47] = [0, 1, 2, 3, 4, 5, 6, 7, 8, 9, 10, 11, 12, 13, 14, 15, 16, 17, 18, 19, 20, 21, 22, 23, 24, 25, 26, 27, 28, 29, 30, 31, 32, 33, 34, 35, 36, 37, 38, 39, 40, 41, 42, 43, 44, 45, 46]" by code_simp
  moreover assume "n \<le> 46"
  then have "n \<in> set [0..<47]" by simp
  ultimately show ?thesis by (simp only: list.set)
qed

fun outcome_ok :: "init_link \<Rightarrow> u64 \<Rightarrow> nat \<Rightarrow> (init_label, init_function) control \<times> machine \<Rightarrow> bool" where
  "outcome_ok lk h n (Next, m) \<longleftrightarrow> hart_regs lk h (Suc n) m"
| "outcome_ok lk h n (Branch l, m) \<longleftrightarrow> hart_regs lk h (label_pos l) m"
| "outcome_ok lk h n (Leave (Calls f), m) \<longleftrightarrow>
     (\<forall>m'. m_x m' SP = m_x m SP \<and> m_csr m' = m_csr m \<longrightarrow> hart_regs lk h (Suc n) m')"
| "outcome_ok lk h n (Leave e, m) \<longleftrightarrow> n = 46"

lemma regs_step:
  assumes "hart_regs lk h n m" "n \<le> 46"
  shows "outcome_ok lk h n (exec (start_code lk ! n) m)"
  using upto_46 [OF assms(2)] assms(1)
  by (elim insertE emptyE; simp add: start_code_defs hart_regs_def branch_def MIN_HARTID_def MAX_HARTID_def LOG_STACK_SIZE_def
    push_bit_eq_mult msip_def CLINT_def; (elim conjE disjE; simp)?)


text \<open>Where control goes, and what is stored.\<close>

fun goes :: "nat \<Rightarrow> machine \<Rightarrow> (init_label, init_function) control \<Rightarrow> bool" where
  "goes n m Next \<longleftrightarrow> n \<notin> {17, 22, 23, 24, 46} \<and> (n = 14 \<or> n = 20 \<longrightarrow> m_x m T0 = m_x m T1) \<and> (n = 35 \<longrightarrow> m_x m T0 \<noteq> 0)"
| "goes n m (Branch l) \<longleftrightarrow> n = 14 \<and> l = L_wait \<and> m_x m T0 \<noteq> m_x m T1 \<or> n = 17 \<and> l = L_zero_test \<or> n = 20 \<and> l = L_zero \<and> m_x m T0 \<noteq> m_x m T1 \<or>
     n = 30 \<and> l = L_wake \<or> n = 35 \<and> l = L_wait \<and> m_x m T0 = 0"
| "goes n m (Leave (Calls f)) \<longleftrightarrow> n \<in> {22, 23, 24} \<and> f = all_calls ! (n - 22)"
| "goes n m (Leave e) \<longleftrightarrow> n = 46"

lemma step_effect:
  assumes "n \<le> 46" "exec (start_code lk ! n) m = (r, m')"
  shows "goes n m r"
    "m_word m' = (if n = 18 \<or> n = 40 then (m_word m)(m_x m T0 := 0)
       else if n = 28 then (m_word m)(m_x m T0 := ucast (m_x m T2)) else m_word m)"
    "n = 33 \<Longrightarrow> m_x m' T0 = m_csr m MIP" "n = 34 \<Longrightarrow> m_x m' T0 = m_x m T0 AND 8"
    "n = 35 \<or> n = 17 \<or> n = 18 \<or> n = 20 \<Longrightarrow> m_x m' = m_x m" "n = 15 \<Longrightarrow> m_x m' T0 = lk_bss lk"
    "n = 16 \<Longrightarrow> m_x m' T0 = m_x m T0 \<and> m_x m' T1 = lk_ebss lk"
    "n = 19 \<Longrightarrow> m_x m' T0 = m_x m T0 + 4 \<and> m_x m' T1 = m_x m T1"
proof -
  have "goes n m r \<and> m_word m' = (if n = 18 \<or> n = 40 then (m_word m)(m_x m T0 := 0)
       else if n = 28 then (m_word m)(m_x m T0 := ucast (m_x m T2)) else m_word m)"
    using upto_46 [OF assms(1)] assms(2)
    by (elim insertE emptyE; auto simp: start_code_defs branch_def all_calls_def split: if_splits)
  then show "goes n m r" "m_word m' = (if n = 18 \<or> n = 40 then (m_word m)(m_x m T0 := 0)
       else if n = 28 then (m_word m)(m_x m T0 := ucast (m_x m T2)) else m_word m)" by blast+
qed (use assms(2) in \<open>auto simp: start_code_defs push_bit_eq_mult branch_def split: if_splits\<close>)


fun next_pos :: "nat \<Rightarrow> (init_label, init_function) control \<Rightarrow> nat" where
  "next_pos n (Branch l) = label_pos l"
| "next_pos n c = Suc n"

lemma word_mult_4: "k \<le> K \<Longrightarrow> K < 2 ^ 62 \<Longrightarrow> (4 * of_nat k :: u64) = 4 * of_nat K \<longleftrightarrow> k = K"
proof -
  assume k: "k \<le> K" "K < 2 ^ 62"
  have "(of_nat (4 * k) :: u64) = of_nat (4 * K) \<longleftrightarrow> k = K"
    using k by (subst word_of_nat_eq_iff) (simp add: take_bit_eq_mod)
  then show ?thesis by simp
qed

lemma goes_leave: "goes n m (Leave e) \<Longrightarrow> n \<in> {22, 23, 24, 46}"
  by (cases e) auto

lemma bss_step:
  assumes "bss_at lk K n m" "n \<le> 46" "exec (start_code lk ! n) m = (r, m')" "lk_ebss lk = lk_bss lk + 4 * of_nat K" "K < 2 ^ 62"
    and "n \<noteq> 22"
  shows "bss_at lk K (next_pos n r) m'"
proof -
  note e = step_effect [OF assms(2,3)]
  consider "n < 15" | "n = 15" | "n = 16" | "n = 17" | "n = 18" | "n = 19" | "n = 20" | "n = 21" | "23 \<le> n" using assms(6) by linarith
  then show ?thesis
  proof cases
    case 4
    then show ?thesis using assms(1) e(1,2,5) goes_leave [of 17 m] by (cases r) (auto simp: bss_at_def intro!: exI [of _ 0])
  next
    case 5
    then obtain k where "k < K" "m_x m T0 = lk_bss lk + 4 * of_nat k" "\<forall>j < k. m_word m (lk_bss lk + 4 * of_nat j) = 0"
      "m_x m T1 = lk_ebss lk" using assms(1) by (auto simp: bss_at_def)
    then show ?thesis using 5 e(1,2) e(5) by (cases r) (auto simp: bss_at_def less_Suc_eq intro!: exI [of _ k])
  next
    case 6
    then obtain k where k: "k < K" "m_x m T0 = lk_bss lk + 4 * of_nat k" "\<forall>j < Suc k. m_word m (lk_bss lk + 4 * of_nat j) = 0"
      "m_x m T1 = lk_ebss lk" using assms(1) by (auto simp: bss_at_def)
    then have "m_x m T0 + 4 = lk_bss lk + 4 * of_nat (Suc k)" by (simp add: algebra_simps)
    then show ?thesis using k 6 e(1,2,8) by (cases r) (auto simp: bss_at_def intro!: exI [of _ "Suc k"])
  next
    case 7
    then obtain k where k: "k \<le> K" "m_x m T0 = lk_bss lk + 4 * of_nat k" "\<forall>j < k. m_word m (lk_bss lk + 4 * of_nat j) = 0"
      "m_x m T1 = lk_ebss lk" using assms(1) by (auto simp: bss_at_def)
    have "m_x m T0 = m_x m T1 \<longleftrightarrow> k = K" using word_mult_4 [OF k(1) assms(5)] k(2,4) assms(4) by simp
    then show ?thesis using k 7 e(1,2) e(5) goes_leave [of 20 m] by (cases r) (auto simp: bss_at_def intro!: exI [of _ k])
  qed (use assms(1) e in \<open>cases r; auto simp: bss_at_def\<close>)+
qed


section \<open>The invariant\<close>

lemma hart_regs_cong: "m_x m = m_x m' \<Longrightarrow> (\<And>c. c \<noteq> MIP \<Longrightarrow> m_csr m c = m_csr m' c) \<Longrightarrow> hart_regs lk h n m = hart_regs lk h n m'"
  by (simp add: hart_regs_def)

lemma bss_at_cong: "m_x m = m_x m' \<Longrightarrow> m_word m = m_word m' \<Longrightarrow> bss_at lk K n m = bss_at lk K n m'"
  by (simp add: bss_at_def)

lemma past_wait_cong: "m_x m = m_x m' \<Longrightarrow> past_wait n m = past_wait n m'"
  by (simp add: past_wait_def)

lemma calls_at_all: "calls_at n = all_calls \<longleftrightarrow> 25 \<le> n"
proof -
  have "length (calls_at n) = min 3 (n - 22)" by (simp add: calls_at_def all_calls_def)
  moreover have "length all_calls = 3" by (simp add: all_calls_def)
  ultimately show ?thesis by (auto simp: calls_at_def all_calls_def)
qed

lemma calls_at_0: "n \<le> 22 \<Longrightarrow> calls_at n = []"
  by (simp add: calls_at_def)

lemma calls_at_Suc: "n \<in> {22, 23, 24} \<Longrightarrow> calls_at (Suc n) = calls_at n @ [all_calls ! (n - 22)]"
  by (auto simp: calls_at_def all_calls_def)

lemma calls_at_other: "n \<notin> {22, 23, 24} \<Longrightarrow> calls_at (Suc n) = calls_at n"
  using calls_at_all [of n] calls_at_all [of "Suc n"] by (cases "n < 22") (auto simp: calls_at_0)

text \<open>A hart passes the loop only after a signal.\<close>

lemma past_wait_step:
  assumes "n \<le> 46" "exec (start_code lk ! n) m = (r, m')" "\<not> past_wait n m" "past_wait (next_pos n r) m'"
  shows "n = 33 \<and> bit (m_csr m MIP) 3"
proof -
  note e = step_effect [OF assms(1,2)]
  consider "n = 33" | "n = 34" | "n = 35" | "n < 33" using assms(3) by (force simp: past_wait_def)
  then show ?thesis
  proof cases
    case 2
    have "bit (8 :: u64) k \<Longrightarrow> k = 3" for k using bit_exp_iff [where 'a = u64, of 3 k] by simp
    then have "m_x m T0 AND 8 = 0" if "\<not> bit (m_x m T0) 3" using that
      by (intro bit_eqI) (auto simp: bit_and_iff)
    then show ?thesis using 2 assms(3,4) e(1,4) by (cases r) (auto simp: past_wait_def split: if_splits)
  next
    case 4
    then show ?thesis using assms(4) e(1) by (cases r) (auto simp: past_wait_def)
  qed (use assms(3,4) e(1,3) goes_leave [of n m] in \<open>cases r; auto simp: past_wait_def\<close>)+
qed


lemma msip_inj: "unat g < 5 \<Longrightarrow> unat k < 5 \<Longrightarrow> msip g = msip k \<longleftrightarrow> g = k"
proof -
  assume "unat g < 5" "unat k < 5"
  then have "unat (4 * g) = 4 * unat g" "unat (4 * k) = 4 * unat k"
    by (subst unat_mult_lem [THEN iffD1]; simp)+
  then have "4 * g = 4 * k \<longleftrightarrow> g = k" by (metis mult_cancel1 unsigned_word_eqI zero_neq_numeral)
  then show ?thesis by (simp add: msip_def)
qed

text \<open>One instruction of hart \<open>h\<close>, seen by that hart.\<close>

lemma hart_step:
  assumes i: "hart_inv lk K h n m calls" and w: "signals (m_word m) calls" and h: "unat h < 5"
    and x: "exec (start_code lk ! n) m = (r, m')" and mip: "m_csr m MIP = (if bit (m_word m (msip h)) 0 then 8 else 0)"
    and b: "lk_ebss lk = lk_bss lk + 4 * of_nat K" "K < 2 ^ 62" and r: "\<And>e. r \<noteq> Leave e"
  shows "hart_inv lk K h (next_pos n r) m' calls" "signals (m_word m') calls"
proof -
  have n: "n \<le> 46" and regs: "hart_regs lk h n m" and past: "past_wait n m \<Longrightarrow> calls = all_calls \<and> hart_ok h"
    and one: "h = 1 \<Longrightarrow> calls = calls_at n \<and> bss_at lk K n m"
    using i by (auto simp: hart_inv_def)
  note e = step_effect [OF n x]
  have "outcome_ok lk h n (r, m')" using regs_step [OF regs n] x by simp
  then have regs': "hart_regs lk h (next_pos n r) m'" using r by (cases r) auto
  have n': "next_pos n r \<le> 46" using n e(1) r by (cases r) auto
  have past': "calls = all_calls \<and> hart_ok h" if p: "past_wait (next_pos n r) m'"
  proof (cases "past_wait n m")
    case False
    then have "bit (m_csr m MIP) 3" using past_wait_step [OF n x _ p] by blast
    then have "m_word m (msip h) \<noteq> 0" using mip by (auto split: if_splits)
    then show ?thesis using w h by (auto simp: signals_def)
  qed (rule past)
  have one': "calls = calls_at (next_pos n r) \<and> bss_at lk K (next_pos n r) m'" if "h = 1"
  proof -
    have "n \<notin> {22, 23, 24}" using e(1) r by (cases r) auto
    moreover have "n \<noteq> 14 \<or> m_x m T0 = m_x m T1" using regs that by (auto simp: hart_regs_def)
    ultimately have "calls_at (next_pos n r) = calls_at n" using e(1) r calls_at_other [of n] calls_at_all [of 31] calls_at_all [of 35]
      calls_at_all [of 30] calls_at_all [of 28] calls_at_0 [of 18] calls_at_0 [of 20]
      by (cases r) (auto simp: calls_at_0)
    then show ?thesis using bss_step [OF _ n x b] one [OF that] \<open>n \<notin> {22, 23, 24}\<close> by auto
  qed
  show "hart_inv lk K h (next_pos n r) m' calls" using n' regs' past' one' by (simp add: hart_inv_def)
  show "signals (m_word m') calls"
    unfolding signals_def
  proof (intro allI impI; elim conjE)
    fix g :: u64
    assume g: "unat g < 5" "m_word m' (msip g) \<noteq> 0"
    show "calls = all_calls \<and> hart_ok g"
    proof (cases "n = 28 \<and> m_x m T0 = msip g")
      case True
      then have "h = 1" "msip g \<in> {msip 1, msip 2, msip 3, msip 4}" using regs by (auto simp: hart_regs_def)
      then have "calls = all_calls" "g = 1 \<or> g = 2 \<or> g = 3 \<or> g = 4"
        using one True calls_at_all [of 28] msip_inj [OF g(1)] by auto
      then show ?thesis by (auto simp: hart_ok_def config_defs)
    next
      case False
      then have "m_word m (msip g) \<noteq> 0" using g(2) e(2) by (auto split: if_splits)
      then show ?thesis using w g(1) by (auto simp: signals_def)
    qed
  qed
qed

lemma hart_regs_init: "hart_regs lk h n m \<Longrightarrow> 15 \<le> n \<Longrightarrow> n \<le> 30 \<Longrightarrow> h = 1"
  by (simp add: hart_regs_def)

text \<open>A call of hart \<open>h\<close>.\<close>

lemma hart_call:
  assumes i: "hart_inv lk K h n m calls" and x: "exec (start_code lk ! n) m = (Leave (Calls f), m')"
    and m'': "m_x m'' SP = m_x m' SP" "m_csr m'' = m_csr m'"
  shows "h = 1 \<and> n \<in> {22, 23, 24} \<and> calls @ [f] = calls_at (Suc n) \<and> hart_inv lk K h (Suc n) m'' (calls @ [f])"
proof -
  have n: "n \<le> 46" and regs: "hart_regs lk h n m" and one: "h = 1 \<Longrightarrow> calls = calls_at n \<and> bss_at lk K n m"
    using i by (auto simp: hart_inv_def)
  have g: "n \<in> {22, 23, 24}" "f = all_calls ! (n - 22)" using step_effect(1) [OF n x] by auto
  have "15 \<le> n" "n \<le> 30" using g(1) by auto
  then have h: "h = 1" by (rule hart_regs_init [OF regs])
  have c: "calls @ [f] = calls_at (Suc n)" using one [OF h] calls_at_Suc [OF g(1)] g(2) by simp
  have "outcome_ok lk h n (Leave (Calls f), m')" using regs_step [OF regs n] by (simp only: x)
  then have "hart_regs lk h (Suc n) m''" using m'' by simp
  moreover have "\<not> past_wait (Suc n) m''" "bss_at lk K (Suc n) m''" using g(1) by (auto simp: past_wait_def bss_at_def)
  ultimately show ?thesis using g(1) h c by (auto simp: hart_inv_def)
qed

text \<open>The other harts do not notice.\<close>

lemma other_hart:
  assumes g: "hart_inv lk K g k mg calls" and x: "m_x mg' = m_x mg" "\<And>c. c \<noteq> MIP \<Longrightarrow> m_csr mg' c = m_csr mg c"
    and c: "calls = all_calls \<Longrightarrow> calls' = all_calls" and one: "g = 1 \<Longrightarrow> calls' = calls"
    and w: "g = 1 \<Longrightarrow> calls \<noteq> all_calls \<Longrightarrow> m_word mg' = m_word mg"
  shows "hart_inv lk K g k mg' calls'"
proof -
  have "hart_regs lk g k mg'" using g hart_regs_cong [of mg' mg] x by (auto simp: hart_inv_def)
  moreover have "calls' = all_calls \<and> hart_ok g" if "past_wait k mg'"
    using g that past_wait_cong [of mg' mg, OF x(1)] c by (auto simp: hart_inv_def)
  moreover have "calls' = calls_at k \<and> bss_at lk K k mg'" if "g = 1"
  proof (cases "calls = all_calls")
    case True
    then have "25 \<le> k" using g that calls_at_all [of k] by (auto simp: hart_inv_def)
    then show ?thesis using g that one by (auto simp: hart_inv_def bss_at_def)
  next
    case False
    then show ?thesis using g that one w bss_at_cong [of mg' mg, OF x(1)] by (auto simp: hart_inv_def)
  qed
  ultimately show ?thesis using g by (simp add: hart_inv_def)
qed


lemma hart_inv_cong:
  "m_x m' = m_x m \<Longrightarrow> (\<And>c. c \<noteq> MIP \<Longrightarrow> m_csr m' c = m_csr m c) \<Longrightarrow> m_word m' = m_word m \<Longrightarrow>
    hart_inv lk K h n m calls \<Longrightarrow> hart_inv lk K h n m' calls"
  using hart_regs_cong [of m' m] bss_at_cong [of m' m] past_wait_cong [of m' m] by (simp add: hart_inv_def)

lemma view_done:
  "m_x (hart_view (hart_done s h is m) g) = (if g = h then m_x m else m_x (hart_view s g))"
  "c \<noteq> MIP \<Longrightarrow> m_csr (hart_view (hart_done s h is m) g) c = (if g = h then m_csr m c else m_csr (hart_view s g) c)"
  "m_word (hart_view (hart_done s h is m) g) = m_word m"
  "st_calls (hart_done s h is m) = st_calls s" "st_word (hart_done s h is m) = m_word m"
  "h_code (st_hart (hart_done s h is m) g) = (if g = h then is else h_code (st_hart s g))"
  by (simp_all add: hart_view_def hart_done_def)

lemma done_calls: "(hart_done s h is m)\<lparr>st_calls := st_calls s\<rparr> = hart_done s h is m"
  by (simp add: hart_done_def)

lemma view_simps [simp]:
  "m_word (hart_view s h) = st_word s" "m_csr (hart_view s h) MIP = (if bit (st_word s (msip h)) 0 then 8 else 0)"
  "hart_view (s\<lparr>st_calls := cs\<rparr>) h = hart_view s h"
  by (simp_all add: hart_view_def)

lemma start_invD:
  assumes "start_inv lk K s" "unat h < 5" "h_code (st_hart s h) = i # is"
  obtains n where "i = start_code lk ! n" "is = drop (Suc n) (start_code lk)" "n \<le> 46" "hart_inv lk K h n (hart_view s h) (st_calls s)"
proof -
  obtain n where n: "h_code (st_hart s h) = drop n (start_code lk)" "hart_inv lk K h n (hart_view s h) (st_calls s)"
    using assms(1,2) by (auto simp: start_inv_def)
  have l: "n \<le> 46" using n(2) by (simp add: hart_inv_def)
  then have "drop n (start_code lk) = start_code lk ! n # drop (Suc n) (start_code lk)"
    by (intro Cons_nth_drop_Suc [symmetric]) (simp add: start_code_length)
  then show ?thesis using that [of n] n assms(3) l by simp
qed

text \<open>A step in which hart \<open>h\<close> goes to instruction \<open>n'\<close>.\<close>

lemma start_inv_done:
  assumes inv: "start_inv lk K s" and h: "hart_inv lk K h n' m calls'" and w: "signals (m_word m) calls'"
    and c: "st_calls s = all_calls \<Longrightarrow> calls' = all_calls" "h \<noteq> 1 \<Longrightarrow> calls' = st_calls s"
    and ww: "h \<noteq> 1 \<Longrightarrow> st_calls s \<noteq> all_calls \<Longrightarrow> m_word m = st_word s"
  shows "start_inv lk K ((hart_done s h (drop n' (start_code lk)) m)\<lparr>st_calls := calls'\<rparr>)"
  unfolding start_inv_def
proof (intro conjI allI impI)
  fix g :: u64
  assume g: "unat g < 5"
  let ?s = "(hart_done s h (drop n' (start_code lk)) m)\<lparr>st_calls := calls'\<rparr>"
  show "\<exists>n. h_code (st_hart ?s g) = drop n (start_code lk) \<and> hart_inv lk K g n (hart_view ?s g) (st_calls ?s)"
  proof (cases "g = h")
    case True
    then show ?thesis using hart_inv_cong [OF _ _ _ h] by (intro exI [of _ n']) (simp add: view_done)
  next
    case False
    obtain k where k: "h_code (st_hart s g) = drop k (start_code lk)" "hart_inv lk K g k (hart_view s g) (st_calls s)"
      using inv g by (auto simp: start_inv_def)
    have "hart_inv lk K g k (hart_view ?s g) calls'"
      by (rule other_hart [OF k(2)]) (use False c ww in \<open>auto simp: view_done\<close>)
    then show ?thesis using k(1) False by (intro exI [of _ k]) (simp add: view_done)
  qed
qed (use w in \<open>simp add: view_done\<close>)

lemma stores_late:
  assumes "hart_inv lk K h n m calls" "exec (start_code lk ! n) m = (r, m')" "h \<noteq> 1" "calls \<noteq> all_calls"
  shows "m_word m' = m_word m"
proof -
  have n: "n \<le> 46" "hart_regs lk h n m" "\<not> past_wait n m" using assms(1,4) unfolding hart_inv_def by blast+
  have "n < 15 \<or> 30 < n" using hart_regs_init [OF n(2)] assms(3) not_le by blast
  moreover have "n \<le> 35" using n(3) by (simp add: past_wait_def)
  ultimately show ?thesis using step_effect(2) [OF n(1) assms(2)] by auto
qed

lemma start_inv_step:
  assumes inv: "start_inv lk K s" and step: "boot_step lk s s'" and b: "lk_ebss lk = lk_bss lk + 4 * of_nat K" "K < 2 ^ 62"
  shows "start_inv lk K s'"
proof -
  have w: "signals (st_word s) (st_calls s)" using inv by (simp add: start_inv_def)
  have go: "start_inv lk K (hart_done s h (drop (next_pos n r) (start_code lk)) m)"
    if h: "unat h < 5" and n: "hart_inv lk K h n (hart_view s h) (st_calls s)"
      and x: "exec (start_code lk ! n) (hart_view s h) = (r, m)" and r: "\<And>e. r \<noteq> Leave e" for h n r m
    using start_inv_done [OF inv hart_step(1,2) [OF n _ h x _ b r]] w stores_late [OF n x] by (simp add: done_calls)
  from step show ?thesis
  proof cases
    case (next_instr h i "is" m)
    obtain n where "i = start_code lk ! n" "is = drop (Suc n) (start_code lk)" "hart_inv lk K h n (hart_view s h) (st_calls s)"
      by (rule start_invD [OF inv next_instr(2,3)]) blast
    then show ?thesis using go [OF next_instr(2), of n Next m] next_instr by simp
  next
    case (jump h i "is" l m)
    obtain n where "i = start_code lk ! n" "hart_inv lk K h n (hart_view s h) (st_calls s)"
      by (rule start_invD [OF inv jump(2,3)]) blast
    then show ?thesis using go [OF jump(2), of n "Branch l" m] jump by (simp add: init_code_drop)
  next
    case (c_call h i "is" f m m')
    obtain n where n: "i = start_code lk ! n" "is = drop (Suc n) (start_code lk)" "n \<le> 46" "hart_inv lk K h n (hart_view s h) (st_calls s)"
      by (rule start_invD [OF inv c_call(2,3)]) blast
    have x: "exec (start_code lk ! n) (hart_view s h) = (Leave (Calls f), m)" using c_call(4) n(1) by simp
    note call = hart_call [OF n(4) x c_call(5,6)]
    have "n \<in> {22, 23, 24}" "calls_at n = st_calls s" using call n(4) by (auto simp: hart_inv_def)
    then have "m_word m = st_word s" "st_calls s \<noteq> all_calls"
      using step_effect(2) [OF n(3) x] calls_at_all [of n] by auto
    then have "signals (m_word m') (st_calls s @ [f])" using w c_call(7) by (auto simp: signals_def)
    then show ?thesis using start_inv_done [OF inv, of h "Suc n" m' "st_calls s @ [f]"] call \<open>st_calls s \<noteq> all_calls\<close>
      unfolding c_call(1) n(2) by auto
  qed
qed

lemma reset_inv:
  assumes "reset lk s"
  shows "start_inv lk K s"
proof -
  have "hart_inv lk K h 0 (hart_view s h) []" if "unat h < 5" for h
    using assms that by (auto simp: reset_def hart_inv_def hart_regs_def past_wait_def calls_at_0 bss_at_def hart_view_def)
  then show ?thesis using assms by (auto simp: start_inv_def reset_def signals_def intro!: exI [of _ 0])
qed

lemma start_inv_reached:
  assumes "reset lk s0" "(boot_step lk)\<^sup>*\<^sup>* s0 s" "lk_ebss lk = lk_bss lk + 4 * of_nat K" "K < 2 ^ 62"
  shows "start_inv lk K s"
  using assms(2) by (induction rule: rtranclp_induct) (use reset_inv [OF assms(1)] start_inv_step [OF _ _ assms(3,4)] in blast)+

lemma at_call:
  assumes "hart_inv lk K h n (hart_view s h) (st_calls s)" "h_code (st_hart s h) = start_code lk ! n # rest"
    and "h_code (st_hart s h) = Call f # is"
  shows "h = 1 \<and> (\<exists>n. st_calls s @ [f] = calls_at n) \<and> (f = C_proc_init \<longrightarrow> (\<forall>j < K. st_word s (lk_bss lk + 4 * of_nat j) = 0))"
proof -
  have l: "n \<le> 46" using assms(1) by (simp add: hart_inv_def)
  have i: "start_code lk ! n = Call f" using assms(2,3) by simp
  have x: "exec (start_code lk ! n) (hart_view s h) = (Leave (Calls f), hart_view s h)" using i by simp
  have c: "h = 1" "n \<in> {22, 23, 24}" "st_calls s @ [f] = calls_at (Suc n)" using hart_call [OF assms(1) x refl refl] by auto
  have "n = 22" if "f = C_proc_init" using step_effect(1) [OF l x] that by (auto simp: all_calls_def)
  moreover have "n = 22 \<Longrightarrow> \<forall>j < K. st_word s (lk_bss lk + 4 * of_nat j) = 0"
    using assms(1) c(1) by (simp add: hart_inv_def bss_at_def)
  ultimately show ?thesis using c by blast
qed

lemma at_tail:
  assumes "hart_inv lk K h n (hart_view s h) (st_calls s)" "h_code (st_hart s h) = start_code lk ! n # rest"
    and "h_code (st_hart s h) = Tail C_sched_start # is"
  shows "hart_ok h \<and> st_calls s = all_calls \<and> hart_regs lk h 46 (hart_view s h)"
proof -
  have l: "n \<le> 46" using assms(1) by (simp add: hart_inv_def)
  have i: "start_code lk ! n = Tail C_sched_start" using assms(2,3) by simp
  have x: "exec (start_code lk ! n) (hart_view s h) = (Leave (Tails C_sched_start), hart_view s h)" using i by simp
  have "n = 46" using step_effect(1) [OF l x] by simp
  then show ?thesis using assms(1) by (simp add: hart_inv_def past_wait_def)
qed

section \<open>Start-up\<close>

text \<open>C23: no hart schedules before the kernel is initialised. In every interleaving of the harts from reset
  on, the three C functions are called by hart 1 and once each, in their order, on a cleared
  \<open>.bss\<close> section; a hart that enters the scheduler is one of harts 1 to 4, all calls have been made, and it has the
  control registers, the return address and the stack that the kernel expects.\<close>

theorem boot_barrier:
  assumes "reset lk s0" "(boot_step lk)\<^sup>*\<^sup>* s0 s" "unat h < 5"
    and "lk_ebss lk = lk_bss lk + 4 * of_nat K" "K < 2 ^ 62"
  shows "(\<exists>n. st_calls s = take n [C_proc_init, C_sched_init, C_print_info]) \<and>
    (\<forall>f is. h_code (st_hart s h) = Call f # is \<longrightarrow> h = of_nat MIN_HARTID \<and>
      (\<exists>n. st_calls s @ [f] = take n [C_proc_init, C_sched_init, C_print_info]) \<and>
      (f = C_proc_init \<longrightarrow> (\<forall>j < K. st_word s (lk_bss lk + 4 * of_nat j) = 0))) \<and>
    (\<forall>is. h_code (st_hart s h) = Tail C_sched_start # is \<longrightarrow>
      hart_ok h \<and> st_calls s = [C_proc_init, C_sched_init, C_print_info] \<and>
      h_csr (st_hart s h) MTVEC = lk_trap_entry lk \<and> h_csr (st_hart s h) MIE = 128 \<and>
      h_csr (st_hart s h) MSCRATCH = 0 \<and> h_csr (st_hart s h) MSTATUS = 0 \<and>
      h_x (st_hart s h) RA = lk_trap_resume_proc lk \<and>
      h_x (st_hart s h) SP = lk_stack lk - 1024 * (of_nat MIN_HARTID + h))"
proof -
  have inv: "start_inv lk K s" by (rule start_inv_reached [OF assms(1,2,4,5)])
  have "unat (1 :: u64) < 5" by simp
  then obtain n1 where "hart_inv lk K 1 n1 (hart_view s 1) (st_calls s)" using inv unfolding start_inv_def by blast
  then have n1: "st_calls s = calls_at n1" by (simp add: hart_inv_def)
  obtain n where n: "h_code (st_hart s h) = drop n (start_code lk)" "hart_inv lk K h n (hart_view s h) (st_calls s)"
    using inv assms(3) unfolding start_inv_def by blast
  have l: "n \<le> 46" using n(2) by (simp add: hart_inv_def)
  then have d: "drop n (start_code lk) = start_code lk ! n # drop (Suc n) (start_code lk)"
    by (intro Cons_nth_drop_Suc [symmetric]) (simp add: start_code_length)
  note call = at_call [OF n(2) n(1) [unfolded d]] and tail = at_tail [OF n(2) n(1) [unfolded d]]
  have "hart_regs lk h 46 (hart_view s h) \<Longrightarrow> h_csr (st_hart s h) MTVEC = lk_trap_entry lk \<and> h_csr (st_hart s h) MIE = 128 \<and>
      h_csr (st_hart s h) MSCRATCH = 0 \<and> h_csr (st_hart s h) MSTATUS = 0 \<and>
      h_x (st_hart s h) RA = lk_trap_resume_proc lk \<and> h_x (st_hart s h) SP = lk_stack lk - 1024 * (of_nat MIN_HARTID + h)"
    by (simp add: hart_regs_def hart_view_def MIN_HARTID_def)
  with call tail n1 show ?thesis unfolding calls_at_def all_calls_def by (auto simp: MIN_HARTID_def)
qed


text \<open>A run of one hart alone.\<close>

definition boot_exec :: "init_link \<Rightarrow> u64 \<Rightarrow> start_state \<Rightarrow> start_state option" where
  "boot_exec lk h s = (case h_code (st_hart s h) of [] \<Rightarrow> None | i # is \<Rightarrow>
     (case exec i (hart_view s h) of
        (Next, m) \<Rightarrow> Some (hart_done s h is m)
      | (Branch l, m) \<Rightarrow> Some (hart_done s h (init_code lk l) m)
      | (Leave (Calls f), m) \<Rightarrow> Some ((hart_done s h is m)\<lparr>st_calls := st_calls s @ [f]\<rparr>)
      | _ \<Rightarrow> None))"

primrec boot_run :: "init_link \<Rightarrow> u64 \<Rightarrow> nat \<Rightarrow> start_state \<Rightarrow> start_state option" where
  "boot_run lk h 0 s = Some s"
| "boot_run lk h (Suc n) s = Option.bind (boot_exec lk h s) (boot_run lk h n)"

lemma boot_exec_step: "unat h < 5 \<Longrightarrow> boot_exec lk h s = Some s' \<Longrightarrow> boot_step lk s s'"
  by (auto simp: boot_exec_def split: list.splits prod.splits control.splits leaving.splits intro: boot_step.intros)

lemma boot_run_steps: "unat h < 5 \<Longrightarrow> boot_run lk h n s = Some s' \<Longrightarrow> (boot_step lk)\<^sup>*\<^sup>* s s'"
  by (induction n arbitrary: s)
    (auto simp: bind_eq_Some_conv intro: converse_rtranclp_into_rtranclp boot_exec_step)

definition sample_init :: init_link where
  "sample_init = \<lparr>lk_global_pointer = 0x80000800, lk_stack = 0x80004000, lk_vector_hi = 0, lk_vector_lo = 0, lk_hang = 0x80000100,
     lk_bss = 0x80001000, lk_ebss = 0x80001004, lk_root_payload = 0x80010000, lk_trap_entry = 0x80000200,
     lk_trap_resume_proc = 0x80000300\<rparr>"

definition sample_reset :: start_state where
  "sample_reset = \<lparr>st_hart = (\<lambda>h. \<lparr>h_code = start_code sample_init, h_x = (\<lambda>_. 7), h_csr = (\<lambda>_. 0)(MHARTID := h)\<rparr>),
     st_word = (\<lambda>_. 0), st_calls = []\<rparr>"

lemma boot_run_numeral:
  "boot_run lk h (numeral k) s = Option.bind (boot_exec lk h s) (boot_run lk h (pred_numeral k))"
  by (simp add: numeral_eq_Suc)

lemmas run_defs = boot_run_numeral boot_exec_def start_code_defs sample_init_def hart_view_def hart_done_def
    set_x_def set_csr_def set_word_def branch_def MIN_HARTID_def MAX_HARTID_def LOG_STACK_SIZE_def

lemma sample_start: "\<exists>s. boot_run sample_init 1 15 sample_reset = Some s \<and> h_code (st_hart s 1) = initialize_kernel_code sample_init \<and>
    h_csr (st_hart s 1) MHARTID = 1"
  by (simp add: run_defs sample_reset_def)

lemma sample_init_run:
  assumes "h_code (st_hart s 1) = initialize_kernel_code sample_init" "h_csr (st_hart s 1) MHARTID = 1"
  shows "\<exists>s'. boot_run sample_init 1 11 s = Some s' \<and> h_code (st_hart s' 1) = wake_code sample_init \<and> h_csr (st_hart s' 1) MHARTID = 1"
  using assms by (simp add: run_defs)

lemma sample_wake:
  assumes "h_code (st_hart s 1) = wake_code sample_init" "h_csr (st_hart s 1) MHARTID = 1"
  shows "\<exists>s'. boot_run sample_init 1 15 s = Some s' \<and> h_code (st_hart s' 1) = wait_code sample_init \<and> h_csr (st_hart s' 1) MHARTID = 1 \<and>
    st_word s' (msip 1) = 1"
  using assms by (simp add: run_defs CLINT_def msip_def)

lemma sample_wait:
  assumes "h_code (st_hart s 1) = wait_code sample_init" "h_csr (st_hart s 1) MHARTID = 1" "st_word s (msip 1) = 1"
  shows "\<exists>s'. boot_run sample_init 1 15 s = Some s' \<and> h_code (st_hart s' 1) = Tail C_sched_start # init_hang_code"
  using assms by (simp add: run_defs)

theorem boot_barrier_witness:
  "\<exists>s. (boot_step sample_init)\<^sup>*\<^sup>* sample_reset s \<and> h_code (st_hart s 1) = Tail C_sched_start # init_hang_code \<and>
    st_calls s = [C_proc_init, C_sched_init, C_print_info] \<and> h_csr (st_hart s 1) MTVEC = 0x80000200 \<and>
    h_x (st_hart s 1) SP = 0x80003800"
proof -
  have h: "unat (1 :: u64) < 5" by simp
  note go = boot_run_steps [OF h]
  obtain s1 where s1: "boot_run sample_init 1 15 sample_reset = Some s1" "h_code (st_hart s1 1) = initialize_kernel_code sample_init"
    "h_csr (st_hart s1 1) MHARTID = 1" using sample_start by blast
  obtain s2 where s2: "boot_run sample_init 1 11 s1 = Some s2" "h_code (st_hart s2 1) = wake_code sample_init"
    "h_csr (st_hart s2 1) MHARTID = 1" using sample_init_run [OF s1(2,3)] by blast
  obtain s3 where s3: "boot_run sample_init 1 15 s2 = Some s3" "h_code (st_hart s3 1) = wait_code sample_init"
    "h_csr (st_hart s3 1) MHARTID = 1" "st_word s3 (msip 1) = 1" using sample_wake [OF s2(2,3)] by blast
  obtain s where s: "boot_run sample_init 1 15 s3 = Some s" "h_code (st_hart s 1) = Tail C_sched_start # init_hang_code"
    using sample_wait [OF s3(2-4)] by blast
  have steps: "(boot_step sample_init)\<^sup>*\<^sup>* sample_reset s"
    using go [OF s1(1)] go [OF s2(1)] go [OF s3(1)] go [OF s(1)] by simp
  have r: "reset sample_init sample_reset" by (simp add: reset_def sample_reset_def)
  have b: "lk_ebss sample_init = lk_bss sample_init + 4 * of_nat 1" "(1 :: nat) < 2 ^ 62" by (simp_all add: sample_init_def)
  note boot_barrier [OF r steps h b]
  then have "st_calls s = [C_proc_init, C_sched_init, C_print_info]" "h_csr (st_hart s 1) MTVEC = lk_trap_entry sample_init"
    "h_x (st_hart s 1) SP = lk_stack sample_init - 1024 * (of_nat MIN_HARTID + 1)" using s(2) by blast+
  with steps s(2) show ?thesis by (intro exI [of _ s]) (simp add: sample_init_def MIN_HARTID_def)
qed

end
