(* ===== verification/CapGen.thy ===== *)
theory CapGen
  imports Proc
begin

text \<open>
  The generator \<open>scripts/cap_gen.py\<close>. A function that it prints is modelled as the function it
  denotes: each \<open>make_\<close> operation takes a description, as the YAML file holds it, and returns the C
  function with its assertions. Then the descriptions of \<open>gen/cap.yml\<close>, and that the
  functions generated from them are those of the checked-in header \<open>api/s3k_cap.h\<close>.
\<close>

section \<open>Packing fields into the two words\<close>

type_synonym field = "string \<times> nat"

text \<open>The first result of a loop with \<open>return\<close> in it.\<close>

fun first_some :: "('a \<Rightarrow> 'b option) \<Rightarrow> 'a list \<Rightarrow> 'b option" where
  "first_some g [] = None"
| "first_some g (x # xs) = (case g x of None \<Rightarrow> first_some g xs | Some y \<Rightarrow> Some y)"

primrec binpack :: "nat list \<Rightarrow> field list \<Rightarrow> field list list option" where
  "binpack bins [] = Some [[], []]"
| "binpack bins (f # fs) = first_some (\<lambda>i.
     if bins ! i < snd f then None
     else map_option (\<lambda>p. p[i := p ! i @ [f]]) (binpack (bins[i := bins ! i - snd f]) fs)) [0..<length bins]"

fun offset_from :: "nat \<Rightarrow> field list \<Rightarrow> string \<Rightarrow> nat option" where
  "offset_from offset [] f = None"
| "offset_from offset ((ff, s) # b) f = (if ff = f then Some offset else offset_from (offset + s * 8) b f)"

definition get_offset :: "field list \<Rightarrow> string \<Rightarrow> nat option" where
  "get_offset b f = offset_from 0 b f"

definition get_bin :: "field list list \<Rightarrow> string \<Rightarrow> (nat \<times> field list) option" where
  "get_bin bins f = first_some (\<lambda>(i, b). if list_ex (\<lambda>(ff, s). ff = f) b then Some (i, b) else None)
     (enumerate 0 bins)"

section \<open>The generated functions\<close>

text \<open>The literals \<open>0xff\<dots>ff\<close> and \<open>0xff\<dots>ff00\<dots>00\<close>, by their numbers of bytes.\<close>

definition ff :: "nat \<Rightarrow> u64" where "ff n = mask (8 * n)"

definition ff_00 :: "nat \<Rightarrow> nat \<Rightarrow> u64" where "ff_00 n z = push_bit (8 * z) (mask (8 * n))"

definition cap_word :: "nat \<Rightarrow> cap_t \<Rightarrow> u64" where
  "cap_word i cap = (if i = 0 then word0 cap else word1 cap)"

definition upd_word :: "nat \<Rightarrow> (u64 \<Rightarrow> u64) \<Rightarrow> cap_t \<Rightarrow> cap_t" where
  "upd_word i g cap = (if i = 0 then cap\<lparr>word0 := g (word0 cap)\<rparr> else cap\<lparr>word1 := g (word1 cap)\<rparr>)"

text \<open>The word and the offset of a field; the tag takes the low byte of the first word.\<close>

definition place :: "field list list \<Rightarrow> string \<Rightarrow> (nat \<times> nat) option" where
  "place bins name = Option.bind (get_bin bins name) (\<lambda>(i, b).
     map_option (\<lambda>offset. (i, if i = 0 then offset + 8 else offset)) (get_offset b name))"

text \<open>\<open>tag\<close> is the value of \<open>CAP_TYPE_\<close> of the capability. Padding gets no functions.\<close>

definition make_getter :: "u64 \<Rightarrow> string \<Rightarrow> nat \<Rightarrow> field list list \<Rightarrow> (cap_t \<Rightarrow> stop + u64) option" where
  "make_getter tag name sz bins = (if name = ''padd'' then None
     else map_option (\<lambda>(i, offset) cap.
       ebind (kassert (cap_get_type cap = tag)) (\<lambda>_.
       Inr (if offset \<noteq> 0 then drop_bit offset (cap_word i cap) AND ff sz else cap_word i cap AND ff sz)))
     (place bins name))"

definition make_setter :: "u64 \<Rightarrow> string \<Rightarrow> nat \<Rightarrow> field list list \<Rightarrow> (cap_t \<Rightarrow> u64 \<Rightarrow> stop + cap_t) option" where
  "make_setter tag name sz bins = (if name = ''padd'' then None
     else map_option (\<lambda>(i, offset) cap v.
       ebind (kassert (cap_get_type cap = tag)) (\<lambda>_.
       ebind (kassert (v AND ff sz = v)) (\<lambda>_.
       let m = ff_00 sz (offset div 8)
       in Inr (if offset \<noteq> 0 then upd_word i (\<lambda>w. (w AND NOT m) OR push_bit offset v) cap
          else upd_word i (\<lambda>w. (w AND NOT m) OR v) cap))))
     (place bins name))"

text \<open>The C expressions of the assertions and conditions. \<open>Field v f\<close> is \<open>v:f\<close>.\<close>

datatype cexpr =
    Num u64 | Ident string | Field char string | Napot_begin cexpr | Napot_end cexpr
  | BitAnd cexpr cexpr | Equal cexpr cexpr | LessEq cexpr cexpr | Less cexpr cexpr | Or cexpr cexpr

definition truth :: "bool \<Rightarrow> u64" where "truth b = (if b then 1 else 0)"

fun eval :: "(string \<Rightarrow> u64 option) \<Rightarrow> (char \<Rightarrow> string \<Rightarrow> stop + u64) \<Rightarrow> cexpr \<Rightarrow> stop + u64" where
  "eval \<rho> get (Num n) = Inr n"
| "eval \<rho> get (Ident x) = (case \<rho> x of None \<Rightarrow> Inl Undefined | Some v \<Rightarrow> Inr v)"
| "eval \<rho> get (Field v f) = get v f"
| "eval \<rho> get (Napot_begin a) = ebind (eval \<rho> get a) (\<lambda>x. Inr (pmp_napot_begin x))"
| "eval \<rho> get (Napot_end a) = ebind (eval \<rho> get a) (\<lambda>x. Inr (pmp_napot_end x))"
| "eval \<rho> get (BitAnd a b) = ebind (eval \<rho> get a) (\<lambda>x. ebind (eval \<rho> get b) (\<lambda>y. Inr (x AND y)))"
| "eval \<rho> get (Equal a b) = ebind (eval \<rho> get a) (\<lambda>x. ebind (eval \<rho> get b) (\<lambda>y. Inr (truth (x = y))))"
| "eval \<rho> get (LessEq a b) = ebind (eval \<rho> get a) (\<lambda>x. ebind (eval \<rho> get b) (\<lambda>y. Inr (truth (x \<le> y))))"
| "eval \<rho> get (Less a b) = ebind (eval \<rho> get a) (\<lambda>x. ebind (eval \<rho> get b) (\<lambda>y. Inr (truth (x < y))))"
| "eval \<rho> get (Or a b) = ebind (eval \<rho> get a) (\<lambda>x. if x \<noteq> 0 then Inr 1
     else ebind (eval \<rho> get b) (\<lambda>y. Inr (truth (y \<noteq> 0))))"

fun assert_all :: "(string \<Rightarrow> u64 option) \<Rightarrow> cexpr list \<Rightarrow> stop + unit" where
  "assert_all \<rho> [] = Inr ()"
| "assert_all \<rho> (a # as) = ebind (eval \<rho> (\<lambda>_ _. Inl Undefined) a) (\<lambda>v. ebind (kassert (v \<noteq> 0)) (\<lambda>_. assert_all \<rho> as))"

text \<open>\<open>&&\<close> stops at the first condition that is false.\<close>

fun eval_all :: "(char \<Rightarrow> string \<Rightarrow> stop + u64) \<Rightarrow> cexpr list \<Rightarrow> stop + bool" where
  "eval_all get [] = Inr True"
| "eval_all get (a # as) = ebind (eval (\<lambda>_. None) get a) (\<lambda>v. if v = 0 then Inr False else eval_all get as)"

definition parameters :: "field list \<Rightarrow> field list" where
  "parameters fds = filter (\<lambda>(name, sz). name \<noteq> ''padd'') fds"

fun assert_sizes :: "(string \<Rightarrow> u64 option) \<Rightarrow> field list \<Rightarrow> stop + unit" where
  "assert_sizes \<rho> [] = Inr ()"
| "assert_sizes \<rho> ((name, sz) # fs) = (case \<rho> name of None \<Rightarrow> Inl Undefined
     | Some v \<Rightarrow> ebind (kassert (v AND ff sz = v)) (\<lambda>_. assert_sizes \<rho> fs))"

text \<open>One line \<open>c.word |= f << offset\<close>, and the lines of a bin.\<close>

definition or_field :: "(string \<Rightarrow> u64 option) \<Rightarrow> nat \<Rightarrow> field list \<Rightarrow> field \<Rightarrow> u64 \<Rightarrow> u64" where
  "or_field \<rho> i b = (\<lambda>(f, s) w. if f = ''padd'' then w
     else let offset = (if i = 0 then the (get_offset b f) + 8 else the (get_offset b f))
       in if offset \<noteq> 0 then w OR push_bit offset (the (\<rho> f)) else w OR the (\<rho> f))"

definition or_bin :: "(string \<Rightarrow> u64 option) \<Rightarrow> nat \<times> field list \<Rightarrow> cap_t \<Rightarrow> cap_t" where
  "or_bin \<rho> = (\<lambda>(i, b). upd_word i (fold (or_field \<rho> i b) b))"

text \<open>\<open>macros\<close> are the constants that the assertions name, \<open>args\<close> the arguments of a call.\<close>

definition make_constructor ::
    "(string \<Rightarrow> u64 option) \<Rightarrow> u64 \<Rightarrow> field list \<Rightarrow> cexpr list \<Rightarrow> field list list \<Rightarrow> u64 list \<Rightarrow> stop + cap_t" where
  "make_constructor macros tag fds asserts bins args =
     (let \<rho> = macros ++ map_of (zip (map fst (parameters fds)) args) in
      ebind (assert_sizes \<rho> (parameters fds)) (\<lambda>_.
      ebind (assert_all \<rho> asserts) (\<lambda>_.
      Inr (fold (or_bin \<rho>) (enumerate 0 bins) \<lparr>word0 = tag, word1 = 0\<rparr>))))"

section \<open>Descriptions\<close>

record cap_desc =
  cd_name :: string
  cd_revokable :: bool
  cd_fields :: "field list option"
  cd_asserts :: "cexpr list"

record case_desc =
  cs_parent :: string
  cs_child :: string
  cs_conditions :: "cexpr list"

text \<open>The enumeration \<open>cap_type\<close> has the names in the order of the file.\<close>

definition enum_value :: "cap_desc list \<Rightarrow> string \<Rightarrow> u64" where
  "enum_value caps name = of_nat (length (takeWhile (\<lambda>d. cd_name d \<noteq> name) caps))"

definition is_cap_type :: "cap_desc list \<Rightarrow> string \<Rightarrow> cap_t \<Rightarrow> bool" where
  "is_cap_type caps name cap \<longleftrightarrow> cap_get_type cap = enum_value caps name"

definition find_desc :: "cap_desc list \<Rightarrow> string \<Rightarrow> cap_desc option" where
  "find_desc caps name = List.find (\<lambda>d. cd_name d = name) caps"

text \<open>\<open>make_cap_functions\<close>: the functions of one capability, by the name of the field.\<close>

definition make_cap_getter :: "cap_desc list \<Rightarrow> string \<Rightarrow> string \<Rightarrow> (cap_t \<Rightarrow> stop + u64) option" where
  "make_cap_getter caps cap_name f =
     Option.bind (find_desc caps cap_name) (\<lambda>d. Option.bind (cd_fields d) (\<lambda>fds.
     Option.bind (binpack [7, 8] fds) (\<lambda>bins. Option.bind (map_of fds f) (\<lambda>s.
     make_getter (enum_value caps cap_name) f s bins))))"

definition make_cap_setter :: "cap_desc list \<Rightarrow> string \<Rightarrow> string \<Rightarrow> (cap_t \<Rightarrow> u64 \<Rightarrow> stop + cap_t) option" where
  "make_cap_setter caps cap_name f =
     Option.bind (find_desc caps cap_name) (\<lambda>d. Option.bind (cd_fields d) (\<lambda>fds.
     Option.bind (binpack [7, 8] fds) (\<lambda>bins. Option.bind (map_of fds f) (\<lambda>s.
     make_setter (enum_value caps cap_name) f s bins))))"

definition make_cap_constructor ::
    "(string \<Rightarrow> u64 option) \<Rightarrow> cap_desc list \<Rightarrow> string \<Rightarrow> (u64 list \<Rightarrow> stop + cap_t) option" where
  "make_cap_constructor macros caps cap_name =
     Option.bind (find_desc caps cap_name) (\<lambda>d. Option.bind (cd_fields d) (\<lambda>fds.
     map_option (make_constructor macros (enum_value caps cap_name) fds (cd_asserts d))
       (binpack [7, 8] fds)))"

definition make_revokable :: "cap_desc list \<Rightarrow> cap_t \<Rightarrow> bool" where
  "make_revokable caps cap \<longleftrightarrow>
     list_all (\<lambda>d. is_cap_type caps (cd_name d) cap) (filter cd_revokable caps)"

text \<open>A reference \<open>p:f\<close> becomes a call of the getter of the parent, \<open>c:f\<close> of the child.\<close>

definition make_translator :: "cap_desc list \<Rightarrow> case_desc \<Rightarrow> cap_t \<Rightarrow> cap_t \<Rightarrow> char \<Rightarrow> string \<Rightarrow> stop + u64" where
  "make_translator caps cs p c v f =
     (let call = (\<lambda>name cap. case make_cap_getter caps name f of None \<Rightarrow> Inl Undefined | Some g \<Rightarrow> g cap)
      in if v = CHR ''p'' then call (cs_parent cs) p
         else if v = CHR ''c'' then call (cs_child cs) c else Inl Undefined)"

fun make_pred :: "cap_desc list \<Rightarrow> case_desc list \<Rightarrow> cap_t \<Rightarrow> cap_t \<Rightarrow> stop + bool" where
  "make_pred caps [] p c = Inr False"
| "make_pred caps (cs # cases) p c =
     (if is_cap_type caps (cs_parent cs) p \<and> is_cap_type caps (cs_child cs) c
      then eval_all (make_translator caps cs p c) (cs_conditions cs)
      else make_pred caps cases p c)"

section \<open>gen/cap.yml\<close>

definition rwx_assert :: cexpr where
  "rwx_assert = Or (Or (Or (Equal (Ident ''rwx'') (Num 4)) (Equal (Ident ''rwx'') (Num 5)))
     (Equal (Ident ''rwx'') (Num 6))) (Equal (Ident ''rwx'') (Num 7))"

definition begin_free :: "cexpr list" where
  "begin_free = [Equal (Ident ''begin'') (Ident ''free''), Less (Ident ''begin'') (Ident ''end'')]"

definition channel_desc :: "string \<Rightarrow> cap_desc" where
  "channel_desc name = \<lparr>cd_name = name, cd_revokable = True,
     cd_fields = Some [(''channel'', 2), (''grant'', 1)],
     cd_asserts = [Less (Ident ''channel'') (Ident ''N_CHANNELS'')]\<rparr>"

definition cap_yml :: "cap_desc list" where
  "cap_yml =
    [\<lparr>cd_name = ''empty'', cd_revokable = False, cd_fields = None, cd_asserts = []\<rparr>,
     \<lparr>cd_name = ''memory'', cd_revokable = True,
       cd_fields = Some [(''begin'', 4), (''end'', 4), (''rwx'', 1), (''free'', 4), (''pmp'', 1)],
       cd_asserts = begin_free @ [Equal (Ident ''pmp'') (Num 0), rwx_assert]\<rparr>,
     \<lparr>cd_name = ''pmp'', cd_revokable = False,
       cd_fields = Some [(''addr'', 4), (''rwx'', 1)], cd_asserts = [rwx_assert]\<rparr>,
     \<lparr>cd_name = ''time'', cd_revokable = True,
       cd_fields = Some [(''hartid'', 1), (''begin'', 2), (''end'', 2), (''free'', 2)],
       cd_asserts = [LessEq (Ident ''MIN_HARTID'') (Ident ''hartid''),
         LessEq (Ident ''hartid'') (Ident ''MAX_HARTID'')] @ begin_free @
         [LessEq (Ident ''end'') (Ident ''N_QUANTUM'')]\<rparr>,
     \<lparr>cd_name = ''channels'', cd_revokable = True,
       cd_fields = Some [(''begin'', 2), (''end'', 2), (''free'', 2)],
       cd_asserts = begin_free @ [LessEq (Ident ''end'') (Ident ''N_CHANNELS'')]\<rparr>,
     channel_desc ''receiver'', channel_desc ''sender'', channel_desc ''server'', channel_desc ''client'',
     \<lparr>cd_name = ''supervisor'', cd_revokable = True,
       cd_fields = Some [(''begin'', 1), (''end'', 1), (''free'', 1)],
       cd_asserts = begin_free @ [LessEq (Ident ''end'') (Ident ''N_PROC'')]\<rparr>]"

abbreviation of_p :: "string \<Rightarrow> cexpr" where "of_p \<equiv> Field CHR ''p''"

abbreviation of_c :: "string \<Rightarrow> cexpr" where "of_c \<equiv> Field CHR ''c''"

definition yml_case :: "string \<Rightarrow> string \<Rightarrow> cexpr list \<Rightarrow> case_desc" where
  "yml_case p c conds = \<lparr>cs_parent = p, cs_child = c, cs_conditions = conds\<rparr>"

definition is_child_yml :: "case_desc list" where
  "is_child_yml =
    [yml_case ''memory'' ''memory'' [LessEq (of_p ''begin'') (of_c ''begin''), LessEq (of_c ''end'') (of_p ''free''),
       Equal (BitAnd (of_c ''rwx'') (of_p ''rwx'')) (of_c ''rwx'')],
     yml_case ''memory'' ''pmp'' [LessEq (of_p ''free'') (Napot_begin (of_c ''addr'')),
       LessEq (Napot_end (of_c ''addr'')) (of_p ''end''), Equal (of_p ''pmp'') (Num 1),
       Equal (BitAnd (of_c ''rwx'') (of_p ''rwx'')) (of_c ''rwx'')],
     yml_case ''time'' ''time'' [LessEq (of_p ''begin'') (of_c ''begin''), LessEq (of_c ''end'') (of_p ''free''),
       Equal (of_p ''hartid'') (of_c ''hartid'')],
     yml_case ''channels'' ''channels'' [LessEq (of_p ''begin'') (of_c ''begin''), LessEq (of_c ''end'') (of_p ''free'')],
     yml_case ''channels'' ''receiver'' [LessEq (of_p ''begin'') (of_c ''channel''), Less (of_c ''channel'') (of_p ''free'')],
     yml_case ''channels'' ''sender'' [LessEq (of_p ''begin'') (of_c ''channel''), Less (of_c ''channel'') (of_p ''free'')],
     yml_case ''channels'' ''server'' [LessEq (of_p ''begin'') (of_c ''channel''), Less (of_c ''channel'') (of_p ''free'')],
     yml_case ''channels'' ''client'' [LessEq (of_p ''begin'') (of_c ''channel''), Less (of_c ''channel'') (of_p ''free'')],
     yml_case ''receiver'' ''sender'' [Equal (of_p ''channel'') (of_c ''channel'')],
     yml_case ''server'' ''client'' [Equal (of_p ''channel'') (of_c ''channel'')],
     yml_case ''supervisor'' ''supervisor'' [LessEq (of_p ''begin'') (of_c ''begin''), LessEq (of_c ''end'') (of_p ''free'')]]"

definition can_derive_yml :: "case_desc list" where
  "can_derive_yml =
    [yml_case ''memory'' ''memory'' [Equal (of_p ''pmp'') (Num 0), Equal (of_c ''pmp'') (Num 0),
       Equal (of_p ''free'') (of_c ''begin''), LessEq (of_c ''end'') (of_p ''end''),
       Equal (BitAnd (of_c ''rwx'') (of_p ''rwx'')) (of_c ''rwx''),
       Equal (of_c ''free'') (of_c ''begin''), Less (of_c ''begin'') (of_c ''end'')],
     yml_case ''memory'' ''pmp'' [LessEq (of_p ''free'') (Napot_begin (of_c ''addr'')),
       LessEq (Napot_end (of_c ''addr'')) (of_p ''end''), Equal (BitAnd (of_c ''rwx'') (of_p ''rwx'')) (of_c ''rwx'')],
     yml_case ''time'' ''time'' [Equal (of_p ''free'') (of_c ''begin''), LessEq (of_c ''end'') (of_p ''end''),
       Equal (of_p ''hartid'') (of_c ''hartid''), Equal (of_c ''free'') (of_c ''begin''), Less (of_c ''begin'') (of_c ''end'')],
     yml_case ''channels'' ''channels'' [Equal (of_p ''free'') (of_c ''begin''), LessEq (of_c ''end'') (of_p ''end''),
       Equal (of_c ''free'') (of_c ''begin''), Less (of_c ''begin'') (of_c ''end'')],
     yml_case ''channels'' ''receiver'' [Equal (of_p ''free'') (of_c ''channel''), Less (of_c ''channel'') (of_p ''end''),
       Or (Equal (of_c ''grant'') (Num 0)) (Equal (of_c ''grant'') (Num 1))],
     yml_case ''receiver'' ''sender'' [Equal (of_p ''channel'') (of_c ''channel''), Equal (of_p ''grant'') (of_c ''grant'')],
     yml_case ''channels'' ''server'' [Equal (of_p ''free'') (of_c ''channel''), Less (of_c ''channel'') (of_p ''end''),
       Or (Equal (of_c ''grant'') (Num 0)) (Equal (of_c ''grant'') (Num 1))],
     yml_case ''server'' ''client'' [Equal (of_p ''channel'') (of_c ''channel''), Equal (of_p ''grant'') (of_c ''grant'')],
     yml_case ''supervisor'' ''supervisor'' [LessEq (of_p ''free'') (of_c ''begin''), LessEq (of_c ''end'') (of_p ''end''),
       Equal (of_c ''free'') (of_c ''begin''), Less (of_c ''begin'') (of_c ''end'')]]"

section \<open>The packing\<close>

definition bytes :: "field list \<Rightarrow> nat" where "bytes b = sum_list (map snd b)"

definition layout_ok :: "field list list \<Rightarrow> nat \<Rightarrow> nat \<Rightarrow> field list \<Rightarrow> bool" where
  "layout_ok bins m n fds \<longleftrightarrow> (\<exists>a b. bins = [a, b] \<and> set fds = set a \<union> set b \<and>
     distinct (map fst (parameters (a @ b))) \<and> bytes a \<le> m \<and> bytes b \<le> n)"

lemma first_some_Some: "first_some g xs = Some y \<Longrightarrow> \<exists>x \<in> set xs. g x = Some y"
  by (induction xs) (auto split: option.splits)

lemma set_parameters: "(f, s) \<in> set (parameters b) \<longleftrightarrow> (f, s) \<in> set b \<and> f \<noteq> ''padd''"
  by (auto simp: parameters_def)

lemma binpack_layout:
  "binpack [m, n] fds = Some bins \<Longrightarrow> distinct (map fst (parameters fds)) \<Longrightarrow> layout_ok bins m n fds"
proof (induction fds arbitrary: m n bins)
  case Nil
  then show ?case by (auto simp: layout_ok_def parameters_def bytes_def)
next
  case (Cons f fds)
  obtain g s where f: "f = (g, s)" by (cases f)
  have "\<exists>i \<in> set [0..<length [m, n]]. (if [m, n] ! i < snd f then None
     else map_option (\<lambda>p. p[i := p ! i @ [f]]) (binpack ([m, n][i := [m, n] ! i - snd f]) fds)) = Some bins"
    by (rule first_some_Some) (use Cons.prems(1) in \<open>simp only: binpack.simps\<close>)
  then obtain i where "i \<in> set [0..<length [m, n]]" and i': "(if [m, n] ! i < snd f then None
     else map_option (\<lambda>p. p[i := p ! i @ [f]]) (binpack ([m, n][i := [m, n] ! i - snd f]) fds)) = Some bins" by (rule bexE)
  then have i2: "i = 0 \<or> i = 1" by auto
  obtain ps where i: "s \<le> [m, n] ! i" "binpack ([m, n][i := [m, n] ! i - s]) fds = Some ps" "bins = ps[i := ps ! i @ [f]]"
    using i' by (cases "[m, n] ! i < snd f") (simp_all add: f not_less map_option_eq_Some del: nth_Cons' list_update.simps, blast)
  have "distinct (map fst (parameters fds))" and new: "g \<noteq> ''padd'' \<Longrightarrow> (g, t) \<notin> set fds" for t
    using Cons.prems(2) set_parameters [of g t fds] by (auto simp: f parameters_def image_iff split: if_splits)
  note IH = Cons.IH [OF _ this(1)]
  from i2 show ?case
  proof
    assume z: "i = 0"
    then obtain a b where ab: "ps = [a, b]" "set fds = set a \<union> set b" "distinct (map fst (parameters (a @ b)))"
      "bytes a \<le> m - s" "bytes b \<le> n"
      using IH [of "m - s" n ps] i(2) by (auto simp: layout_ok_def)
    then show ?thesis using i(1) new
      by (auto simp: layout_ok_def z i(3) f bytes_def parameters_def image_iff)
  next
    assume z: "i = 1"
    then obtain a b where ab: "ps = [a, b]" "set fds = set a \<union> set b" "distinct (map fst (parameters (a @ b)))"
      "bytes a \<le> m" "bytes b \<le> n - s"
      using IH [of m "n - s" ps] i(2) by (auto simp: layout_ok_def)
    then show ?thesis using i(1) new
      by (auto simp: layout_ok_def z i(3) f bytes_def parameters_def image_iff)
  qed
qed

lemma offset_from_split:
  "f \<notin> fst ` set xs \<Longrightarrow> offset_from n (xs @ (f, s) # ys) f = Some (n + 8 * bytes xs)"
  by (induction xs arbitrary: n) (auto simp: bytes_def)

lemma field_split:
  assumes "(f, s) \<in> set b" "f \<noteq> ''padd''" "distinct (map fst (parameters b))"
  shows "\<exists>xs ys. b = xs @ (f, s) # ys \<and> f \<notin> fst ` set xs \<and> f \<notin> fst ` set ys \<and> get_offset b f = Some (8 * bytes xs)"
proof -
  obtain xs ys where b: "b = xs @ (f, s) # ys" using assms(1) by (auto simp: in_set_conv_decomp)
  then have "f \<notin> fst ` set xs" "f \<notin> fst ` set ys" using assms(2,3) by (auto simp: parameters_def image_iff)
  then show ?thesis using b offset_from_split [of f xs 0 s ys] by (auto simp: get_offset_def)
qed

text \<open>Every field has a place inside its word, and the places of two fields do not overlap.\<close>

definition base :: "nat \<Rightarrow> nat" where "base i = (if i = 0 then 8 else 0)"

lemma layout_place:
  assumes l: "layout_ok bins 7 8 fds" and f: "(f, s) \<in> set fds" "f \<noteq> ''padd''"
  shows "\<exists>i off. i < 2 \<and> (f, s) \<in> set (bins ! i) \<and> get_offset (bins ! i) f = Some off \<and>
    place bins f = Some (i, base i + off) \<and> base i + off + 8 * s \<le> 64 \<and> 8 dvd off"
proof -
  obtain a b where ab: "bins = [a, b]" "set fds = set a \<union> set b" "distinct (map fst (parameters (a @ b)))"
    "bytes a \<le> 7" "bytes b \<le> 8"
    using l by (auto simp: layout_ok_def)
  have d: "distinct (map fst (parameters a))" "distinct (map fst (parameters b))"
    "\<And>t. f \<in> fst ` set a \<Longrightarrow> (f, t) \<notin> set b"
    using ab(3) f(2) by (auto simp: parameters_def image_iff; force)+
  consider "(f, s) \<in> set a" | "(f, s) \<in> set b" using f(1) ab(2) by auto
  then show ?thesis
  proof cases
    case 1
    then obtain xs ys where x: "a = xs @ (f, s) # ys" "get_offset a f = Some (8 * bytes xs)"
      using field_split [OF _ f(2) d(1)] by blast
    have "bytes xs + s \<le> 7" using ab(4) x(1) by (simp add: bytes_def)
    then show ?thesis using 1 x(2) ab(1)
      by (intro exI [of _ 0] exI [of _ "8 * bytes xs"]) (auto simp: place_def get_bin_def base_def list_ex_iff)
  next
    case 2
    then obtain xs ys where x: "b = xs @ (f, s) # ys" "get_offset b f = Some (8 * bytes xs)"
      using field_split [OF _ f(2) d(2)] by blast
    have "bytes xs + s \<le> 8" using ab(5) x(1) by (simp add: bytes_def)
    moreover have "f \<notin> fst ` set a" using 2 d(3) by force
    ultimately show ?thesis using 2 x(2) ab(1)
      by (intro exI [of _ 1] exI [of _ "8 * bytes xs"])
        (auto simp: place_def get_bin_def base_def list_ex_iff image_iff split: prod.splits)
  qed
qed

lemma layout_apart:
  assumes "distinct (map fst (parameters b))" "(f, s) \<in> set b" "(g, t) \<in> set b" "f \<noteq> ''padd''" "g \<noteq> ''padd''" "f \<noteq> g"
    and "get_offset b f = Some m" "get_offset b g = Some n"
  shows "m + 8 * s \<le> n \<or> n + 8 * t \<le> m"
proof -
  obtain xs ys where x: "b = xs @ (f, s) # ys" "m = 8 * bytes xs" "f \<notin> fst ` set xs"
    using field_split [OF assms(2,4,1)] assms(7) by auto
  obtain us vs where u: "b = us @ (g, t) # vs" "n = 8 * bytes us" "g \<notin> fst ` set us"
    using field_split [OF assms(3,5,1)] assms(8) by auto
  have "xs @ (f, s) # ys = us @ (g, t) # vs" using x u by simp
  then consider zs where "xs = us @ (g, t) # zs" | zs where "us = xs @ (f, s) # zs"
    using assms(6) by (auto simp: append_eq_append_conv2 append_eq_Cons_conv Cons_eq_append_conv)
  then show ?thesis by cases (simp_all add: x u bytes_def)
qed


section \<open>What the accessors do\<close>

lemma getter_field:
  assumes "place bins f = Some (i, off)" "f \<noteq> ''padd''"
  shows "make_getter tag f s bins =
    Some (\<lambda>cap. ebind (kassert (cap_get_type cap = tag)) (\<lambda>_. Inr (field_get off (8 * s) (cap_word i cap))))"
  using assms by (auto simp: make_getter_def field_get_def ff_def fun_eq_iff)

lemma setter_field:
  assumes "place bins f = Some (i, off)" "f \<noteq> ''padd''" "8 dvd off"
  shows "make_setter tag f s bins =
    Some (\<lambda>cap v. ebind (kassert (cap_get_type cap = tag)) (\<lambda>_. ebind (kassert (fits (8 * s) v)) (\<lambda>_.
      Inr (upd_word i (\<lambda>w. field_set off (8 * s) w v) cap))))"
  using assms by (auto simp: make_setter_def field_set_def ff_def ff_00_def fits_def Let_def fun_eq_iff)

lemma cap_word_upd: "i < 2 \<Longrightarrow> j < 2 \<Longrightarrow> cap_word j (upd_word i g cap) = (if i = j then g (cap_word j cap) else cap_word j cap)"
  by (auto simp: cap_word_def upd_word_def)

lemma or_field_place:
  assumes "get_offset b f = Some off" "f \<noteq> ''padd''"
  shows "or_field \<rho> i b (f, s) w = w OR push_bit (base i + off) (the (\<rho> f))"
  using assms by (auto simp: or_field_def base_def Let_def add.commute)

text \<open>Reading a field of a word that a constructor has put together.\<close>

lemma field_get_or_fields:
  assumes "\<And>g t. (g, t) \<in> set c \<Longrightarrow> g \<noteq> ''padd'' \<Longrightarrow> \<exists>n. get_offset b g = Some n \<and> base i + n + 8 * t \<le> 64 \<and>
      fits (8 * t) (the (\<rho> g)) \<and> (if (g, t) = (f, s) then base i + n = off else base i + n + 8 * t \<le> off \<or> off + m \<le> base i + n)"
    and "off + m \<le> 64" "m = 8 * s \<or> (f, s) \<notin> set c"
  shows "field_get off m (fold (or_field \<rho> i b) c w) =
    (if f \<noteq> ''padd'' \<and> (f, s) \<in> set c then field_get off m w OR the (\<rho> f) else field_get off m w)"
  using assms
proof (induction c arbitrary: w)
  case (Cons x c)
  obtain g t where x: "x = (g, t)" by (cases x)
  show ?case
  proof (cases "g = ''padd''")
    case True
    then show ?thesis using Cons by (auto simp: x or_field_def)
  next
    case False
    then obtain n where n: "get_offset b g = Some n" "base i + n + 8 * t \<le> 64" "fits (8 * t) (the (\<rho> g))"
      "if (g, t) = (f, s) then base i + n = off else base i + n + 8 * t \<le> off \<or> off + m \<le> base i + n"
      using Cons.prems(1) [of g t] by (auto simp: x)
    have IH: "field_get off m (fold (or_field \<rho> i b) c w') =
      (if f \<noteq> ''padd'' \<and> (f, s) \<in> set c then field_get off m w' OR the (\<rho> f) else field_get off m w')" for w'
      using Cons.prems by (intro Cons.IH) auto
    show ?thesis
    proof (cases "(g, t) = (f, s)")
      case True
      then have "m = 8 * s" using Cons.prems(3) by (auto simp: x)
      then have "field_get off m (push_bit (base i + n) (the (\<rho> g))) = the (\<rho> f)"
        using True n by (simp add: field_get_push_same)
      then show ?thesis using True n(1) False
        by (auto simp: x IH or_field_place field_get_or or.assoc)
    next
      case o: False
      then have "field_get off m (push_bit (base i + n) (the (\<rho> g))) = 0"
        using n(3,4) Cons.prems(2) by (intro field_get_push_other) (auto split: if_splits)
      then show ?thesis using o n False
        by (auto simp: x IH or_field_place field_get_or)
    qed
  qed
qed simp


text \<open>The words that a constructor builds, field by field.\<close>

lemma constructed_fields:
  assumes l: "layout_ok bins 7 8 fds"
    and fit: "\<And>f s. (f, s) \<in> set fds \<Longrightarrow> f \<noteq> ''padd'' \<Longrightarrow> fits (8 * s) (the (\<rho> f))" and tag: "fits 8 tag"
    and c: "c = fold (or_bin \<rho>) (enumerate 0 bins) \<lparr>word0 = tag, word1 = 0\<rparr>"
  shows "cap_get_type c = tag"
    "(f, s) \<in> set fds \<Longrightarrow> f \<noteq> ''padd'' \<Longrightarrow> place bins f = Some (i, off) \<Longrightarrow> field_get off (8 * s) (cap_word i c) = the (\<rho> f)"
proof -
  obtain a b where ab: "bins = [a, b]" "set fds = set a \<union> set b" "distinct (map fst (parameters (a @ b)))"
    using l by (auto simp: layout_ok_def)
  have d: "distinct (map fst (parameters (bins ! j)))" if "j < 2" for j
  proof -
    have "distinct (map fst (parameters a))" "distinct (map fst (parameters b))" using ab(3) by (simp_all add: parameters_def)
    then show ?thesis using less_2_cases [OF that] ab(1) by (elim disjE) simp_all
  qed
  have sub: "set (bins ! j) \<subseteq> set fds" if "j < 2" for j
    using less_2_cases [OF that] ab(1,2) by (elim disjE) simp_all
  have c': "c = \<lparr>word0 = fold (or_field \<rho> 0 a) a tag, word1 = fold (or_field \<rho> 1 b) b 0\<rparr>"
    by (simp add: c ab(1) or_bin_def upd_word_def)
  have w: "cap_word j c = fold (or_field \<rho> j (bins ! j)) (bins ! j) (if j = 0 then tag else 0)" if "j < 2" for j
    using less_2_cases [OF that] by (elim disjE) (simp_all add: cap_word_def c' ab(1))
  have pl: "\<exists>n. get_offset (bins ! j) g = Some n \<and> place bins g = Some (j, base j + n) \<and> base j + n + 8 * t \<le> 64 \<and> fits (8 * t) (the (\<rho> g))"
    if j: "j < 2" "(g, t) \<in> set (bins ! j)" "g \<noteq> ''padd''" for j g t
  proof -
    have g: "(g, t) \<in> set fds" using sub [OF j(1)] j(2) by auto
    obtain k n where k: "k < 2" "(g, t) \<in> set (bins ! k)" "get_offset (bins ! k) g = Some n" "place bins g = Some (k, base k + n)"
      "base k + n + 8 * t \<le> 64" using layout_place [OF l g j(3)] by blast
    have "k = j"
    proof (rule ccontr)
      assume "k \<noteq> j"
      then have "(g, t) \<in> set a" "(g, t) \<in> set b"
        using j(2) k(2) ab(1) less_2_cases [OF j(1)] less_2_cases [OF k(1)] by (elim disjE; simp)+
      then have "(g, t) \<in> set (parameters a)" "(g, t) \<in> set (parameters b)" using j(3) by (simp_all add: set_parameters)
      moreover have "set (map fst (parameters a)) \<inter> set (map fst (parameters b)) = {}" using ab(3) by (simp add: parameters_def)
      ultimately show False by (force simp: image_iff)
    qed
    then show ?thesis using k fit [OF g j(3)] by auto
  qed
  show "cap_get_type c = tag"
  proof -
    have "field_get 0 8 (fold (or_field \<rho> 0 (bins ! 0)) (bins ! 0) tag) =
      (if ''padd'' \<noteq> ''padd'' \<and> (''padd'', 1) \<in> set (bins ! 0) then field_get 0 8 tag OR the (\<rho> ''padd'') else field_get 0 8 tag)"
    proof (rule field_get_or_fields)
      fix g t
      assume g: "(g, t) \<in> set (bins ! 0)" "g \<noteq> ''padd''"
      obtain n where n: "get_offset (bins ! 0) g = Some n" "base 0 + n + 8 * t \<le> 64" "fits (8 * t) (the (\<rho> g))"
        using pl [OF _ g] by auto
      show "\<exists>n. get_offset (bins ! 0) g = Some n \<and> base 0 + n + 8 * t \<le> 64 \<and> fits (8 * t) (the (\<rho> g)) \<and>
        (if (g, t) = (''padd'', 1) then base 0 + n = 0 else base 0 + n + 8 * t \<le> 0 \<or> 0 + 8 \<le> base 0 + n)"
        using n g(2) by (simp add: base_def)
    qed simp_all
    then show ?thesis using w [of 0] tag by (simp add: type_layout cap_word_def field_get_low)
  qed
  assume f: "(f, s) \<in> set fds" "f \<noteq> ''padd''" "place bins f = Some (i, off)"
  then obtain n where n: "i < 2" "(f, s) \<in> set (bins ! i)" "get_offset (bins ! i) f = Some n" "off = base i + n" "off + 8 * s \<le> 64"
    using layout_place [OF l f(1,2)] by auto
  have "field_get off (8 * s) (fold (or_field \<rho> i (bins ! i)) (bins ! i) (if i = 0 then tag else 0)) =
     field_get off (8 * s) (if i = 0 then tag else 0) OR the (\<rho> f)"
  proof (rule field_get_or_fields [where f = f and s = s, THEN trans])
    fix g t
    assume g: "(g, t) \<in> set (bins ! i)" "g \<noteq> ''padd''"
    obtain m where m: "get_offset (bins ! i) g = Some m" "base i + m + 8 * t \<le> 64" "fits (8 * t) (the (\<rho> g))"
      using pl [OF n(1) g] by blast
    have "if (g, t) = (f, s) then base i + m = off else base i + m + 8 * t \<le> off \<or> off + 8 * s \<le> base i + m"
    proof (cases "g = f")
      case True
      then have "t = s" using d [OF n(1)] g n(2) by (auto simp: parameters_def eq_key_imp_eq_value)
      then show ?thesis using True m n(3,4) by simp
    next
      case False
      then show ?thesis using layout_apart [OF d [OF n(1)] g(1) n(2) g(2) f(2) False m(1) n(3)] n(4) by auto
    qed
    then show "\<exists>m. get_offset (bins ! i) g = Some m \<and> base i + m + 8 * t \<le> 64 \<and> fits (8 * t) (the (\<rho> g)) \<and>
      (if (g, t) = (f, s) then base i + m = off else base i + m + 8 * t \<le> off \<or> off + 8 * s \<le> base i + m)"
      using m by blast
  qed (use n f in auto)
  moreover have "field_get off (8 * s) (if i = 0 then tag else 0) = 0"
    using field_get_low_other [OF tag] n(4,5) by (auto simp: base_def)
  ultimately show "field_get off (8 * s) (cap_word i c) = the (\<rho> f)" using w [OF n(1)] by simp
qed


lemma assert_sizes_ok:
  "\<forall>(f, s) \<in> set ps. \<exists>v. \<rho> f = Some v \<and> fits (8 * s) v \<Longrightarrow> assert_sizes \<rho> ps = Inr ()"
  by (induction ps) (auto simp: fits_def ff_def)

lemma parameter_value:
  assumes "distinct (map fst ps)" "length args = length ps" "k < length args"
  shows "(m ++ map_of (zip (map fst ps) args)) (fst (ps ! k)) = Some (args ! k)"
proof -
  have "map_of (zip (map fst ps) args) (map fst ps ! k) = Some (args ! k)"
    using assms by (intro map_of_zip_nth) auto
  then show ?thesis using assms(2,3) by (simp add: map_add_Some_iff)
qed

text \<open>Two parameters that share a word have places apart.\<close>

lemma places_apart_in_word:
  assumes l: "layout_ok bins 7 8 fds" and d: "distinct (map fst (parameters fds))"
    and f: "(f, s) \<in> set (parameters fds)" "place bins f = Some (i, m)"
    and g: "(g, t) \<in> set (parameters fds)" "place bins g = Some (i, n)" "f \<noteq> g"
  shows "m + 8 * s \<le> n \<or> n + 8 * t \<le> m"
proof -
  have ps: "(f, s) \<in> set fds" "f \<noteq> ''padd''" "(g, t) \<in> set fds" "g \<noteq> ''padd''" using f(1) g(1) by (simp_all add: set_parameters)
  obtain m' where m: "i < 2" "(f, s) \<in> set (bins ! i)" "get_offset (bins ! i) f = Some m'" "m = base i + m'"
    using layout_place [OF l ps(1,2)] f(2) by auto
  obtain n' where n: "(g, t) \<in> set (bins ! i)" "get_offset (bins ! i) g = Some n'" "n = base i + n'"
    using layout_place [OF l ps(3,4)] g(2) by auto
  obtain a b where ab: "bins = [a, b]" "distinct (map fst (parameters (a @ b)))" using l by (auto simp: layout_ok_def)
  then have "distinct (map fst (parameters a))" "distinct (map fst (parameters b))" by (simp_all add: parameters_def)
  then have "distinct (map fst (parameters (bins ! i)))" using less_2_cases [OF m(1)] ab(1) by (elim disjE) simp_all
  from layout_apart [OF this m(2) n(1) ps(2,4) g(3) m(3) n(2)] show ?thesis by (simp add: m n)
qed

lemma param_place:
  assumes l: "layout_ok bins 7 8 fds" and f: "(f, s) \<in> set (parameters fds)"
  obtains i off where "place bins f = Some (i, off)" "i < 2" "off + 8 * s \<le> 64" "8 dvd off" "base i \<le> off"
    "\<And>tag. make_getter tag f s bins =
      Some (\<lambda>cap. ebind (kassert (cap_get_type cap = tag)) (\<lambda>_. Inr (field_get off (8 * s) (cap_word i cap))))"
    "\<And>tag. make_setter tag f s bins =
      Some (\<lambda>cap v. ebind (kassert (cap_get_type cap = tag)) (\<lambda>_. ebind (kassert (fits (8 * s) v)) (\<lambda>_.
        Inr (upd_word i (\<lambda>w. field_set off (8 * s) w v) cap))))"
proof -
  have f': "(f, s) \<in> set fds" "f \<noteq> ''padd''" using f by (simp_all add: set_parameters)
  obtain i n where n: "i < 2" "place bins f = Some (i, base i + n)" "base i + n + 8 * s \<le> 64" "8 dvd n"
    using layout_place [OF l f'] by blast
  then have d: "8 dvd (base i + n)" by (simp add: base_def)
  have b: "base i \<le> base i + n" by simp
  show ?thesis by (rule that [OF n(2,1,3) d b getter_field [OF n(2) f'(2)] setter_field [OF n(2) f'(2) d]])
qed

text \<open>A setter keeps the tag and the other fields.\<close>

lemma setter_effect:
  assumes l: "layout_ok bins 7 8 fds" and d: "distinct (map fst (parameters fds))"
    and f: "(f, s) \<in> set (parameters fds)" and t: "cap_get_type cap = tag" and v: "fits (8 * s) v"
  shows "\<exists>st cap'. make_setter tag f s bins = Some st \<and> st cap v = Inr cap' \<and> cap_get_type cap' = tag \<and>
    (\<forall>(g, t) \<in> set (parameters fds). \<exists>get. make_getter tag g t bins = Some get \<and>
      get cap' = (if g = f then Inr v else get cap))"
proof -
  obtain i off where p: "place bins f = Some (i, off)" "i < 2" "off + 8 * s \<le> 64" "base i \<le> off"
    and set: "make_setter tag f s bins =
      Some (\<lambda>cap v. ebind (kassert (cap_get_type cap = tag)) (\<lambda>_. ebind (kassert (fits (8 * s) v)) (\<lambda>_.
        Inr (upd_word i (\<lambda>w. field_set off (8 * s) w v) cap))))"
    by (rule param_place [OF l f]) blast
  let ?c = "upd_word i (\<lambda>w. field_set off (8 * s) w v) cap"
  have t': "cap_get_type ?c = tag"
    using t field_get_set_other [OF v, of off 0 8] p(4) by (auto simp: type_layout upd_word_def base_def split: if_splits)
  moreover have "\<exists>get. make_getter tag g u bins = Some get \<and> get ?c = (if g = f then Inr v else get cap)"
    if g: "(g, u) \<in> set (parameters fds)" for g u
  proof -
    obtain j m where q: "place bins g = Some (j, m)" "j < 2" "m + 8 * u \<le> 64"
      and get: "make_getter tag g u bins =
        Some (\<lambda>cap. ebind (kassert (cap_get_type cap = tag)) (\<lambda>_. Inr (field_get m (8 * u) (cap_word j cap))))"
      by (rule param_place [OF l g]) blast
    have "field_get m (8 * u) (cap_word j ?c) = (if g = f then v else field_get m (8 * u) (cap_word j cap))"
    proof (cases "g = f")
      case True
      then have "u = s" using d f g eq_key_imp_eq_value by metis
      then show ?thesis using True p q v by (simp add: cap_word_upd field_get_set_same)
    next
      case False
      then have "i = j \<Longrightarrow> off + 8 * s \<le> m \<or> m + 8 * u \<le> off"
        using places_apart_in_word [OF l d f _ g] p(1) q(1) by metis
      then show ?thesis using p(2) q(2,3) False field_get_set_other [OF v] by (simp add: cap_word_upd)
    qed
    then show ?thesis using get t t' by auto
  qed
  ultimately have "\<forall>(g, t) \<in> set (parameters fds). \<exists>get. make_getter tag g t bins = Some get \<and>
      get ?c = (if g = f then Inr v else get cap)" by fast
  moreover have "ebind (kassert (cap_get_type cap = tag)) (\<lambda>_. ebind (kassert (fits (8 * s) v)) (\<lambda>_. Inr ?c)) = Inr ?c"
    using t v by simp
  ultimately show ?thesis using set t' by blast
qed

lemma constructor_effect:
  assumes l: "layout_ok bins 7 8 fds" and d: "distinct (map fst (parameters fds))" and tag: "fits 8 tag"
    and len: "length args = length (parameters fds)" and fit: "\<forall>k < length args. fits (8 * snd (parameters fds ! k)) (args ! k)"
    and as: "assert_all (macros ++ map_of (zip (map fst (parameters fds)) args)) asserts = Inr ()"
  shows "\<exists>cap. make_constructor macros tag fds asserts bins args = Inr cap \<and> cap_get_type cap = tag \<and>
    (\<forall>k < length args. \<exists>get. make_getter tag (fst (parameters fds ! k)) (snd (parameters fds ! k)) bins = Some get \<and>
      get cap = Inr (args ! k))"
proof -
  let ?ps = "parameters fds"
  define \<rho> where "\<rho> = macros ++ map_of (zip (map fst ?ps) args)"
  have val: "\<rho> (fst (?ps ! k)) = Some (args ! k)" if "k < length args" for k
    unfolding \<rho>_def by (rule parameter_value [OF d len that])
  have ex: "\<exists>v. \<rho> f = Some v \<and> fits (8 * s) v" if f: "(f, s) \<in> set ?ps" for f s
  proof -
    obtain k where k: "k < length args" "?ps ! k = (f, s)" using f len unfolding in_set_conv_nth by auto
    then show ?thesis using val [OF k(1)] fit by auto
  qed
  define cap where "cap = fold (or_bin \<rho>) (enumerate 0 bins) \<lparr>word0 = tag, word1 = 0\<rparr>"
  have "assert_sizes \<rho> ?ps = Inr ()" by (rule assert_sizes_ok) (use ex in auto)
  then have run: "make_constructor macros tag fds asserts bins args = Inr cap"
    using as by (simp add: make_constructor_def Let_def \<rho>_def cap_def)
  have fit': "(f, s) \<in> set fds \<Longrightarrow> f \<noteq> ''padd'' \<Longrightarrow> fits (8 * s) (the (\<rho> f))" for f s
    using ex [of f s] by (auto simp: set_parameters)
  note con = constructed_fields [OF l fit' tag cap_def]
  have "\<exists>get. make_getter tag (fst (?ps ! k)) (snd (?ps ! k)) bins = Some get \<and> get cap = Inr (args ! k)"
    if k: "k < length args" for k
  proof -
    have f: "(fst (?ps ! k), snd (?ps ! k)) \<in> set ?ps" using k len by simp
    obtain i off where p: "place bins (fst (?ps ! k)) = Some (i, off)"
      and get: "make_getter tag (fst (?ps ! k)) (snd (?ps ! k)) bins =
        Some (\<lambda>cap. ebind (kassert (cap_get_type cap = tag)) (\<lambda>_. Inr (field_get off (8 * snd (?ps ! k)) (cap_word i cap))))"
      by (rule param_place [OF l f]) blast
    have f': "(fst (?ps ! k), snd (?ps ! k)) \<in> set fds" "fst (?ps ! k) \<noteq> ''padd''" using f set_parameters [of "fst (?ps ! k)" "snd (?ps ! k)" fds] by blast+
    have "field_get off (8 * snd (?ps ! k)) (cap_word i cap) = args ! k"
      using con(2) [OF _ _ f' p] val [OF k] by simp
    then show ?thesis using get con(1) by simp
  qed
  with run con(1) show ?thesis by blast
qed

text \<open>C13: the accessors that are generated for a description work, whatever the description. If the
  fields fit into the two words and have different names, and the arguments fit their fields
  and satisfy the assertions, the constructor returns a capability with the tag, every getter
  reads its argument back, and every setter changes its own field only.\<close>

theorem generated_accessors:
  assumes "binpack [7, 8] fds = Some bins" "distinct (map fst (parameters fds))" "fits 8 tag"
    and "length args = length (parameters fds)" "\<forall>k < length args. fits (8 * snd (parameters fds ! k)) (args ! k)"
    and "assert_all (macros ++ map_of (zip (map fst (parameters fds)) args)) asserts = Inr ()"
  shows "\<exists>cap. make_constructor macros tag fds asserts bins args = Inr cap \<and> cap_get_type cap = tag \<and>
    (\<forall>k < length args. \<exists>get. make_getter tag (fst (parameters fds ! k)) (snd (parameters fds ! k)) bins = Some get \<and>
      get cap = Inr (args ! k)) \<and>
    (\<forall>(f, s) \<in> set (parameters fds). \<forall>v. fits (8 * s) v \<longrightarrow>
      (\<exists>st cap'. make_setter tag f s bins = Some st \<and> st cap v = Inr cap' \<and> cap_get_type cap' = tag \<and>
        (\<forall>(g, t) \<in> set (parameters fds). \<exists>get. make_getter tag g t bins = Some get \<and>
          get cap' = (if g = f then Inr v else get cap))))"
proof -
  note l = binpack_layout [OF assms(1,2)]
  obtain cap where "make_constructor macros tag fds asserts bins args = Inr cap" "cap_get_type cap = tag"
    "\<forall>k < length args. \<exists>get. make_getter tag (fst (parameters fds ! k)) (snd (parameters fds ! k)) bins = Some get \<and>
      get cap = Inr (args ! k)"
    using constructor_effect [OF l assms(2-6)] by blast
  moreover have "\<forall>(f, s) \<in> set (parameters fds). \<forall>v. fits (8 * s) v \<longrightarrow>
      (\<exists>st cap'. make_setter tag f s bins = Some st \<and> st cap v = Inr cap' \<and> cap_get_type cap' = tag \<and>
        (\<forall>(g, t) \<in> set (parameters fds). \<exists>get. make_getter tag g t bins = Some get \<and>
          get cap' = (if g = f then Inr v else get cap)))"
    using setter_effect [OF l assms(2) _ \<open>cap_get_type cap = tag\<close>] by blast
  ultimately show ?thesis by blast
qed

text \<open>A description with padding: \<open>x\<close> and the padding fill the first word, \<open>y\<close> the second.\<close>

theorem generated_accessors_witness:
  "\<exists>cap get. make_constructor (\<lambda>_. None) 200 [(''x'', 4), (''padd'', 3), (''y'', 8)] [Less (Ident ''x'') (Ident ''y'')]
      [[(''padd'', 3), (''x'', 4)], [(''y'', 8)]] [5, 7] = Inr cap \<and> cap_get_type cap = 200 \<and>
    make_getter 200 ''x'' 4 [[(''padd'', 3), (''x'', 4)], [(''y'', 8)]] = Some get \<and> get cap = Inr 5"
proof -
  let ?fds = "[(''x'', 4), (''padd'', 3), (''y'', 8)] :: field list"
  let ?as = "[Less (Ident ''x'') (Ident ''y'')]"
  have b: "binpack [7, 8] ?fds = Some [[(''padd'', 3), (''x'', 4)], [(''y'', 8)]]" by (simp add: numeral_eq_Suc)
  have ps: "parameters ?fds = [(''x'', 4), (''y'', 8)]" by (simp add: parameters_def)
  have "fits 8 (200 :: u64)" "fits 32 (5 :: u64)" "fits 64 (7 :: u64)" by (simp_all add: fits_def mask_eq_exp_minus_1)
  then have h: "distinct (map fst (parameters ?fds))" "fits 8 (200 :: u64)" "length [5, 7 :: u64] = length (parameters ?fds)"
    "\<forall>k < length [5, 7 :: u64]. fits (8 * snd (parameters ?fds ! k)) ([5, 7] ! k)"
    "assert_all ((\<lambda>_. None) ++ map_of (zip (map fst (parameters ?fds)) [5, 7])) ?as = Inr ()"
    by (simp_all add: ps All_less_Suc truth_def)
  obtain cap where cap: "make_constructor (\<lambda>_. None) 200 ?fds ?as [[(''padd'', 3), (''x'', 4)], [(''y'', 8)]] [5, 7] = Inr cap"
      "cap_get_type cap = 200"
    and get: "\<forall>k < length [5, 7 :: u64]. \<exists>get. make_getter 200 (fst (parameters ?fds ! k)) (snd (parameters ?fds ! k))
      [[(''padd'', 3), (''x'', 4)], [(''y'', 8)]] = Some get \<and> get cap = Inr ([5, 7] ! k)"
    using generated_accessors [OF b h] by blast
  from get [THEN spec, of 0] cap show ?thesis by (simp add: ps)
qed


section \<open>The checked-in header\<close>

definition header_getters :: "(string \<times> string \<times> (cap_t \<Rightarrow> u64)) list" where
  "header_getters =
    [(''memory'', ''begin'', cap_memory_get_begin),
     (''memory'', ''end'', cap_memory_get_end),
     (''memory'', ''rwx'', cap_memory_get_rwx),
     (''memory'', ''free'', cap_memory_get_free),
     (''memory'', ''pmp'', cap_memory_get_pmp),
     (''pmp'', ''addr'', cap_pmp_get_addr),
     (''pmp'', ''rwx'', cap_pmp_get_rwx),
     (''time'', ''hartid'', cap_time_get_hartid),
     (''time'', ''begin'', cap_time_get_begin),
     (''time'', ''end'', cap_time_get_end),
     (''time'', ''free'', cap_time_get_free),
     (''channels'', ''begin'', cap_channels_get_begin),
     (''channels'', ''end'', cap_channels_get_end),
     (''channels'', ''free'', cap_channels_get_free),
     (''receiver'', ''channel'', cap_receiver_get_channel),
     (''receiver'', ''grant'', cap_receiver_get_grant),
     (''sender'', ''channel'', cap_sender_get_channel),
     (''sender'', ''grant'', cap_sender_get_grant),
     (''server'', ''channel'', cap_server_get_channel),
     (''server'', ''grant'', cap_server_get_grant),
     (''client'', ''channel'', cap_client_get_channel),
     (''client'', ''grant'', cap_client_get_grant),
     (''supervisor'', ''begin'', cap_supervisor_get_begin),
     (''supervisor'', ''end'', cap_supervisor_get_end),
     (''supervisor'', ''free'', cap_supervisor_get_free)]"

definition header_setters :: "(string \<times> string \<times> (cap_t \<Rightarrow> u64 \<Rightarrow> cap_t)) list" where
  "header_setters =
    [(''memory'', ''begin'', cap_memory_set_begin),
     (''memory'', ''end'', cap_memory_set_end),
     (''memory'', ''rwx'', cap_memory_set_rwx),
     (''memory'', ''free'', cap_memory_set_free),
     (''memory'', ''pmp'', cap_memory_set_pmp),
     (''pmp'', ''addr'', cap_pmp_set_addr),
     (''pmp'', ''rwx'', cap_pmp_set_rwx),
     (''time'', ''hartid'', cap_time_set_hartid),
     (''time'', ''begin'', cap_time_set_begin),
     (''time'', ''end'', cap_time_set_end),
     (''time'', ''free'', cap_time_set_free),
     (''channels'', ''begin'', cap_channels_set_begin),
     (''channels'', ''end'', cap_channels_set_end),
     (''channels'', ''free'', cap_channels_set_free),
     (''receiver'', ''channel'', cap_receiver_set_channel),
     (''receiver'', ''grant'', cap_receiver_set_grant),
     (''sender'', ''channel'', cap_sender_set_channel),
     (''sender'', ''grant'', cap_sender_set_grant),
     (''server'', ''channel'', cap_server_set_channel),
     (''server'', ''grant'', cap_server_set_grant),
     (''client'', ''channel'', cap_client_set_channel),
     (''client'', ''grant'', cap_client_set_grant),
     (''supervisor'', ''begin'', cap_supervisor_set_begin),
     (''supervisor'', ''end'', cap_supervisor_set_end),
     (''supervisor'', ''free'', cap_supervisor_set_free)]"

definition yml_fields :: "string \<Rightarrow> field list option" where
  "yml_fields name = Option.bind (find_desc cap_yml name) cd_fields"

lemma yml_descs:
  "yml_fields ''memory'' = Some [(''begin'', 4), (''end'', 4), (''rwx'', 1), (''free'', 4), (''pmp'', 1)]"
  "yml_fields ''pmp'' = Some [(''addr'', 4), (''rwx'', 1)]"
  "yml_fields ''time'' = Some [(''hartid'', 1), (''begin'', 2), (''end'', 2), (''free'', 2)]"
  "yml_fields ''channels'' = Some [(''begin'', 2), (''end'', 2), (''free'', 2)]"
  "yml_fields ''receiver'' = Some [(''channel'', 2), (''grant'', 1)]"
  "yml_fields ''sender'' = Some [(''channel'', 2), (''grant'', 1)]"
  "yml_fields ''server'' = Some [(''channel'', 2), (''grant'', 1)]"
  "yml_fields ''client'' = Some [(''channel'', 2), (''grant'', 1)]"
  "yml_fields ''supervisor'' = Some [(''begin'', 1), (''end'', 1), (''free'', 1)]"
  by (simp_all add: yml_fields_def find_desc_def cap_yml_def channel_desc_def)

lemma yml_tags:
  "enum_value cap_yml ''empty'' = cap_type_num CAP_TYPE_EMPTY"
  "enum_value cap_yml ''memory'' = cap_type_num CAP_TYPE_MEMORY"
  "enum_value cap_yml ''pmp'' = cap_type_num CAP_TYPE_PMP"
  "enum_value cap_yml ''time'' = cap_type_num CAP_TYPE_TIME"
  "enum_value cap_yml ''channels'' = cap_type_num CAP_TYPE_CHANNELS"
  "enum_value cap_yml ''receiver'' = cap_type_num CAP_TYPE_RECEIVER"
  "enum_value cap_yml ''sender'' = cap_type_num CAP_TYPE_SENDER"
  "enum_value cap_yml ''server'' = cap_type_num CAP_TYPE_SERVER"
  "enum_value cap_yml ''client'' = cap_type_num CAP_TYPE_CLIENT"
  "enum_value cap_yml ''supervisor'' = cap_type_num CAP_TYPE_SUPERVISOR"
  by (simp_all add: enum_value_def cap_yml_def channel_desc_def)

lemma yml_bins:
  "binpack [7, 8] [(''begin'', 4), (''end'', 4), (''rwx'', 1), (''free'', 4), (''pmp'', 1)] =
    Some [[(''pmp'', 1), (''rwx'', 1), (''begin'', 4)], [(''free'', 4), (''end'', 4)]]"
  "binpack [7, 8] [(''addr'', 4), (''rwx'', 1)] = Some [[(''rwx'', 1), (''addr'', 4)], []]"
  "binpack [7, 8] [(''hartid'', 1), (''begin'', 2), (''end'', 2), (''free'', 2)] =
    Some [[(''free'', 2), (''end'', 2), (''begin'', 2), (''hartid'', 1)], []]"
  "binpack [7, 8] [(''begin'', 2), (''end'', 2), (''free'', 2)] =
    Some [[(''free'', 2), (''end'', 2), (''begin'', 2)], []]"
  "binpack [7, 8] [(''channel'', 2), (''grant'', 1)] = Some [[(''grant'', 1), (''channel'', 2)], []]"
  "binpack [7, 8] [(''begin'', 1), (''end'', 1), (''free'', 1)] =
    Some [[(''free'', 1), (''end'', 1), (''begin'', 1)], []]"
  by (simp_all add: numeral_eq_Suc)

text \<open>Where a field of the YAML file is: its word, its offset and its size in bytes.\<close>

definition yml_field :: "string \<Rightarrow> string \<Rightarrow> (nat \<times> nat \<times> nat) option" where
  "yml_field name f = Option.bind (yml_fields name) (\<lambda>fds.
     Option.bind (binpack [7, 8] fds) (\<lambda>bins. Option.bind (map_of fds f) (\<lambda>s.
     map_option (\<lambda>(i, off). (i, off, s)) (place bins f))))"

lemma place_simps:
  "place [a, b] f = (case get_offset a f of Some off \<Rightarrow> Some (0, off + 8)
     | None \<Rightarrow> map_option (Pair 1) (get_offset b f))"
proof -
  have o: "offset_from n c f = None \<longleftrightarrow> \<not> list_ex (\<lambda>(g, s). g = f) c" for n c
    
  proof (induction c arbitrary: n)
    case (Cons x c)
    then show ?case by (cases x) (simp add: list_ex_iff)
  qed simp
  show ?thesis using o [of 0 a] o [of 0 b]
    by (cases "get_offset a f"; cases "get_offset b f") (auto simp: place_def get_bin_def get_offset_def)
qed

lemmas yml_simps = yml_field_def yml_descs yml_bins place_simps get_offset_def

lemma getter_yml:
  assumes "yml_field t f = Some (i, off, s)" "f \<noteq> ''padd''"
  shows "make_cap_getter cap_yml t f =
    Some (\<lambda>cap. ebind (kassert (is_cap_type cap_yml t cap)) (\<lambda>_. Inr (field_get off (8 * s) (cap_word i cap))))"
  using assms getter_field [of _ f i off "enum_value cap_yml t" s]
  by (auto simp: yml_field_def yml_fields_def make_cap_getter_def is_cap_type_def bind_eq_Some_conv)

lemma setter_yml:
  assumes "yml_field t f = Some (i, off, s)" "f \<noteq> ''padd''" "8 dvd off"
  shows "make_cap_setter cap_yml t f =
    Some (\<lambda>cap v. ebind (kassert (is_cap_type cap_yml t cap)) (\<lambda>_. ebind (kassert (fits (8 * s) v)) (\<lambda>_.
      Inr (upd_word i (\<lambda>w. field_set off (8 * s) w v) cap))))"
  using assms setter_field [of _ f i off "enum_value cap_yml t" s]
  by (auto simp: yml_field_def yml_fields_def make_cap_setter_def is_cap_type_def bind_eq_Some_conv)

lemma yml_memory:
  "yml_field ''memory'' ''begin'' = Some (0, 24, 4)" "yml_field ''memory'' ''end'' = Some (1, 32, 4)"
  "yml_field ''memory'' ''rwx'' = Some (0, 16, 1)" "yml_field ''memory'' ''free'' = Some (1, 0, 4)"
  "yml_field ''memory'' ''pmp'' = Some (0, 8, 1)"
  by (simp_all add: yml_simps)

lemma yml_pmp_time:
  "yml_field ''pmp'' ''addr'' = Some (0, 16, 4)" "yml_field ''pmp'' ''rwx'' = Some (0, 8, 1)"
  "yml_field ''time'' ''hartid'' = Some (0, 56, 1)" "yml_field ''time'' ''begin'' = Some (0, 40, 2)"
  "yml_field ''time'' ''end'' = Some (0, 24, 2)" "yml_field ''time'' ''free'' = Some (0, 8, 2)"
  by (simp_all add: yml_simps)

lemma yml_channels:
  "yml_field ''channels'' ''begin'' = Some (0, 40, 2)" "yml_field ''channels'' ''end'' = Some (0, 24, 2)"
  "yml_field ''channels'' ''free'' = Some (0, 8, 2)"
  "yml_field ''receiver'' ''channel'' = Some (0, 16, 2)" "yml_field ''receiver'' ''grant'' = Some (0, 8, 1)"
  "yml_field ''sender'' ''channel'' = Some (0, 16, 2)" "yml_field ''sender'' ''grant'' = Some (0, 8, 1)"
  "yml_field ''server'' ''channel'' = Some (0, 16, 2)" "yml_field ''server'' ''grant'' = Some (0, 8, 1)"
  "yml_field ''client'' ''channel'' = Some (0, 16, 2)" "yml_field ''client'' ''grant'' = Some (0, 8, 1)"
  "yml_field ''supervisor'' ''begin'' = Some (0, 24, 1)" "yml_field ''supervisor'' ''end'' = Some (0, 16, 1)"
  "yml_field ''supervisor'' ''free'' = Some (0, 8, 1)"
  by (simp_all add: yml_simps)

lemmas yml_placed = yml_memory yml_pmp_time yml_channels

lemmas getters_yml = yml_placed [THEN getter_yml]

lemmas setters_yml = yml_placed [THEN setter_yml]

lemmas header_layout = memory_layout pmp_layout time_layout channels_layout receiver_layout sender_layout
  server_layout client_layout supervisor_layout

lemma header_getters_generated:
  "\<forall>(t, f, g) \<in> set header_getters. make_cap_getter cap_yml t f =
    Some (\<lambda>cap. ebind (kassert (is_cap_type cap_yml t cap)) (\<lambda>_. Inr (g cap)))"
  unfolding header_getters_def list.set ball_simps prod.case
  by (intro conjI TrueI; simp add: getters_yml header_layout cap_word_def)

definition field_size :: "string \<Rightarrow> string \<Rightarrow> nat" where
  "field_size t f = the (map_of (the (yml_fields t)) f)"

lemma header_setters_generated:
  "\<forall>(t, f, st) \<in> set header_setters. make_cap_setter cap_yml t f =
    Some (\<lambda>cap v. ebind (kassert (is_cap_type cap_yml t cap)) (\<lambda>_.
      ebind (kassert (fits (8 * field_size t f) v)) (\<lambda>_. Inr (st cap v))))"
  unfolding header_setters_def list.set ball_simps prod.case
  by (intro conjI TrueI; simp add: setters_yml header_layout upd_word_def field_size_def yml_descs)

lemma is_yml_type:
  "is_cap_type cap_yml ''empty'' c \<longleftrightarrow> cap_is_type c CAP_TYPE_EMPTY"
  "is_cap_type cap_yml ''memory'' c \<longleftrightarrow> cap_is_type c CAP_TYPE_MEMORY"
  "is_cap_type cap_yml ''pmp'' c \<longleftrightarrow> cap_is_type c CAP_TYPE_PMP"
  "is_cap_type cap_yml ''time'' c \<longleftrightarrow> cap_is_type c CAP_TYPE_TIME"
  "is_cap_type cap_yml ''channels'' c \<longleftrightarrow> cap_is_type c CAP_TYPE_CHANNELS"
  "is_cap_type cap_yml ''receiver'' c \<longleftrightarrow> cap_is_type c CAP_TYPE_RECEIVER"
  "is_cap_type cap_yml ''sender'' c \<longleftrightarrow> cap_is_type c CAP_TYPE_SENDER"
  "is_cap_type cap_yml ''server'' c \<longleftrightarrow> cap_is_type c CAP_TYPE_SERVER"
  "is_cap_type cap_yml ''client'' c \<longleftrightarrow> cap_is_type c CAP_TYPE_CLIENT"
  "is_cap_type cap_yml ''supervisor'' c \<longleftrightarrow> cap_is_type c CAP_TYPE_SUPERVISOR"
  by (simp_all only: is_cap_type_def yml_tags cap_is_type_def)

lemmas call_getter = header_getters_generated [unfolded header_getters_def list.set ball_simps prod.case is_yml_type]

lemma truth_simps [simp]: "truth b = 0 \<longleftrightarrow> \<not> b" "truth b \<noteq> 0 \<longleftrightarrow> b"
  by (simp_all add: truth_def)

lemma revokable_generated: "make_revokable cap_yml = cap_is_revokable"
proof
  fix cap
  have "map cd_name (filter cd_revokable cap_yml) =
      [''memory'', ''time'', ''channels'', ''receiver'', ''sender'', ''server'', ''client'', ''supervisor'']"
    by (simp add: cap_yml_def channel_desc_def)
  then have "make_revokable cap_yml cap \<longleftrightarrow> list_all (\<lambda>n. is_cap_type cap_yml n cap)
      [''memory'', ''time'', ''channels'', ''receiver'', ''sender'', ''server'', ''client'', ''supervisor'']"
    unfolding make_revokable_def by (metis (no_types, lifting) list.pred_map comp_def list.pred_cong)
  then show "make_revokable cap_yml cap = cap_is_revokable cap"
    by (simp add: is_yml_type cap_is_revokable_def)
qed

text \<open>In a case of a predicate the types are those of the case, so no getter fails its assertion.\<close>

lemma make_pred_Cons:
  "make_pred caps (yml_case P C conds # cases) p c =
    (if is_cap_type caps P p \<and> is_cap_type caps C c
     then eval_all (make_translator caps (yml_case P C conds) p c) conds else make_pred caps cases p c)"
  by (simp add: yml_case_def)

lemma translate:
  assumes "(t, f, g) \<in> set header_getters"
  shows "is_cap_type cap_yml t p \<Longrightarrow> make_translator cap_yml (yml_case t C conds) p c CHR ''p'' f = Inr (g p)"
    "is_cap_type cap_yml t c \<Longrightarrow> make_translator cap_yml (yml_case P t conds) p c CHR ''c'' f = Inr (g c)"
  using header_getters_generated assms by (fastforce simp: make_translator_def yml_case_def)+

lemma in_header:
  "(''memory'', ''begin'', cap_memory_get_begin) \<in> set header_getters"
  "(''memory'', ''end'', cap_memory_get_end) \<in> set header_getters"
  "(''memory'', ''rwx'', cap_memory_get_rwx) \<in> set header_getters"
  "(''memory'', ''free'', cap_memory_get_free) \<in> set header_getters"
  "(''memory'', ''pmp'', cap_memory_get_pmp) \<in> set header_getters"
  "(''pmp'', ''addr'', cap_pmp_get_addr) \<in> set header_getters"
  "(''pmp'', ''rwx'', cap_pmp_get_rwx) \<in> set header_getters"
  "(''time'', ''hartid'', cap_time_get_hartid) \<in> set header_getters"
  "(''time'', ''begin'', cap_time_get_begin) \<in> set header_getters"
  "(''time'', ''end'', cap_time_get_end) \<in> set header_getters"
  "(''time'', ''free'', cap_time_get_free) \<in> set header_getters"
  "(''channels'', ''begin'', cap_channels_get_begin) \<in> set header_getters"
  "(''channels'', ''end'', cap_channels_get_end) \<in> set header_getters"
  "(''channels'', ''free'', cap_channels_get_free) \<in> set header_getters"
  "(''receiver'', ''channel'', cap_receiver_get_channel) \<in> set header_getters"
  "(''receiver'', ''grant'', cap_receiver_get_grant) \<in> set header_getters"
  "(''sender'', ''channel'', cap_sender_get_channel) \<in> set header_getters"
  "(''sender'', ''grant'', cap_sender_get_grant) \<in> set header_getters"
  "(''server'', ''channel'', cap_server_get_channel) \<in> set header_getters"
  "(''server'', ''grant'', cap_server_get_grant) \<in> set header_getters"
  "(''client'', ''channel'', cap_client_get_channel) \<in> set header_getters"
  "(''client'', ''grant'', cap_client_get_grant) \<in> set header_getters"
  "(''supervisor'', ''begin'', cap_supervisor_get_begin) \<in> set header_getters"
  "(''supervisor'', ''end'', cap_supervisor_get_end) \<in> set header_getters"
  "(''supervisor'', ''free'', cap_supervisor_get_free) \<in> set header_getters"
  by (simp_all only: header_getters_def list.set insert_iff simp_thms)

lemmas translated = in_header [THEN translate(1), unfolded is_yml_type] in_header [THEN translate(2), unfolded is_yml_type]

lemma if_case:
  "(A \<Longrightarrow> x = Inr y) \<Longrightarrow> x' = Inr y' \<Longrightarrow> (if A then x else x') = Inr (if A then y else y')"
  by simp

lemma is_child_generated: "make_pred cap_yml is_child_yml p c = Inr (cap_is_child p c)"
  unfolding is_child_yml_def make_pred_Cons cap_is_child_def is_yml_type
  by (intro if_case; (elim conjE)?; simp add: translated)

lemma can_derive_generated: "make_pred cap_yml can_derive_yml p c = Inr (cap_can_derive p c)"
  unfolding can_derive_yml_def make_pred_Cons cap_can_derive_def is_yml_type
  by (intro if_case; (elim conjE)?; simp add: translated)

section \<open>Constructors\<close>

text \<open>The constants of the configuration that the assertions name.\<close>

definition config_macros :: "string \<Rightarrow> u64 option" where
  "config_macros = [''MIN_HARTID'' \<mapsto> of_nat MIN_HARTID, ''MAX_HARTID'' \<mapsto> of_nat MAX_HARTID,
     ''N_QUANTUM'' \<mapsto> of_nat N_QUANTUM, ''N_CHANNELS'' \<mapsto> of_nat N_CHANNELS, ''N_PROC'' \<mapsto> of_nat N_PROC]"

definition generated_mk :: "string \<Rightarrow> u64 list \<Rightarrow> stop + cap_t" where
  "generated_mk name args = (case make_cap_constructor config_macros cap_yml name of
     None \<Rightarrow> Inl Undefined | Some mk \<Rightarrow> mk args)"

lemma kassert_conj: "ebind (kassert a) (\<lambda>_. ebind (kassert b) m) = ebind (kassert (a \<and> b)) m"
  by (simp add: kassert_def)

lemma eval_Or:
  "eval \<rho> get a = Inr (truth A) \<Longrightarrow> eval \<rho> get b = Inr (truth B) \<Longrightarrow> eval \<rho> get (Or a b) = Inr (truth (A \<or> B))"
  by (simp add: truth_def)

lemma eval_rwx: "\<rho> ''rwx'' = Some r \<Longrightarrow> eval \<rho> get rwx_assert = Inr (truth (rwx_valid r))"
  unfolding rwx_assert_def rwx_valid_def disj_assoc [symmetric] by (intro eval_Or) simp_all

lemma assert_all_Cons:
  "eval \<rho> (\<lambda>_ _. Inl Undefined) a = Inr (truth A) \<Longrightarrow>
    assert_all \<rho> (a # as) = ebind (kassert A) (\<lambda>_. assert_all \<rho> as)"
  by simp

lemma yml_asserts:
  "map_option cd_asserts (find_desc cap_yml ''memory'') = Some (begin_free @ [Equal (Ident ''pmp'') (Num 0), rwx_assert])"
  "map_option cd_asserts (find_desc cap_yml ''pmp'') = Some [rwx_assert]"
  "map_option cd_asserts (find_desc cap_yml ''time'') = Some ([LessEq (Ident ''MIN_HARTID'') (Ident ''hartid''),
     LessEq (Ident ''hartid'') (Ident ''MAX_HARTID'')] @ begin_free @ [LessEq (Ident ''end'') (Ident ''N_QUANTUM'')])"
  "map_option cd_asserts (find_desc cap_yml ''channels'') = Some (begin_free @ [LessEq (Ident ''end'') (Ident ''N_CHANNELS'')])"
  "map_option cd_asserts (find_desc cap_yml ''receiver'') = Some [Less (Ident ''channel'') (Ident ''N_CHANNELS'')]"
  "map_option cd_asserts (find_desc cap_yml ''sender'') = Some [Less (Ident ''channel'') (Ident ''N_CHANNELS'')]"
  "map_option cd_asserts (find_desc cap_yml ''server'') = Some [Less (Ident ''channel'') (Ident ''N_CHANNELS'')]"
  "map_option cd_asserts (find_desc cap_yml ''client'') = Some [Less (Ident ''channel'') (Ident ''N_CHANNELS'')]"
  "map_option cd_asserts (find_desc cap_yml ''supervisor'') = Some (begin_free @ [LessEq (Ident ''end'') (Ident ''N_PROC'')])"
  by (simp_all add: find_desc_def cap_yml_def channel_desc_def)

lemma generated_mk_yml:
  assumes "yml_fields t = Some fds" "map_option cd_asserts (find_desc cap_yml t) = Some as" "binpack [7, 8] fds = Some bins"
  shows "generated_mk t args = make_constructor config_macros (enum_value cap_yml t) fds as bins args"
  using assms by (auto simp: generated_mk_def make_cap_constructor_def yml_fields_def bind_eq_Some_conv)

lemma fits_ff: "v AND ff n = v \<longleftrightarrow> fits (8 * n) v"
  by (simp add: fits_def ff_def)

lemmas mk_simps = make_constructor_def parameters_def Let_def eval_rwx begin_free_def kassert_conj fits_ff or_bin_def or_field_def
  get_offset_def upd_word_def yml_tags config_macros_def ebind_assoc conj_ac

lemma mk_memory: "generated_mk ''memory'' [b, e, rwx, fr, pm] = ebind (kassert (fits 32 b \<and> fits 32 e \<and> fits 8 rwx \<and> fits 32 fr \<and>
    fits 8 pm \<and> b = fr \<and> b < e \<and> pm = 0 \<and> rwx_valid rwx)) (\<lambda>_. Inr (cap_mk_memory b e rwx fr pm))"
  by (simp add: generated_mk_yml [OF yml_descs(1) yml_asserts(1) yml_bins(1)] mk_simps cap_mk_memory_def)

lemma mk_pmp: "generated_mk ''pmp'' [addr, rwx] = gen_mk_pmp addr rwx"
  by (simp add: generated_mk_yml [OF yml_descs(2) yml_asserts(2) yml_bins(2)] mk_simps gen_mk_pmp_def cap_mk_pmp_def)

lemma mk_time: "generated_mk ''time'' [h, b, e, fr] = gen_mk_time h b e fr"
  by (simp add: generated_mk_yml [OF yml_descs(3) yml_asserts(3) yml_bins(3)] mk_simps gen_mk_time_def cap_mk_time_def)

lemma mk_channels: "generated_mk ''channels'' [b, e, fr] = gen_mk_channels b e fr"
  by (simp add: generated_mk_yml [OF yml_descs(4) yml_asserts(4) yml_bins(4)] mk_simps gen_mk_channels_def cap_mk_channels_def)

lemma mk_supervisor: "generated_mk ''supervisor'' [b, e, fr] = gen_mk_supervisor b e fr"
  by (simp add: generated_mk_yml [OF yml_descs(9) yml_asserts(9) yml_bins(6)] mk_simps gen_mk_supervisor_def cap_mk_supervisor_def)

lemma mk_channel:
  "generated_mk ''receiver'' [ch, gr] = ebind (kassert (fits 16 ch \<and> fits 8 gr \<and> ch < of_nat N_CHANNELS)) (\<lambda>_. Inr (cap_mk_receiver ch gr))"
  "generated_mk ''sender'' [ch, gr] = ebind (kassert (fits 16 ch \<and> fits 8 gr \<and> ch < of_nat N_CHANNELS)) (\<lambda>_. Inr (cap_mk_sender ch gr))"
  "generated_mk ''server'' [ch, gr] = ebind (kassert (fits 16 ch \<and> fits 8 gr \<and> ch < of_nat N_CHANNELS)) (\<lambda>_. Inr (cap_mk_server ch gr))"
  "generated_mk ''client'' [ch, gr] = ebind (kassert (fits 16 ch \<and> fits 8 gr \<and> ch < of_nat N_CHANNELS)) (\<lambda>_. Inr (cap_mk_client ch gr))"
  by (simp_all add: generated_mk_yml [OF yml_descs(5) yml_asserts(5) yml_bins(5)] generated_mk_yml [OF yml_descs(6) yml_asserts(6) yml_bins(5)]
    generated_mk_yml [OF yml_descs(7) yml_asserts(7) yml_bins(5)] generated_mk_yml [OF yml_descs(8) yml_asserts(8) yml_bins(5)]
    mk_simps cap_mk_receiver_def cap_mk_sender_def cap_mk_server_def cap_mk_client_def)

text \<open>C14: the checked-in header is what the generator makes of \<open>gen/cap.yml\<close>. The getters and setters are
  those of every field in the file, with the assertions on the type and the width in front; the
  constructors are those of the header, and those of the kernel, behind their assertions; the
  predicates are those of the header, and no getter in them fails its assertion.\<close>

theorem header_is_generated:
  "map (\<lambda>(t, f, get). (t, f)) header_getters = concat (map (\<lambda>d. case cd_fields d of
      None \<Rightarrow> [] | Some fds \<Rightarrow> map (\<lambda>(f, s). (cd_name d, f)) fds) cap_yml) \<and>
    map (\<lambda>(t, f, st). (t, f)) header_setters = map (\<lambda>(t, f, get). (t, f)) header_getters \<and>
    list_all (\<lambda>(t, f, get). make_cap_getter cap_yml t f =
      Some (\<lambda>cap. ebind (kassert (is_cap_type cap_yml t cap)) (\<lambda>_. Inr (get cap)))) header_getters \<and>
    list_all (\<lambda>(t, f, st). make_cap_setter cap_yml t f =
      Some (\<lambda>cap v. ebind (kassert (is_cap_type cap_yml t cap)) (\<lambda>_.
        ebind (kassert (fits (8 * field_size t f) v)) (\<lambda>_. Inr (st cap v))))) header_setters \<and>
    generated_mk ''memory'' [b, e, rwx, fr, pm] = ebind (kassert (fits 32 b \<and> fits 32 e \<and> fits 8 rwx \<and> fits 32 fr \<and>
      fits 8 pm \<and> b = fr \<and> b < e \<and> pm = 0 \<and> rwx_valid rwx)) (\<lambda>_. Inr (cap_mk_memory b e rwx fr pm)) \<and>
    generated_mk ''pmp'' [b, rwx] = gen_mk_pmp b rwx \<and> generated_mk ''time'' [h, b, e, fr] = gen_mk_time h b e fr \<and>
    generated_mk ''channels'' [b, e, fr] = gen_mk_channels b e fr \<and>
    generated_mk ''supervisor'' [b, e, fr] = gen_mk_supervisor b e fr \<and>
    list_all (\<lambda>(t, mk). generated_mk t [ch, gr] =
      ebind (kassert (fits 16 ch \<and> fits 8 gr \<and> ch < of_nat N_CHANNELS)) (\<lambda>_. Inr (mk ch gr)))
      [(''receiver'', cap_mk_receiver), (''sender'', cap_mk_sender), (''server'', cap_mk_server), (''client'', cap_mk_client)] \<and>
    make_revokable cap_yml = cap_is_revokable \<and>
    make_pred cap_yml is_child_yml p c = Inr (cap_is_child p c) \<and>
    make_pred cap_yml can_derive_yml p c = Inr (cap_can_derive p c)"
proof -
  have "map (\<lambda>(t, f, get). (t, f)) header_getters = concat (map (\<lambda>d. case cd_fields d of
      None \<Rightarrow> [] | Some fds \<Rightarrow> map (\<lambda>(f, s). (cd_name d, f)) fds) cap_yml)"
    by (simp add: header_getters_def cap_yml_def channel_desc_def)
  moreover have "map (\<lambda>(t, f, st). (t, f)) header_setters = map (\<lambda>(t, f, get). (t, f)) header_getters"
    by (simp add: header_getters_def header_setters_def)
  ultimately show ?thesis
    using header_getters_generated header_setters_generated
    by (simp only: list_all_iff mk_memory mk_pmp mk_time mk_channels mk_supervisor mk_channel revokable_generated
      is_child_generated can_derive_generated list.set ball_simps prod.case simp_thms)
qed

end
