(* ===== verification/SifiveU.thy ===== *)
theory SifiveU
  imports Board
begin

text \<open>
  The second board, \<open>bsp/sifive_u.h\<close>: its constants, the accessors of the timer, the console, and how its
  slower clock stretches the scheduler's margin. The header does not define \<open>N_HARTS\<close>, so the
  scheduler is not built for it as it is; the names carry the prefix \<open>su_\<close> here.
\<close>

section \<open>Constants\<close>

definition su_N_CORES :: nat where "su_N_CORES = 5"

definition su_N_PMP :: nat where "su_N_PMP = 8"

definition su_TICKS_PER_SECOND :: u64 where "su_TICKS_PER_SECOND = 1000000"

definition su_MIN_HARTID :: nat where "su_MIN_HARTID = 1"

definition su_MAX_HARTID :: nat where "su_MAX_HARTID = 4"

definition su_LOG_STACK_SIZE :: nat where "su_LOG_STACK_SIZE = 12"

definition su_STACK_SIZE :: nat where "su_STACK_SIZE = 2 ^ su_LOG_STACK_SIZE"

definition su_PLATFORM_NAME :: "char list" where "su_PLATFORM_NAME = ''sifive_u''"

section \<open>Devices\<close>

definition su_MTIME :: u64 where "su_MTIME = 0x200bff8"

definition su_MTIMECMP :: "i32 \<Rightarrow> stop + u64" where
  "su_MTIMECMP x = (if sint x * 8 < - (2 ^ 31) \<or> 2 ^ 31 \<le> sint x * 8 then Inl Undefined
     else Inr (0x2004000 + word_of_int (sint x * 8)))"

definition su_read_time :: "board \<Rightarrow> u64" where
  "su_read_time b = clint b su_MTIME"

definition su_write_time :: "u64 \<Rightarrow> board \<Rightarrow> board" where
  "su_write_time time b = b\<lparr>clint := (clint b)(su_MTIME := time)\<rparr>"

definition su_read_timeout :: "i32 \<Rightarrow> board \<Rightarrow> stop + u64" where
  "su_read_timeout hartid b = ebind (su_MTIMECMP hartid) (\<lambda>a. Inr (clint b a))"

definition su_write_timeout :: "i32 \<Rightarrow> u64 \<Rightarrow> board \<Rightarrow> stop + board" where
  "su_write_timeout hartid timeout b =
     ebind (su_MTIMECMP hartid) (\<lambda>a. Inr (b\<lparr>clint := (clint b)(a := timeout)\<rparr>))"

text \<open>\<open>txdata i\<close> is what the \<open>i\<close>-th reading of the transmit register gives; it is negative while the queue is full.\<close>

partial_function (option) wait_txdata :: "(nat \<Rightarrow> i32) \<Rightarrow> nat \<Rightarrow> nat option" where
  "wait_txdata txdata i = (if txdata i <s 0 then wait_txdata txdata (Suc i) else Some i)"

text \<open>The result, the number of readings and the device writes in their order.\<close>

definition su_uart_putchar :: "(nat \<Rightarrow> i32) \<Rightarrow> u8 \<Rightarrow> stop + i32 \<times> nat \<times> (u64 \<times> i32) list" where
  "su_uart_putchar txdata c =
     ebind (run_loop (map_option Inr (wait_txdata txdata 0))) (\<lambda>i.
     Inr (ucast c, Suc i, [(0x10010008, 1), (0x10010000, ucast c)]))"

text \<open>The timer is at the same addresses as on the \<open>virt\<close> board.\<close>

lemma su_timer:
  "su_read_time = read_time" "su_write_time = write_time" "su_MTIMECMP = MTIMECMP"
  "su_read_timeout = read_timeout" "su_write_timeout = write_timeout"
  by (simp_all add: fun_eq_iff su_read_time_def su_write_time_def su_MTIMECMP_def su_read_timeout_def su_write_timeout_def
    su_MTIME_def read_time_def write_time_def MTIMECMP_def read_timeout_def write_timeout_def MTIME_def)

text \<open>A character is sent at the first reading with room in the queue, and the call spins while there is none.\<close>

lemma wait_txdata_ends:
  "\<not> txdata (i + n) <s 0 \<Longrightarrow> (\<And>j. j < n \<Longrightarrow> txdata (i + j) <s 0) \<Longrightarrow> wait_txdata txdata i = Some (i + n)"
proof (induction n arbitrary: i)
  case (Suc n)
  have "txdata i <s 0" using Suc.prems(2) [of 0] by simp
  moreover have "wait_txdata txdata (Suc i) = Some (Suc i + n)"
    using Suc.prems(1) Suc.prems(2) [of "Suc j" for j] by (intro Suc.IH) auto
  ultimately show ?case by (subst wait_txdata.simps) simp
qed (subst wait_txdata.simps, simp)

lemma wait_txdata_some: "wait_txdata txdata i = Some n \<Longrightarrow> \<not> txdata n <s 0"
  by (rule wait_txdata.raw_induct [where P = "\<lambda>txdata i n. \<not> txdata n <s 0"]) (auto split: if_splits)

lemma su_putchar:
  "(\<And>j. j < n \<Longrightarrow> txdata j <s 0) \<Longrightarrow> \<not> txdata n <s 0 \<Longrightarrow>
    su_uart_putchar txdata c = Inr (ucast c, Suc n, [(0x10010008, 1), (0x10010000, ucast c)])"
  "(\<And>j. txdata j <s 0) \<Longrightarrow> su_uart_putchar txdata c = Inl Spins"
proof -
  assume "\<And>j. j < n \<Longrightarrow> txdata j <s 0" "\<not> txdata n <s 0"
  then show "su_uart_putchar txdata c = Inr (ucast c, Suc n, [(0x10010008, 1), (0x10010000, ucast c)])"
    using wait_txdata_ends [of txdata 0 n] by (simp add: su_uart_putchar_def run_loop_def)
next
  assume "\<And>j. txdata j <s 0"
  then have "wait_txdata txdata 0 = None" using wait_txdata_some [of txdata 0] by (cases "wait_txdata txdata 0") auto
  then show "su_uart_putchar txdata c = Inl Spins" by (simp add: su_uart_putchar_def run_loop_def)
qed

section \<open>Slices\<close>

definition su_TICKS :: u64 where "su_TICKS = su_TICKS_PER_SECOND div of_nat N_QUANTUM div 100"

text \<open>\<open>wait_and_set_timeout\<close> as it is compiled for a board with \<open>ticks\<close> to the quantum.\<close>

definition slice_times :: "u64 \<Rightarrow> u64 \<Rightarrow> u64 \<Rightarrow> u64 \<Rightarrow> u64 \<times> u64" where
  "slice_times ticks time len timeout =
     (let start_time = time * ticks;
          end_time = start_time + len * ticks - SCHEDULER_TICKS;
          start_time = (if timeout > start_time then timeout else start_time)
      in (start_time, end_time))"

lemma slice_times_virt: "slice_times TICKS = wait_and_set_timeout"
  by (simp add: fun_eq_iff slice_times_def wait_and_set_timeout_def)

text \<open>A quantum is 78 ticks here, and the margin of 2000 ticks is more than 25 of them.\<close>

lemma su_slices:
  assumes "26 \<le> t" "t < 2 ^ 32" "l \<le> 128" "slice_times su_TICKS (of_nat t) (of_nat l) 0 = (s, e)"
  shows "unat s = t * 78" "unat e = (t + l) * 78 - 2000" "s < e \<longleftrightarrow> 26 \<le> l"
proof -
  have k: "su_TICKS = of_nat 78" by (simp add: su_TICKS_def su_TICKS_PER_SECOND_def N_QUANTUM_def)
  have s: "s = of_nat (t * 78)" using assms(4) by (auto simp: slice_times_def k Let_def)
  have "2000 \<le> (t + l) * 78" using assms(1) by simp
  then have "(of_nat ((t + l) * 78 - 2000) :: u64) = of_nat ((t + l) * 78) - of_nat 2000" by (rule of_nat_diff)
  moreover have "e = of_nat ((t + l) * 78) - of_nat 2000"
    using assms(4) by (auto simp: slice_times_def k Let_def SCHEDULER_TICKS_def algebra_simps)
  ultimately have e: "e = of_nat ((t + l) * 78 - 2000)" by simp
  have b: "t * 78 < 2 ^ 64" "(t + l) * 78 - 2000 < 2 ^ 64" using assms(2,3) by simp_all
  have n: "unat (of_nat n :: u64) = n" if "n < 2 ^ 64" for n using that by (simp add: unat_of_nat)
  show us: "unat s = t * 78" and ue: "unat e = (t + l) * 78 - 2000" unfolding s e by (rule n [OF b(1)], rule n [OF b(2)])
  show "s < e \<longleftrightarrow> 26 \<le> l" using assms(1) by (simp add: word_less_nat_alt us ue) arith
qed

end
