(* ===== verification/Spec2Isabelle.thy ===== *)
theory Spec2Isabelle
  imports Rpc CapSpec Confidential Board UserLib Console NodeRace Preempt Timer Start CapGen SifiveU
begin

text \<open>
  A verification development for the s3k separation kernel of this repository: a small
  kernel for RISC-V whose processes hold capabilities to memory frames, to time slices on
  the harts, to communication channels and to other processes, and may do only what their
  capabilities allow.

  \<^bold>\<open>The program.\<close> A capability is two 64-bit words (\<open>api/s3k_cap.h\<close>). The capabilities of
  all processes are nodes in doubly linked lists (\<open>inc/cap_node.h\<close>, \<open>src/cap_node.c\<close>), one
  list per kind of resource, children behind their parent. A process control block holds
  the registers and a state word that harts, supervisors and senders change with atomic
  operations (\<open>inc/proc.h\<close>, \<open>inc/proc_state.h\<close>, \<open>src/proc.c\<close>). The scheduler owns a table
  of quanta by harts (\<open>src/sched.c\<close>), the message system a table of receivers
  (\<open>src/syscall.c\<close>), each behind a ticket lock (\<open>inc/lock.h\<close>). A trap saves the registers
  and enters a system call, the exception handler or the scheduler (\<open>src/trap.S\<close>,
  \<open>src/exception.c\<close>); \<open>cap_update_hook\<close> keeps the two tables in step with the capabilities.
  User programs call the kernel through \<open>api/s3k.h\<close>; the kernel prints through
  \<open>src/kprint.c\<close> and \<open>src/snprintf.c\<close>.

  \<^bold>\<open>The theories.\<close>
  \<^item> \<open>Prelude\<close>: how a run stops (\<open>stop\<close>), composition of fallible steps (\<open>ebind\<close>), bit fields.
  \<^item> \<open>Config\<close>: \<open>config.h\<close>, \<open>bsp/virt.h\<close>, \<open>inc/consts.h\<close>.
  \<^item> \<open>CapFields\<close>, \<open>CapDerive\<close>, \<open>CapAuthority\<close>: the fields of a capability, bit by bit
    (locale \<open>cap_field\<close>); the derivation rules (locale \<open>range_cap\<close>); what a capability means
    (\<open>authority\<close>, a set of resources) and when it is well formed (\<open>cap_ok\<close>).
  \<^item> \<open>Atomic\<close>, \<open>Lock\<close>: the atomic operations; the ticket lock as one hart runs it (locale
    \<open>mutex\<close>) and as all harts interleave in it (\<open>lstep\<close>).
  \<^item> \<open>CapNode\<close>: the node heap and its operations, refining one list of slots per sentinel
    (\<open>rep\<close>); locale \<open>cap_store\<close> is what the system calls use of it. \<open>NodeRace\<close>: the same
    operations one access at a time, interleaved between harts (\<open>nstep\<close>).
  \<^item> \<open>ProcState\<close>, \<open>Proc\<close>: the state word and its interleavings (locale \<open>ownership\<close>, \<open>pstep\<close>,
    \<open>race\<close>); control blocks, registers, the boot of the root process, the PMP values.
  \<^item> \<open>Sched\<close>: the table, the choice of a process, the dispatch loop and the values for the timer.
  \<^item> \<open>Board\<close>: the timer and UART registers of \<open>bsp/virt.h\<close>, and the wait for a slice to start.
  \<^item> \<open>Kernel\<close>: the state of the whole kernel (\<open>kstate\<close>) and every handler of \<open>syscall.c\<close>.
  \<^item> \<open>Separation\<close>, \<open>Handlers\<close>, \<open>Trap\<close>: the separation invariant \<open>kinv\<close>, that every handler
    keeps it, trap entry, boot, and \<open>kstep\<close>, one trap of some hart; \<open>reachable\<close> states.
  \<^item> \<open>Effects\<close>, \<open>Locality\<close>, \<open>Confidential\<close>, \<open>Calls\<close>, \<open>Rpc\<close>: what the system calls do on each
    branch, whom a trap can touch, what it can depend on, and the properties of whole calls and
    of a remote call with its reply.
  \<^item> \<open>Timer\<close>: the timer of a hart, armed by a dispatch (\<open>dispatch_runs\<close>), written by no trap.
  \<^item> \<open>CapSpec\<close>: the specification of the capability calls on plain tables (\<open>spec_call\<close>), and
    that the handlers implement it.
  \<^item> \<open>UserLib\<close>: the functions of \<open>s3k.h\<close> as the registers they load and read.
  \<^item> \<open>Riscv\<close>: the instructions of the assembly files. \<open>Layout\<close>, \<open>TrapCode\<close>: the structures in
    memory with the offsets of \<open>gen/asm_consts.c\<close>, and \<open>trap.S\<close> and \<open>macros.S\<close> instruction by
    instruction (\<open>code\<close>, \<open>run\<close>), refining trap entry.
  \<^item> \<open>Start\<close>: \<open>init.S\<close>, with the harts interleaved (\<open>boot_step\<close>), and its invariant \<open>start_inv\<close>.
  \<^item> \<open>Preempt\<close>: the trap code and the steps of the kernel put together: preemption is invisible.
  \<^item> \<open>CapGen\<close>: the generator \<open>scripts/cap_gen.py\<close>, what it denotes on any description, and that
    the header is what it makes of \<open>gen/cap.yml\<close>. \<open>SifiveU\<close>: the second board.
  \<^item> \<open>Snprintf\<close>, \<open>Console\<close>: formatted output and the boot banner.

  \<^bold>\<open>State and operations.\<close> A C struct is a record, an enum a datatype with its numbers, a
  \<open>uint64_t\<close> a 64-bit word. A node or process pointer is the index it points to, \<open>NULL\<close> is
  \<open>None\<close>. A function that can fail returns \<open>Inl\<close> of the reason: a failed assertion, a null
  or out-of-bounds access, undefined behaviour, or a loop that never ends. The files that
  include \<open>gen/cap.h\<close> get the assertions that \<open>scripts/cap_gen.py\<close> generates, so those are
  part of the model of the callers (\<open>asserted_get\<close>, \<open>asserted_set\<close>). A handler is a function from the kernel state to its
  outcome, returning a value or yielding, and the state it leaves.

  \<^bold>\<open>What is shown.\<close> (1) Separation: \<open>separation_invariant\<close>, \<open>time_isolation\<close>,
  \<open>exclusive_resources\<close>, \<open>trap_locality\<close>, \<open>trap_confidential\<close>, \<open>authority_confinement\<close>
  and \<open>traps_never_go_wrong\<close> hold in every reachable state; boot establishes the invariant
  (\<open>boot_establishes\<close>), and every hart waits for it (\<open>boot_barrier\<close>).
  (2) Derivation: \<open>derive_splits_authority\<close> and its companions.
  (3) Refinement: the capability calls implement operations on tables
  (\<open>capability_calls_refine\<close>), the node operations list operations, the ticket lock a
  queue, and the instructions of the trap entry implement \<open>trap_entry\<close>
  (\<open>trap_code_implements\<close>), with \<open>resume_restores\<close> for the way back and
  \<open>preemption_transparent\<close> for both. The accessors the generator emits are right for any
  description (\<open>generated_accessors\<close>), and those of the header are the ones it emits
  (\<open>header_is_generated\<close>).
  (4) Function: what sending, calling a server, dispatching and printing do. (5) Termination:
  the loops over nodes end on well-linked heaps at the first round, the revocation loop
  after the children, the dispatch loop when the clock reaches a runnable process, the wait
  for a slice when the clock reaches its start.
  (6) Where the code falls short of its purpose the theorem says what it does instead:
  revocation that removes nothing, two calls that stop the kernel, a client that is never
  replaced, PMP entries that stay off, a process run by two harts at once, neighbours in a
  list deleted at once, a frame one page too long, stacks outside their area, and quanta
  given away in a running slice, which stay with the giver until that slice ends.

  \<^bold>\<open>Bounds and fuel.\<close> Loops that may not end are partial functions into \<open>option\<close>, and
  \<open>run_loop\<close> turns the missing result into the failure \<open>Spins\<close>; no theorem is about runs
  that end only. Loops with a counter recurse on the rounds left (8 PMP entries, 4 harts,
  128 quanta). The fuel of \<open>digits_loop\<close> and \<open>pad_loop\<close> is the room in the array of the code,
  so running out of fuel is the overrun of that array.

  \<^bold>\<open>Not modelled.\<close> Two harts inside handlers at the same time: \<open>kstep\<close> runs one trap to its end
  before the next, and interleaving is modelled for the lock, the state words and the node
  operations, each on its own. A timer interrupt inside the preemptible calls ends the call at the
  places where it can arrive with a visible effect (\<open>irq\<close>). In \<open>Start\<close> and \<open>TrapCode\<close>
  memory is one 64-bit or one 32-bit word per address, as the code accesses it, the C functions
  are where a run leaves off, and no interrupt is taken during start-up. \<open>payload.S\<close> is data.
  The CSR macros are the values written. \<open>MEMORY_PROTECTION\<close> is off in \<open>config.h\<close>;
  \<open>proc_load_pmp\<close> is modelled on its own, and so is \<open>print_info\<close>, which the boot of a debug
  build calls: its output is undefined in C, and \<open>initialize_kernel\<close> leaves it out. Reading YAML and printing C text are left out.
\<close>

section \<open>The capability lists\<close>

text \<open>C18: \<open>cap_node_insert\<close> refines insertion into a list. On a heap that represents one list
  of slots per sentinel, inserting an unused node after a live one puts it right behind it in
  its list, stores the capability and changes no other.\<close>

theorem cap_node_insert_refines:
  assumes "rep h L" "is_slot prev" "is_slot node" "node_live h prev" "\<not> node_live h node"
  shows "\<exists>k h'. prev \<in> set (L k) \<and> cap_node_insert cap node prev h = Inr (True, h') \<and>
    rep h' (L(k := insert_after prev node (L k))) \<and>
    (\<forall>n. cn_cap (h' n) = (if n = node then cap else cn_cap (h n)))"
proof -
  obtain k m where "prev \<in> set (L k)" "cap_node_insert cap node prev h = Inr (True, heap_insert cap node prev m h)"
    "rep (heap_insert cap node prev m h) (L(k := tl (insert_after prev node (Sentinel k # L k))))"
    using rep_insert_effect [OF assms, of cap] by blast
  moreover have "prev \<noteq> Sentinel k" using assms(2) by auto
  ultimately show ?thesis by (auto simp: heap_insert_cap)
qed

theorem cap_node_insert_refines_witness:
  "\<exists>h'. cap_node_insert NULL_CAP (Slot 0 9) (Slot 0 5) (boot_heap 0) = Inr (True, h') \<and>
    rep h' (boot_lists(Time_sentinel := [Slot 0 6, Slot 0 5, Slot 0 9, Slot 0 4, Slot 0 3]))"
proof -
  have l: "node_live (boot_heap 0) (Slot 0 5)" "\<not> node_live (boot_heap 0) (Slot 0 9)"
    by (simp_all add: node_live_def boot_heap_live del: not_None_eq)
  obtain k h' where k: "Slot 0 5 \<in> set (boot_lists k)"
    "cap_node_insert NULL_CAP (Slot 0 9) (Slot 0 5) (boot_heap 0) = Inr (True, h')"
    "rep h' (boot_lists(k := insert_after (Slot 0 5) (Slot 0 9) (boot_lists k)))"
    using cap_node_insert_refines [OF boot_rep _ _ l, of NULL_CAP] by auto
  then have "k = Time_sentinel" by (cases k) auto
  with k show ?thesis by auto
qed

text \<open>C19: \<open>cap_node_delete\<close> refines removal: it takes a live node out of its list, leaves the
  capability word in the slot, and changes nothing else.\<close>

theorem cap_node_delete_refines:
  assumes "rep h L" "is_slot node" "node_live h node"
  shows "\<exists>k h'. node \<in> set (L k) \<and> cap_node_delete node h = Inr (True, h') \<and>
    rep h' (L(k := remove1 node (L k))) \<and> \<not> node_live h' node \<and> (\<forall>n. cn_cap (h' n) = cn_cap (h n))"
proof -
  obtain k p m where k: "node \<in> set (L k)" "rep (heap_delete node p m h) (L(k := remove1 node (L k)))"
    "node_live h m" "m \<noteq> node" "cap_node_delete node h = Inr (True, heap_delete node p m h)"
    using rep_delete_effect [OF assms] by blast
  moreover have "\<not> node_live (heap_delete node p m h) node"
    using heap_delete_live [of h m node p node] k(3,4) by (simp add: node_live_def)
  ultimately show ?thesis by (auto simp: heap_delete_cap)
qed

theorem cap_node_delete_refines_witness:
  "\<exists>h'. cap_node_delete (Slot 0 5) (boot_heap 0) = Inr (True, h') \<and>
    rep h' (boot_lists(Time_sentinel := [Slot 0 6, Slot 0 4, Slot 0 3]))"
proof -
  have l: "node_live (boot_heap 0) (Slot 0 5)"
    by (simp add: node_live_def boot_heap_live del: not_None_eq)
  obtain k h' where k: "Slot 0 5 \<in> set (boot_lists k)"
    "cap_node_delete (Slot 0 5) (boot_heap 0) = Inr (True, h')"
    "rep h' (boot_lists(k := remove1 (Slot 0 5) (boot_lists k)))"
    using cap_node_delete_refines [OF boot_rep _ l] by auto
  then have "k = Time_sentinel" by (cases k) auto
  with k show ?thesis by auto
qed

section \<open>Separation\<close>

text \<open>C1: the separation invariant holds in every state the kernel reaches: well-linked
  tables, well-formed capabilities, no exclusive resource in two slots, and the schedule and
  the receivers as the capabilities say.\<close>

theorem separation_invariant:
  assumes "reachable k"
  shows "kinv k"
  by (rule reachable_kinv [OF assms])

theorem separation_invariant_witness: "kinv (root_running 0 1)"
  by (rule separation_invariant [OF root_reachable])



text \<open>C3: no exclusive resource is held twice. Two live capabilities in different slots never
  share a quantum of a hart, the right to receive on a channel or to supervise a process.\<close>

theorem exclusive_resources:
  assumes "reachable k" "cap_at (ks_nodes k) n c" "cap_at (ks_nodes k) n' c'"
    and "x \<in> authority c" "x \<in> authority c'" "exclusive x"
  shows "n = n'"
  using caps_invD(5) [OF kinvD(1) [OF reachable_kinv [OF assms(1)]] assms(2,3)] assms(4-6) by blast

theorem exclusive_resources_witness:
  "{n. \<exists>c. cap_at (ks_nodes (root_running 0 1)) n c \<and> Slice 1 5 \<in> authority c} = {Slot 0 3}"
proof -
  have a: "Slice 1 5 \<in> authority (boot_cap 0 3)"
    unfolding authority_simps(3) [OF root_time(2)] by (simp add: root_time)
  have "n = Slot 0 3" if "cap_at (ks_nodes (root_running 0 1)) n c" "Slice 1 5 \<in> authority c" for n c
    by (rule exclusive_resources [OF root_reachable that(1) root_time(1) that(2) a]) simp
  then show ?thesis using root_time(1) a by blast
qed

text \<open>C6: no trap creates authority. What the capabilities of all processes together command
  after a step of the kernel, they commanded before it.\<close>

theorem authority_confinement:
  assumes "reachable k" "kstep\<^sup>*\<^sup>* k k'"
  shows "all_authority (ks_nodes k') \<subseteq> all_authority (ks_nodes k)"
  using assms(2)
proof (induction rule: rtranclp_induct)
  case (step y z)
  have "reachable y" using step(1) assms(1) unfolding reachable_def by (meson rtranclp_trans)
  then show ?case using kstep_keeps(2) [OF step(2) reachable_kinv] step.IH by blast
qed simp

lemma enter_root: "kstep (root_running 0 1) ((root_running 0 1)\<lparr>ks_hartid := 2, ks_current := Some 0\<rparr>)"
  by (rule kstep.enter) (simp_all add: hart_ok_def config_defs)

theorem authority_confinement_witness:
  "all_authority (ks_nodes ((root_running 0 1)\<lparr>ks_hartid := 2, ks_current := Some 0\<rparr>)) \<subseteq>
   all_authority (ks_nodes (root_running 0 1))"
  by (rule authority_confinement [OF root_reachable]) (rule r_into_rtranclp [of kstep, OF enter_root])

text \<open>C7: no trap goes wrong. From a reachable state every trap of the current process ends
  normally with the invariant kept, or stops at a failed assertion: it never follows a null
  pointer, leaves an array or spins. It can stop only in a state with a time capability
  whose time is all derived away or a channels capability left in an emptied slot.\<close>

theorem traps_never_go_wrong:
  assumes "reachable k" "ks_current k = Some c"
  shows "case trap_entry hw mcause mtval irq k of
      Inl e \<Rightarrow> e = Assert_failed \<and> \<not> calm (ks_nodes k)
    | Inr (resumes, k') \<Rightarrow> kinv k' \<and> ks_current k' = Some c"
  using trap_entry_keeps [OF reachable_kinv [OF assms(1)] assms(2), of hw mcause mtval irq] assms(2)
  by (auto split: sum.split)

theorem traps_never_go_wrong_witness:
  "case trap_entry (\<lambda>_. 0) 8 0 (\<lambda>_. False) (root_running 0 1) of
      Inl e \<Rightarrow> e = Assert_failed \<and> \<not> calm (ks_nodes (root_running 0 1))
    | Inr (resumes, k') \<Rightarrow> kinv k' \<and> ks_current k' = Some 0"
  by (rule traps_never_go_wrong [OF root_reachable]) simp

section \<open>Boot and exceptions\<close>

lemma boot_who_runs:
  assumes "hart_ok h"
  shows "map_option (\<lambda>(p, l). (p, of_nat l)) (who_runs boot_schedule (unat h) (unat t)) =
    (if h = 1 then Some (0 :: nat, of_nat N_QUANTUM - t mod of_nat N_QUANTUM :: u64) else None)"
proof (cases "h = 1")
  case True
  have q: "unat (t mod of_nat N_QUANTUM) = unat t mod N_QUANTUM" by (simp add: unat_mod config_defs)
  have "(of_nat (N_QUANTUM - unat t mod N_QUANTUM) :: u64) = of_nat N_QUANTUM - of_nat (unat t mod N_QUANTUM)"
    by (rule of_nat_diff) (simp add: config_defs less_imp_le)
  also have "of_nat (unat t mod N_QUANTUM) = t mod of_nat N_QUANTUM"
    unfolding q [symmetric] by simp
  finally show ?thesis using True boot_runs [of "unat t"] by simp
next
  case False
  have unat1: "unat h \<noteq> 1" using False unsigned_word_eqI [of h 1] by (metis unsigned_1)
  have h: "1 < unat h" "unat h \<le> 4"
    using assms unat1 by (simp_all add: hart_ok_def config_defs)
  then have "\<exists>i \<in> {MIN_HARTID..<unat h}. fst (entry_at boot_schedule (unat t mod N_QUANTUM) i) = 0"
    by (intro bexI [of _ 1]) (simp_all add: sched_init_entries config_defs)
  moreover have "fst (entry_at boot_schedule (unat t mod N_QUANTUM) (unat h)) = 0"
    using h by (simp add: sched_init_entries config_defs)
  ultimately show ?thesis using False by (simp add: who_runs_def Let_def)
qed

lemma initialize_kernel_refuses:
  assumes "\<not> fits 32 (drop_bit 12 p)"
  shows "initialize_kernel p h = Inl Assert_failed"
proof -
  have "0 < N_PROC" by (simp add: config_defs)
  moreover have "proc_init_root (proc_init_proc 0 boot_proc) p (\<lambda>_. boot_node) = Inl Assert_failed"
    using assms by (simp add: proc_init_root_def proc_get_cap_node_def proc_init_proc_def
        proc_init_memory_def insert_cap_def gen_mk_pmp_def)
  ultimately show ?thesis by (simp add: initialize_kernel_def bss_def proc_init_def init_procs_fold)
qed

text \<open>C22: what boot hands over. If the address of the root payload fits, process 0 is ready, all
  others suspended; process 0 holds the seven initial capabilities and nobody else any; and
  hart 1 runs process 0 in every quantum while the other harts run nobody. Otherwise boot
  stops at a failed assertion.\<close>

theorem boot_establishes:
  assumes "hart_ok h"
  shows "if fits 32 (drop_bit 12 p) then \<exists>k. initialize_kernel p h = Inr k \<and>
      (\<forall>n c. cap_at (ks_nodes k) n c \<longleftrightarrow> (\<exists>j < 7. n = Slot 0 j \<and> c = boot_cap p j)) \<and>
      (\<forall>i < N_PROC. state_of k i = pstate (if i = 0 then PROC_STATE_READY else PROC_STATE_SUSPENDED)) \<and>
      (\<forall>h' t. hart_ok h' \<longrightarrow> sched_get_proc (ks_schedule k) h' t =
         Inr (if h' = 1 then Some (0, of_nat N_QUANTUM - t mod of_nat N_QUANTUM) else None))
    else initialize_kernel p h = Inl Assert_failed"
proof (cases "fits 32 (drop_bit 12 p)")
  case True
  have "sched_get_proc boot_schedule h' t =
      Inr (if h' = 1 then Some (0, of_nat N_QUANTUM - t mod of_nat N_QUANTUM) else None)" if "hart_ok h'" for h' t
    using sched_get_proc_runs [OF that, of boot_schedule t] boot_who_runs [OF that, of t] by simp
  then show ?thesis
    using True initialize_kernel_boots [OF True]
    by (simp add: boot_state_def boot_cap_at state_of_def boot_procs_def config_defs)
next
  case False
  then show ?thesis by (simp add: initialize_kernel_refuses)
qed

theorem boot_establishes_witness:
  "\<exists>k. initialize_kernel 0x80010000 1 = Inr k \<and> cap_at (ks_nodes k) (Slot 0 0) (cap_mk_pmp 0x80010 7) \<and>
    state_of k 0 = pstate PROC_STATE_READY \<and> sched_get_proc (ks_schedule k) 1 5 = Inr (Some (0, 123))"
proof -
  have d: "drop_bit 12 0x80010000 = (0x80010 :: u64)" by code_simp
  have f: "fits 32 (drop_bit 12 0x80010000)" by (simp add: d fits_unat)
  obtain k where k: "initialize_kernel 0x80010000 1 = Inr k"
    "\<forall>n c. cap_at (ks_nodes k) n c \<longleftrightarrow> (\<exists>j < 7. n = Slot 0 j \<and> c = boot_cap 0x80010000 j)"
    "\<forall>i < N_PROC. state_of k i = pstate (if i = 0 then PROC_STATE_READY else PROC_STATE_SUSPENDED)"
    "\<forall>h' t. hart_ok h' \<longrightarrow> sched_get_proc (ks_schedule k) h' t =
       Inr (if h' = 1 then Some (0, of_nat N_QUANTUM - t mod of_nat N_QUANTUM) else None)"
    using boot_establishes [where p = "0x80010000", OF hart_ok_1] f by auto
  moreover have "cap_at (ks_nodes k) (Slot 0 0) (cap_mk_pmp 0x80010 7)"
    using k(2) by (simp add: boot_cap_def d)
  moreover have "sched_get_proc (ks_schedule k) 1 5 = Inr (Some (0, 123))"
    using k(4) hart_ok_1 by (simp add: config_defs)
  ultimately show ?thesis by (simp add: config_defs)
qed

text \<open>C39: an exception other than a system call enters the handler the process has registered,
  with the cause and the value in \<open>a0\<close> and \<open>a1\<close> and the interrupted \<open>pc\<close>, \<open>sp\<close>, \<open>a0\<close> and \<open>a1\<close>
  kept aside, for every value of 32 bits; that includes the encoding of \<open>mret\<close>, by which
  the handler is meant to return.\<close>

theorem exception_enters_handler:
  assumes "ks_current k = Some c" "\<not> bit mcause 63" "mcause \<noteq> MCAUSE_U_ECALL" "unat mtval < 2 ^ 32"
  shows "\<exists>k' r. trap_entry hw mcause mtval irq k = Inr (True, k') \<and> r = p_regs (ks_procs k' c) \<and>
    r PC = p_regs (ks_procs k c) TPC \<and> r SP = p_regs (ks_procs k c) TSP \<and> r A0 = mcause \<and> r A1 = mtval \<and>
    r PPC = hw PC \<and> r PSP = hw SP \<and> r PA0 = hw A0 \<and> r PA1 = hw A1 \<and>
    (\<forall>i. i \<noteq> c \<longrightarrow> ks_procs k' i = ks_procs k i) \<and> ks_nodes k' = ks_nodes k"
proof -
  let ?k = "upd_proc c (exception_handler mcause mtval (hw PC)) (upd_proc c (save_context hw) k)"
  have "trap_entry hw mcause mtval irq k = Inr (True, ?k)"
    using assms(1-3) by (simp add: trap_entry_def deref_current_def Let_def)
  moreover have "TPC \<notin> saved_regs" "TSP \<notin> saved_regs" "SP \<in> saved_regs"
    by (simp_all add: saved_regs_def reg_order_def)
  ultimately show ?thesis
    using exception_no_return [OF assms(4)]
    by (intro exI [of _ ?k] exI [of _ "p_regs (ks_procs ?k c)"]) (simp add: upd_proc_def save_context_def)
qed

theorem exception_enters_handler_witness:
  "\<exists>k'. trap_entry (\<lambda>_. 0) 2 0x30200073 (\<lambda>_. False) (root_running 0 1) = Inr (True, k') \<and>
    p_regs (ks_procs k' 0) A1 = 0x30200073"
proof -
  have "\<not> bit (2 :: u64) 63" using bit_push_mask [of 1 1 63] by simp
  then show ?thesis
    using exception_enters_handler [of "root_running 0 1" 0 2 "0x30200073" "\<lambda>_. 0" "\<lambda>_. False"]
    by (auto simp: MCAUSE_U_ECALL_def)
qed

end
